(* ===== verification/EDS_Prelude.thy ===== *)
theory EDS_Prelude
  imports Main "HOL-Library.Signed_Division" "HOL-Library.Multiset"
begin

text \<open>
  Shared vocabulary of the development. The C integers of the modelled code are kept as
  \<^typ>\<open>int\<close> with every narrowing assignment written out: \<open>u8\<close>, \<open>u16\<close> and \<open>u32\<close> are the
  conversions to \<^verbatim>\<open>guint8\<close>, \<^verbatim>\<open>guint16\<close> and \<^verbatim>\<open>guint32\<close>, \<open>s32\<close> the conversion of a 32-bit
  pattern to \<^verbatim>\<open>gint\<close>. C's \<^verbatim>\<open>/\<close> and \<^verbatim>\<open>%\<close> on signed operands are \<open>sdiv\<close> and \<open>smod\<close> of
  \<open>HOL-Library.Signed_Division\<close> (truncating towards zero).
\<close>

named_theorems cint_defs \<open>definitions of the C integer conversions\<close>

definition u8 :: "int \<Rightarrow> int" where
  "u8 x = x mod 256"

definition u16 :: "int \<Rightarrow> int" where
  "u16 x = x mod 65536"

definition u32 :: "int \<Rightarrow> int" where
  "u32 x = x mod 4294967296"

definition s32 :: "int \<Rightarrow> int" where
  "s32 x = (x + 2147483648) mod 4294967296 - 2147483648"

lemmas [cint_defs] = u8_def u16_def u32_def s32_def

lemma u8_id [simp]: "0 \<le> x \<Longrightarrow> x < 256 \<Longrightarrow> u8 x = x"
  by (simp add: u8_def)

lemma u16_id [simp]: "0 \<le> x \<Longrightarrow> x < 65536 \<Longrightarrow> u16 x = x"
  by (simp add: u16_def)

lemma u32_id [simp]: "0 \<le> x \<Longrightarrow> x < 4294967296 \<Longrightarrow> u32 x = x"
  by (simp add: u32_def)

lemma s32_id [simp]: "-2147483648 \<le> x \<Longrightarrow> x < 2147483648 \<Longrightarrow> s32 x = x"
  by (simp add: s32_def)

lemma u8_bounds [simp]: "0 \<le> u8 x" "u8 x < 256"
  by (simp_all add: u8_def)

lemma u16_bounds [simp]: "0 \<le> u16 x" "u16 x < 65536"
  by (simp_all add: u16_def)

lemma u32_bounds [simp]: "0 \<le> u32 x" "u32 x < 4294967296"
  by (simp_all add: u32_def)

lemma s32_bounds [simp]: "-2147483648 \<le> s32 x" "s32 x < 2147483648"
  by (simp_all add: s32_def)

text \<open>On non-negative operands C division is Isabelle's.\<close>

lemma sdiv_nonneg [simp]: "0 \<le> a \<Longrightarrow> 0 < b \<Longrightarrow> (a::int) sdiv b = a div b"
  by (cases "a = 0") (simp_all add: signed_divide_int_def)

lemma smod_nonneg [simp]: "0 \<le> a \<Longrightarrow> 0 < b \<Longrightarrow> (a::int) smod b = a mod b"
  by (cases "a = 0") (simp_all add: signed_modulo_int_def)

text \<open>Weekday arithmetic: the code adds a week before it subtracts, to stay above zero.\<close>

lemma plus_week_mod: "(a + 7 - b) mod 7 = (a - b) mod (7::int)"
proof -
  have "a + 7 - b = a - b + 7" by simp
  then show ?thesis by (simp only: mod_add_self2)
qed

lemma plus_week_smod: "0 \<le> a \<Longrightarrow> b \<le> 7 \<Longrightarrow> (a + 7 - b) smod 7 = (a - b) mod (7::int)"
  by (simp add: plus_week_mod)

text \<open>
  The carry of the \<^verbatim>\<open>add_hours\<close>, \<^verbatim>\<open>add_minutes\<close> and \<^verbatim>\<open>add_seconds\<close> family. A negative total is
  divided towards zero, the remainder is stored in a \<^verbatim>\<open>guint8\<close> (where it wraps), and when it is
  not zero one unit is added back, again modulo 256. The pair that results is floor division.
\<close>

lemma neg_sdiv: "a < 0 \<Longrightarrow> 0 < b \<Longrightarrow> (a::int) sdiv b = - ((- a) div b)"
  by (simp add: signed_divide_int_def)

lemma neg_smod: "a < 0 \<Longrightarrow> 0 < b \<Longrightarrow> (a::int) smod b = - ((- a) mod b)"
  by (simp add: signed_modulo_int_def)

lemma int_div_mod_unique:
  assumes "(a::int) = b * q + r" "0 \<le> r" "r < b"
  shows "a div b = q \<and> a mod b = r"
  using assms by (simp add: add.commute)

lemma neg_carry_zero:
  assumes "0 < b" "b \<le> 256" "a < 0" "u8 (a smod b) = 0"
  shows "a sdiv b = a div b" and "a mod b = (0::int)"
proof -
  define r where "r = (- a) mod b"
  from assms(1) have r: "0 \<le> r" "r < b" by (auto simp: r_def)
  have "u8 (- r) = 0" using assms by (simp add: neg_smod r_def)
  then have "(- r) mod 256 = 0" by (simp add: u8_def)
  then have "r mod 256 = 0" by presburger
  with r assms(2) have r0: "r = 0" by simp
  then have "b dvd - a" unfolding r_def by (rule mod_eq_0_iff_dvd [THEN iffD1])
  then have "b dvd a" by simp
  then show "a mod b = 0" by simp
  show "a sdiv b = a div b"
    using assms(1,3) \<open>b dvd a\<close> by (simp add: neg_sdiv dvd_neg_div)
qed

lemma neg_carry_nonzero:
  assumes "0 < b" "b \<le> 128" "a < 0" "u8 (a smod b) \<noteq> 0"
  shows "a sdiv b - 1 = a div b" and "u8 (u8 (a smod b) + b) = a mod (b::int)"
proof -
  define r where "r = (- a) mod b"
  from assms(1) have r: "0 \<le> r" "r < b" by (auto simp: r_def)
  have "r \<noteq> 0" using assms by (auto simp: neg_smod r_def u8_def)
  have q: "- a = b * ((- a) div b) + r" by (simp add: r_def)
  have e: "a = b * (- ((- a) div b) - 1) + (b - r)"
    using q by (simp add: algebra_simps)
  have d: "a div b = - ((- a) div b) - 1 \<and> a mod b = b - r"
    using e r \<open>r \<noteq> 0\<close> assms(1) by (intro int_div_mod_unique) auto
  then show "a sdiv b - 1 = a div b" using assms(1,3) by (simp add: neg_sdiv)
  have "u8 (u8 (- r) + b) = b - r"
    using r \<open>r \<noteq> 0\<close> assms(1,2) by (simp add: u8_def mod_simps)
  then show "u8 (u8 (a smod b) + b) = a mod b"
    using d assms(1,3) by (simp add: neg_smod r_def)
qed

end
