(* ===== verification/Cal_Time.thy ===== *)
theory Cal_Time
  imports EDS_Prelude "HOL-Library.Product_Lexorder"
begin

text \<open>
  Broken-down calendar times of \<^verbatim>\<open>calendar/libecal\<close>: the month tables of
  \<^verbatim>\<open>e-cal-time-util.c\<close> and the type \<^verbatim>\<open>CalObjTime\<close> of \<^verbatim>\<open>e-cal-recur.c\<close> with its carrying
  additions and comparisons. The reference for dates is \<open>rata_die\<close>, the number of the day in
  the proleptic Gregorian calendar; the reference for times is \<open>cot_seconds\<close>, the number of the
  second. The additions are shown to be addition on these numbers, the comparisons to be
  comparison of them.
\<close>

section \<open>Month tables (e-cal-time-util.c)\<close>

definition days_in_month :: "int list" where
  "days_in_month = [31, 28, 31, 30, 31, 30, 31, 31, 30, 31, 30, 31]"

definition time_is_leap_year :: "int \<Rightarrow> bool" where
  "time_is_leap_year year =
     (if year \<le> 1752 then year smod 4 = 0
      else (year smod 4 = 0 \<and> year smod 100 \<noteq> 0) \<or> year smod 400 = 0)"

text \<open>The two \<^verbatim>\<open>g_return_val_if_fail\<close> guards return 0.\<close>

definition time_days_in_month :: "int \<Rightarrow> int \<Rightarrow> int" where
  "time_days_in_month year month =
     (if \<not> (year \<ge> 1900) then 0
      else if \<not> (month \<ge> 0 \<and> month < 12) then 0
      else (let days = days_in_month ! nat month
            in if month = 1 \<and> time_is_leap_year year then days + 1 else days))"

fun time_day_of_year_loop :: "nat \<Rightarrow> int \<Rightarrow> int \<Rightarrow> int" where
  "time_day_of_year_loop 0 day year = day"
| "time_day_of_year_loop (Suc i) day year =
     (let day = time_day_of_year_loop i day year + days_in_month ! i
      in if i = 1 \<and> time_is_leap_year year then day + 1 else day)"

definition time_day_of_year :: "int \<Rightarrow> int \<Rightarrow> int \<Rightarrow> int" where
  "time_day_of_year day month year = time_day_of_year_loop (nat month) day year"

definition time_leap_years_up_to :: "int \<Rightarrow> int" where
  "time_leap_years_up_to year =
     year sdiv 4
     - (if year > 1700 then year sdiv 100 - 17 else 0)
     + (if year > 1600 then (year - 1600) sdiv 400 else 0)"

text \<open>\<^verbatim>\<open>REFORMATION_DAY\<close> is 639787, \<^verbatim>\<open>MISSING_DAYS\<close> 11, \<^verbatim>\<open>SATURDAY\<close> 6 and \<^verbatim>\<open>THURSDAY\<close> 4.\<close>

definition time_day_of_week :: "int \<Rightarrow> int \<Rightarrow> int \<Rightarrow> int" where
  "time_day_of_week day month year =
     (let n = (year - 1) * 365 + time_leap_years_up_to (year - 1) + time_day_of_year day month year
      in if n < 639787 then (n - 1 + 6) smod 7
         else if n \<ge> 639787 + 11 then (n - 1 + 6 - 11) smod 7
         else 4)"

section \<open>CalObjTime (e-cal-recur.c)\<close>

record cal_obj_time =
  cot_year :: int   \<comment> \<open>guint16\<close>
  cot_month :: int  \<comment> \<open>guint8, 0 - 11\<close>
  cot_day :: int    \<comment> \<open>guint8, 1 - 31\<close>
  cot_hour :: int   \<comment> \<open>guint8\<close>
  cot_minute :: int \<comment> \<open>guint8\<close>
  cot_second :: int \<comment> \<open>guint8\<close>
  cot_flags :: bool

datatype cal_obj_time_comparison =
    CALOBJ_YEAR | CALOBJ_MONTH | CALOBJ_DAY | CALOBJ_HOUR | CALOBJ_MINUTE | CALOBJ_SECOND

definition cal_obj_time_add_months :: "cal_obj_time \<Rightarrow> int \<Rightarrow> cal_obj_time" where
  "cal_obj_time_add_months cotime months =
     (let month = u32 (cot_month cotime + months);
          cotime = cotime\<lparr>cot_month := u8 (month mod 12)\<rparr>
      in if month > 0 then cotime\<lparr>cot_year := u16 (cot_year cotime + month div 12)\<rparr>
         else (let years = month div 12;
                   (cotime, years) =
                     (if cot_month cotime \<noteq> 0
                      then (cotime\<lparr>cot_month := u8 (cot_month cotime + 12)\<rparr>, u32 (years - 1))
                      else (cotime, years))
               in cotime\<lparr>cot_year := u16 (cot_year cotime + years)\<rparr>))"

text \<open>
  The two loops of \<^verbatim>\<open>cal_obj_time_add_days\<close>, on year, month and the \<^verbatim>\<open>gint\<close> day. A month outside
  0 to 11 or a year before 1900 has no days: the loops step over it. Both loops end for every
  input, because the year wraps at 65536 and so reaches a month that has days.
\<close>

definition fwd_rank :: "int \<Rightarrow> int \<Rightarrow> nat" where
  "fwd_rank y m =
     (if 0 \<le> m \<and> m < 12 then (if y \<ge> 1900 then 0 else nat (12 * (1900 - y) - m))
      else nat (12 * (1900 + \<bar>y\<bar>) + 13))"

lemma time_days_in_month_cases:
  "time_days_in_month y m =
     (if y \<ge> 1900 \<and> 0 \<le> m \<and> m < 12
      then (if m = 1 then (if time_is_leap_year y then 29 else 28)
            else if m \<in> {3, 5, 8, 10} then 30 else 31)
      else 0)"
proof -
  have "m = 0 \<or> m = 1 \<or> m = 2 \<or> m = 3 \<or> m = 4 \<or> m = 5 \<or> m = 6 \<or> m = 7 \<or> m = 8 \<or> m = 9 \<or> m = 10 \<or> m = 11"
    if "0 \<le> m" "m < 12" using that by presburger
  then show ?thesis
    by (cases "0 \<le> m \<and> m < 12")
      (auto simp: time_days_in_month_def days_in_month_def Let_def)
qed

lemma time_days_in_month_pos:
  "y \<ge> 1900 \<Longrightarrow> 0 \<le> m \<Longrightarrow> m < 12 \<Longrightarrow> 28 \<le> time_days_in_month y m"
  by (simp add: time_days_in_month_cases)

lemma time_days_in_month_le: "time_days_in_month y m \<le> 31"
  by (simp add: time_days_in_month_cases)

lemma time_days_in_month_ge0: "0 \<le> time_days_in_month y m"
  by (simp add: time_days_in_month_cases)

lemma time_days_in_month_eq0:
  "\<not> (y \<ge> 1900 \<and> 0 \<le> m \<and> m < 12) \<Longrightarrow> time_days_in_month y m = 0"
  by (auto simp: time_days_in_month_cases)

lemma fwd_rank_year:
  assumes "y < 1900" "0 \<le> m" "m < 12" "12 \<le> u8 (m + 1)"
  shows "fwd_rank (u16 (y + 1)) 0 < fwd_rank y m"
proof -
  have m: "m = 11" using assms by auto
  have "1900 \<le> u16 (y + 1) \<or> 1900 - u16 (y + 1) < 1900 - y"
  proof (cases "0 \<le> y")
    case False
    then show ?thesis using u16_bounds(1) [of "y + 1"] by linarith
  qed (use assms(1) in simp)
  then show ?thesis using assms(1) m by (auto simp: fwd_rank_def)
qed

lemma fwd_rank_step:
  assumes "\<not> (y \<ge> 1900 \<and> 0 \<le> m \<and> m < 12)"
  shows "12 \<le> u8 (m + 1) \<Longrightarrow> fwd_rank (u16 (y + 1)) 0 < fwd_rank y m"
    and "\<not> 12 \<le> u8 (m + 1) \<Longrightarrow> fwd_rank y (u8 (m + 1)) < fwd_rank y m"
proof -
  assume "12 \<le> u8 (m + 1)"
  then show "fwd_rank (u16 (y + 1)) 0 < fwd_rank y m"
    using assms fwd_rank_year [of y m] u16_bounds(1) [of "y + 1"]
    by (cases "0 \<le> m \<and> m < 12") (auto simp: fwd_rank_def simp del: u16_bounds)
next
  assume "\<not> 12 \<le> u8 (m + 1)"
  then show "fwd_rank y (u8 (m + 1)) < fwd_rank y m"
    using assms u8_bounds(1) [of "m + 1"]
    by (cases "0 \<le> m \<and> m < 12") (auto simp: fwd_rank_def simp del: u8_bounds(1))
qed

function add_days_forward :: "int \<Rightarrow> int \<Rightarrow> int \<Rightarrow> int \<times> int \<times> int" where
  "add_days_forward year month day =
     (let dim = time_days_in_month year month
      in if day \<le> dim then (year, month, day)
         else if u8 (month + 1) \<ge> 12 then add_days_forward (u16 (year + 1)) 0 (day - dim)
         else add_days_forward year (u8 (month + 1)) (day - dim))"
  by pat_completeness auto
termination
proof (relation "measures [\<lambda>(y, m, d). nat d, \<lambda>(y, m, d). fwd_rank y m]", goal_cases)
  case 1
  show ?case by simp
next
  case (2 y m d dim)
  have "1900 \<le> y \<and> 0 \<le> m \<and> m < 12 \<Longrightarrow> 28 \<le> dim" using 2 by (simp add: time_days_in_month_pos)
  then show ?case using 2 fwd_rank_step(1) [of y m]
    by (cases "y \<ge> 1900 \<and> 0 \<le> m \<and> m < 12") (auto simp: time_days_in_month_eq0)
next
  case (3 y m d dim)
  have "1900 \<le> y \<and> 0 \<le> m \<and> m < 12 \<Longrightarrow> 28 \<le> dim" using 3 by (simp add: time_days_in_month_pos)
  then show ?case using 3 fwd_rank_step(2) [of y m]
    by (cases "y \<ge> 1900 \<and> 0 \<le> m \<and> m < 12") (auto simp: time_days_in_month_eq0)
qed

declare add_days_forward.simps [simp del]

definition bwd_rank :: "int \<Rightarrow> int \<Rightarrow> nat" where
  "bwd_rank y m = nat ((if 0 \<le> y \<and> y \<le> 1900 then 12 * y else 0) + m)"

lemma bwd_rank_year:
  assumes "0 \<le> y" "y < 65536" "u16 (y - 1) < 1900"
  shows "bwd_rank (u16 (y - 1)) 11 < bwd_rank y 0"
proof -
  have "y \<noteq> 0" using assms(3) by (auto simp: u16_def)
  then have "u16 (y - 1) = y - 1" using assms by simp
  then show ?thesis using assms \<open>y \<noteq> 0\<close> by (auto simp: bwd_rank_def)
qed

lemma bwd_rank_month:
  assumes "0 < m"
  shows "bwd_rank y (u8 (m - 1)) < bwd_rank y m"
proof -
  have "u8 (m - 1) \<le> m - 1" using assms zmod_le_nonneg_dividend [of "m - 1" 256] by (simp add: u8_def)
  then show ?thesis using assms u8_bounds(1) [of "m - 1"]
    by (auto simp: bwd_rank_def simp del: u8_bounds)
qed

function add_days_backward :: "int \<Rightarrow> int \<Rightarrow> int \<Rightarrow> int \<times> int \<times> int" where
  "add_days_backward year month day =
     (if day \<le> 0 then
        (if month = 0
         then add_days_backward (u16 (year - 1)) 11 (day + time_days_in_month (u16 (year - 1)) 11)
         else add_days_backward year (u8 (month - 1)) (day + time_days_in_month year (u8 (month - 1))))
      else (year, month, day))"
  by pat_completeness auto
termination
proof (relation "measures [\<lambda>(y, m, d). nat (1 - d), \<lambda>(y, m, d). if 0 \<le> y \<and> y < 65536 then 0 else 1,
    \<lambda>(y, m, d). if 0 \<le> m then 0 else 1, \<lambda>(y, m, d). bwd_rank y m]", goal_cases)
  case 1
  show ?case by simp
next
  case (2 y m d)
  have "1900 \<le> u16 (y - 1) \<Longrightarrow> 28 \<le> time_days_in_month (u16 (y - 1)) 11"
    by (simp add: time_days_in_month_pos)
  then show ?case using 2 bwd_rank_year [of y]
    by (cases "1900 \<le> u16 (y - 1)") (auto simp: time_days_in_month_eq0)
next
  case (3 y m d)
  let ?m = "u8 (m - 1)"
  have "1900 \<le> y \<and> ?m < 12 \<Longrightarrow> 28 \<le> time_days_in_month y ?m"
    by (simp add: time_days_in_month_pos)
  then show ?case using 3 bwd_rank_month [of m y]
    by (cases "1900 \<le> y \<and> ?m < 12"; cases "0 < m") (auto simp: time_days_in_month_eq0)
qed

declare add_days_backward.simps [simp del]

definition cal_obj_time_add_days :: "cal_obj_time \<Rightarrow> int \<Rightarrow> cal_obj_time" where
  "cal_obj_time_add_days cotime days =
     (let day = cot_day cotime + days;
          (y, m, d) = (if days \<ge> 0 then add_days_forward (cot_year cotime) (cot_month cotime) day
                       else add_days_backward (cot_year cotime) (cot_month cotime) day)
      in cotime\<lparr>cot_year := y, cot_month := m, cot_day := u8 d\<rparr>)"

definition cal_obj_time_add_hours :: "cal_obj_time \<Rightarrow> int \<Rightarrow> cal_obj_time" where
  "cal_obj_time_add_hours cotime hours =
     (let hour = cot_hour cotime + hours;
          cotime = cotime\<lparr>cot_hour := u8 (hour smod 24)\<rparr>
      in if hour \<ge> 0
         then (if hour \<ge> 24 then cal_obj_time_add_days cotime (hour sdiv 24) else cotime)
         else (let days = hour sdiv 24
               in if cot_hour cotime \<noteq> 0
                  then cal_obj_time_add_days (cotime\<lparr>cot_hour := u8 (cot_hour cotime + 24)\<rparr>) (days - 1)
                  else cal_obj_time_add_days cotime days))"

definition cal_obj_time_add_minutes :: "cal_obj_time \<Rightarrow> int \<Rightarrow> cal_obj_time" where
  "cal_obj_time_add_minutes cotime minutes =
     (let minute = cot_minute cotime + minutes;
          cotime = cotime\<lparr>cot_minute := u8 (minute smod 60)\<rparr>
      in if minute \<ge> 0
         then (if minute \<ge> 60 then cal_obj_time_add_hours cotime (minute sdiv 60) else cotime)
         else (let hours = minute sdiv 60
               in if cot_minute cotime \<noteq> 0
                  then cal_obj_time_add_hours (cotime\<lparr>cot_minute := u8 (cot_minute cotime + 60)\<rparr>) (hours - 1)
                  else cal_obj_time_add_hours cotime hours))"

definition cal_obj_time_add_seconds :: "cal_obj_time \<Rightarrow> int \<Rightarrow> cal_obj_time" where
  "cal_obj_time_add_seconds cotime seconds =
     (let second = cot_second cotime + seconds;
          cotime = cotime\<lparr>cot_second := u8 (second smod 60)\<rparr>
      in if second \<ge> 0
         then (if second \<ge> 60 then cal_obj_time_add_minutes cotime (second sdiv 60) else cotime)
         else (let minutes = second sdiv 60
               in if cot_second cotime \<noteq> 0
                  then cal_obj_time_add_minutes (cotime\<lparr>cot_second := u8 (cot_second cotime + 60)\<rparr>) (minutes - 1)
                  else cal_obj_time_add_minutes cotime minutes))"

definition cal_obj_time_compare ::
    "cal_obj_time \<Rightarrow> cal_obj_time \<Rightarrow> cal_obj_time_comparison \<Rightarrow> int" where
  "cal_obj_time_compare cotime1 cotime2 type =
     (if cot_year cotime1 < cot_year cotime2 then -1
      else if cot_year cotime1 > cot_year cotime2 then 1
      else if type = CALOBJ_YEAR then 0
      else if cot_month cotime1 < cot_month cotime2 then -1
      else if cot_month cotime1 > cot_month cotime2 then 1
      else if type = CALOBJ_MONTH then 0
      else if cot_day cotime1 < cot_day cotime2 then -1
      else if cot_day cotime1 > cot_day cotime2 then 1
      else if type = CALOBJ_DAY then 0
      else if cot_hour cotime1 < cot_hour cotime2 then -1
      else if cot_hour cotime1 > cot_hour cotime2 then 1
      else if type = CALOBJ_HOUR then 0
      else if cot_minute cotime1 < cot_minute cotime2 then -1
      else if cot_minute cotime1 > cot_minute cotime2 then 1
      else if type = CALOBJ_MINUTE then 0
      else if cot_second cotime1 < cot_second cotime2 then -1
      else if cot_second cotime1 > cot_second cotime2 then 1
      else 0)"

definition cal_obj_time_compare_func :: "cal_obj_time \<Rightarrow> cal_obj_time \<Rightarrow> int" where
  "cal_obj_time_compare_func cotime1 cotime2 =
     (if cot_year cotime1 < cot_year cotime2 then -1
      else if cot_year cotime1 > cot_year cotime2 then 1
      else if cot_month cotime1 < cot_month cotime2 then -1
      else if cot_month cotime1 > cot_month cotime2 then 1
      else if cot_day cotime1 < cot_day cotime2 then -1
      else if cot_day cotime1 > cot_day cotime2 then 1
      else if cot_hour cotime1 < cot_hour cotime2 then -1
      else if cot_hour cotime1 > cot_hour cotime2 then 1
      else if cot_minute cotime1 < cot_minute cotime2 then -1
      else if cot_minute cotime1 > cot_minute cotime2 then 1
      else if cot_second cotime1 < cot_second cotime2 then -1
      else if cot_second cotime1 > cot_second cotime2 then 1
      else 0)"

definition cal_obj_date_only_compare_func :: "cal_obj_time \<Rightarrow> cal_obj_time \<Rightarrow> int" where
  "cal_obj_date_only_compare_func cotime1 cotime2 =
     (if cot_year cotime1 < cot_year cotime2 then -1
      else if cot_year cotime1 > cot_year cotime2 then 1
      else if cot_month cotime1 < cot_month cotime2 then -1
      else if cot_month cotime1 > cot_month cotime2 then 1
      else if cot_day cotime1 < cot_day cotime2 then -1
      else if cot_day cotime1 > cot_day cotime2 then 1
      else 0)"

section \<open>The reference calendar\<close>

text \<open>
  \<open>year_start y\<close> is the number of days before 1 January of year \<open>y\<close> (counted from 1 January of
  year 1), \<open>month_start y m\<close> the number of days of year \<open>y\<close> before month \<open>m\<close>.
\<close>

definition year_start :: "int \<Rightarrow> int" where
  "year_start y = 365 * (y - 1) + (y - 1) div 4 - (y - 1) div 100 + (y - 1) div 400"

definition month_start :: "int \<Rightarrow> int \<Rightarrow> int" where
  "month_start y m = [0, 31, 59, 90, 120, 151, 181, 212, 243, 273, 304, 334] ! nat m
     + (if m > 1 \<and> time_is_leap_year y then 1 else 0)"

definition rata_die :: "int \<Rightarrow> int \<Rightarrow> int \<Rightarrow> int" where
  "rata_die y m d = year_start y + month_start y m + d"

definition valid_date :: "int \<Rightarrow> int \<Rightarrow> int \<Rightarrow> bool" where
  "valid_date y m d \<longleftrightarrow> 1900 \<le> y \<and> y < 65536 \<and> 0 \<le> m \<and> m < 12 \<and> 1 \<le> d \<and> d \<le> time_days_in_month y m"

definition valid_time :: "cal_obj_time \<Rightarrow> bool" where
  "valid_time t \<longleftrightarrow> 0 \<le> cot_hour t \<and> cot_hour t < 24 \<and> 0 \<le> cot_minute t \<and> cot_minute t < 60
     \<and> 0 \<le> cot_second t \<and> cot_second t < 60"

definition valid_cot :: "cal_obj_time \<Rightarrow> bool" where
  "valid_cot t \<longleftrightarrow> valid_date (cot_year t) (cot_month t) (cot_day t) \<and> valid_time t"

definition cot_date :: "cal_obj_time \<Rightarrow> int" where
  "cot_date t = rata_die (cot_year t) (cot_month t) (cot_day t)"

definition cot_seconds :: "cal_obj_time \<Rightarrow> int" where
  "cot_seconds t = cot_date t * 86400 + cot_hour t * 3600 + cot_minute t * 60 + cot_second t"

abbreviation date_min :: int where "date_min \<equiv> rata_die 1900 0 1"
abbreviation date_max :: int where "date_max \<equiv> rata_die 65535 11 31"

lemma date_min_max [simp]: "rata_die 1900 0 1 = 693596" "rata_die 65535 11 31 = 23936166"
  by (simp_all add: rata_die_def year_start_def month_start_def time_is_leap_year_def)

lemma leap_year_rule:
  "1900 \<le> y \<Longrightarrow> time_is_leap_year y \<longleftrightarrow> (4 dvd y \<and> \<not> 100 dvd y) \<or> 400 dvd y"
  by (auto simp: time_is_leap_year_def mod_eq_0_iff_dvd)

lemma div_pred:
  assumes "0 < (k::int)"
  shows "y div k = (y - 1) div k + (if k dvd y then 1 else 0)"
proof -
  define q where "q = (y - 1) div k"
  define r where "r = (y - 1) mod k"
  have y: "y = k * q + (r + 1)" using div_mult_mod_eq [of "y - 1" k] by (simp add: q_def r_def)
  have r: "0 \<le> r" "r < k" using assms by (simp_all add: r_def)
  show ?thesis
  proof (cases "r + 1 = k")
    case True
    then have y2: "y = k * (q + 1)" using y by (simp add: algebra_simps)
    then have "y div k = q + 1" "k dvd y" using assms by simp_all
    then show ?thesis by (simp add: q_def)
  next
    case False
    then have "y div k = q \<and> y mod k = r + 1" using y r assms by (intro int_div_mod_unique) auto
    moreover have "\<not> k dvd y" using calculation r by (auto simp: dvd_eq_mod_eq_0)
    ultimately show ?thesis by (simp add: q_def)
  qed
qed

lemma year_start_Suc:
  assumes "1900 \<le> y"
  shows "year_start (y + 1) = year_start y + (if time_is_leap_year y then 366 else 365)"
proof -
  have "400 dvd y \<Longrightarrow> 100 dvd y" "100 dvd y \<Longrightarrow> 4 dvd y" by (auto elim: dvd_trans [rotated])
  then show ?thesis
    using div_pred [of 4 y] div_pred [of 100 y] div_pred [of 400 y]
    by (auto simp: year_start_def leap_year_rule [OF assms] algebra_simps)
qed

lemma month_cases:
  "0 \<le> m \<Longrightarrow> m < 12 \<Longrightarrow> (m::int) \<in> {0, 1, 2, 3, 4, 5, 6, 7, 8, 9, 10, 11}"
  by (simp only: insert_iff empty_iff) presburger

lemma month_start_Suc:
  assumes "1900 \<le> y" "0 \<le> m" "m < 11"
  shows "month_start y (m + 1) = month_start y m + time_days_in_month y m"
  using month_cases [of m] assms
  by (auto simp: month_start_def time_days_in_month_cases)

lemma month_start_Dec:
  assumes "1900 \<le> y"
  shows "month_start y 11 + time_days_in_month y 11 = (if time_is_leap_year y then 366 else 365)"
  using assms by (auto simp: month_start_def time_days_in_month_cases)

lemma month_start_Jan [simp]: "month_start y 0 = 0"
  by (simp add: month_start_def)

lemma rata_die_next_month:
  "1900 \<le> y \<Longrightarrow> 0 \<le> m \<Longrightarrow> m < 11 \<Longrightarrow>
     rata_die y (m + 1) (d - time_days_in_month y m) = rata_die y m d"
  by (simp add: rata_die_def month_start_Suc)

lemma rata_die_next_year:
  "1900 \<le> y \<Longrightarrow> rata_die (y + 1) 0 (d - time_days_in_month y 11) = rata_die y 11 d"
  using month_start_Dec [of y] by (simp add: rata_die_def year_start_Suc)

lemma year_start_mono:
  assumes "1900 \<le> y" "y \<le> z"
  shows "year_start y + 365 * (z - y) \<le> year_start z"
  using assms(2)
proof (induction z rule: int_ge_induct)
  case base
  then show ?case by simp
next
  case (step z)
  then show ?case using year_start_Suc [of z] assms(1) by (simp split: if_splits)
qed

lemma month_start_mono:
  assumes "1900 \<le> y" "0 \<le> m" "m < n" "n < 12"
  shows "month_start y m + time_days_in_month y m \<le> month_start y n"
proof -
  from assms(3) have "m + 1 \<le> n" by simp
  then show ?thesis using assms(4)
  proof (induction n rule: int_ge_induct)
    case base
    then show ?case using month_start_Suc [of y m] assms(1,2) by simp
  next
    case (step n)
    then show ?case
      using month_start_Suc [of y n] time_days_in_month_ge0 [of y n] assms(1,2) by simp
  qed
qed

lemma month_start_bound:
  assumes "1900 \<le> y" "0 \<le> m" "m < 12"
  shows "month_start y m + time_days_in_month y m \<le> (if time_is_leap_year y then 366 else 365)"
  using month_start_Dec [OF assms(1)] month_start_mono [of y m 11] assms
  by (cases "m = 11") (auto simp: time_days_in_month_cases split: if_splits)

lemma month_start_ge0: "0 \<le> m \<Longrightarrow> m < 12 \<Longrightarrow> 0 \<le> month_start y m"
  using month_cases [of m] by (auto simp: month_start_def)

text \<open>The day number is strictly monotone in the lexicographic order of year, month and day.\<close>

lemma rata_die_less_year:
  assumes "valid_date y m d" "valid_date y' m' d'" "y < y'"
  shows "rata_die y m d < rata_die y' m' d'"
proof -
  have "month_start y m + d \<le> (if time_is_leap_year y then 366 else 365)"
    using month_start_bound [of y m] assms(1) by (auto simp: valid_date_def)
  moreover have "year_start (y + 1) \<le> year_start y'"
    using year_start_mono [of "y + 1" y'] assms by (auto simp: valid_date_def)
  moreover have "0 \<le> month_start y' m'" using assms(2) by (simp add: valid_date_def month_start_ge0)
  ultimately show ?thesis
    using year_start_Suc [of y] assms(1,2) by (auto simp: rata_die_def valid_date_def)
qed

lemma rata_die_less_month:
  "valid_date y m d \<Longrightarrow> valid_date y m' d' \<Longrightarrow> m < m' \<Longrightarrow> rata_die y m d < rata_die y m' d'"
  using month_start_mono [of y m m'] by (auto simp: rata_die_def valid_date_def)

lemma rata_die_less_iff:
  assumes "valid_date y m d" "valid_date y' m' d'"
  shows "rata_die y m d < rata_die y' m' d' \<longleftrightarrow> y < y' \<or> (y = y' \<and> (m < m' \<or> (m = m' \<and> d < d')))"
    (is "?l \<longleftrightarrow> ?r")
proof
  assume ?r
  then show ?l using rata_die_less_year [OF assms] rata_die_less_month [of y m d m' d'] assms
    by (auto simp: rata_die_def)
next
  assume l: ?l
  show ?r
  proof (rule ccontr)
    assume "\<not> ?r"
    then have "y' < y \<or> (y' = y \<and> (m' < m \<or> (m' = m \<and> d' \<le> d)))" by auto
    then have "rata_die y' m' d' \<le> rata_die y m d"
      using rata_die_less_year [OF assms(2,1)] rata_die_less_month [of y' m' d' m d] assms
      by (auto simp: rata_die_def intro: less_imp_le)
    with l show False by simp
  qed
qed

lemma rata_die_inject:
  assumes "valid_date y m d" "valid_date y' m' d'" "rata_die y m d = rata_die y' m' d'"
  shows "y = y' \<and> m = m' \<and> d = d'"
  using rata_die_less_iff [OF assms(1,2)] rata_die_less_iff [OF assms(2,1)] assms(3) by auto

lemma valid_date_range:
  assumes "valid_date y m d"
  shows "date_min \<le> rata_die y m d" "rata_die y m d \<le> date_max"
proof -
  have 1: "valid_date 1900 0 1" and 2: "valid_date 65535 11 31"
    by (simp_all add: valid_date_def time_days_in_month_cases)
  show "date_min \<le> rata_die y m d"
    using rata_die_less_iff [OF assms 1] assms by (auto simp: valid_date_def not_less [symmetric])
  have "d \<le> 31" using assms time_days_in_month_le [of y m] by (simp add: valid_date_def)
  then show "rata_die y m d \<le> date_max"
    using rata_die_less_iff [OF 2 assms] assms by (auto simp: valid_date_def not_less [symmetric])
qed

section \<open>Additions are additions on the day and second numbers\<close>

lemma add_days_forward_correct:
  assumes "1900 \<le> y" "y < 65536" "0 \<le> m" "m < 12" "1 \<le> d" "rata_die y m d \<le> date_max"
  shows "case add_days_forward y m d of (y', m', d') \<Rightarrow>
           valid_date y' m' d' \<and> rata_die y' m' d' = rata_die y m d"
  using assms
proof (induction y m d rule: add_days_forward.induct)
  case (1 y m d)
  show ?case
  proof (cases "d \<le> time_days_in_month y m")
    case True
    with "1.prems" show ?thesis
      by (simp add: add_days_forward.simps [of y m d] valid_date_def)
  next
    case False
    show ?thesis
    proof (cases "m = 11")
      case True
      have "y < 65535"
      proof (rule ccontr)
        assume "\<not> y < 65535"
        with "1.prems" have "y = 65535" by simp
        with False True "1.prems" have "31 < d" by (simp add: time_days_in_month_cases)
        with \<open>y = 65535\<close> True "1.prems" show False by (simp add: rata_die_def)
      qed
      with True False "1.prems" "1.IH"(1) [OF refl False] show ?thesis
        by (simp add: add_days_forward.simps [of y 11 d] rata_die_next_year split: prod.splits)
    next
      case False2: False
      with False "1.prems" "1.IH"(2) [OF refl False] show ?thesis
        by (simp add: add_days_forward.simps [of y m d] rata_die_next_month split: prod.splits)
    qed
  qed
qed

lemma rata_die_prev_month:
  assumes "1900 \<le> y" "0 < m" "m < 12"
  shows "rata_die y (m - 1) (d + time_days_in_month y (m - 1)) = rata_die y m d"
  using month_start_Suc [of y "m - 1"] assms by (simp add: rata_die_def)

lemma rata_die_prev_year:
  assumes "1901 \<le> y"
  shows "rata_die (y - 1) 11 (d + time_days_in_month (y - 1) 11) = rata_die y 0 d"
  using year_start_Suc [of "y - 1"] month_start_Dec [of "y - 1"] assms
  by (simp add: rata_die_def)

lemma add_days_backward_correct:
  assumes "1900 \<le> y" "y < 65536" "0 \<le> m" "m < 12" "d \<le> time_days_in_month y m"
    "date_min \<le> rata_die y m d"
  shows "case add_days_backward y m d of (y', m', d') \<Rightarrow>
           valid_date y' m' d' \<and> rata_die y' m' d' = rata_die y m d"
  using assms
proof (induction y m d rule: add_days_backward.induct)
  case (1 y m d)
  show ?case
  proof (cases "d \<le> 0")
    case False
    with "1.prems" show ?thesis
      by (simp add: add_days_backward.simps [of y m d] valid_date_def)
  next
    case True
    show ?thesis
    proof (cases "m = 0")
      case m0: True
      have "1901 \<le> y"
      proof (rule ccontr)
        assume "\<not> 1901 \<le> y"
        with "1.prems" have "y = 1900" by simp
        with True m0 "1.prems" show False by (simp add: rata_die_def)
      qed
      with True m0 "1.prems" "1.IH"(1) [OF True m0] show ?thesis
        by (simp add: add_days_backward.simps [of y 0 d] rata_die_prev_year split: prod.splits)
    next
      case m: False
      with True "1.prems" "1.IH"(2) [OF True m] show ?thesis
        by (simp add: add_days_backward.simps [of y m d] rata_die_prev_month split: prod.splits)
    qed
  qed
qed

lemma cal_obj_time_add_days_frame [simp]:
  "cot_hour (cal_obj_time_add_days t n) = cot_hour t"
  "cot_minute (cal_obj_time_add_days t n) = cot_minute t"
  "cot_second (cal_obj_time_add_days t n) = cot_second t"
  "cot_flags (cal_obj_time_add_days t n) = cot_flags t"
  by (simp_all add: cal_obj_time_add_days_def Let_def split: prod.splits)

text \<open>
  The general fact, for a start whose month and day are only as valid as the code keeps them: a
  forward move starts from any day of a valid month (30 February included), a backward move from
  a day that does not exceed the month.
\<close>

lemma add_days_from_month:
  assumes "1900 \<le> cot_year t" "cot_year t < 65536" "0 \<le> cot_month t" "cot_month t < 12"
    and "1 \<le> cot_day t" and "n < 0 \<Longrightarrow> cot_day t \<le> time_days_in_month (cot_year t) (cot_month t)"
    and "date_min \<le> cot_date t + n" "cot_date t + n \<le> date_max"
  shows "valid_date (cot_year (cal_obj_time_add_days t n)) (cot_month (cal_obj_time_add_days t n))
           (cot_day (cal_obj_time_add_days t n)) \<and> cot_date (cal_obj_time_add_days t n) = cot_date t + n"
proof -
  let ?y = "cot_year t" and ?m = "cot_month t" and ?d = "cot_day t + n"
  define r where "r = (if n \<ge> 0 then add_days_forward ?y ?m ?d else add_days_backward ?y ?m ?d)"
  obtain y m d where ymd: "r = (y, m, d)" by (cases r)
  have n: "rata_die ?y ?m ?d = cot_date t + n" by (simp add: cot_date_def rata_die_def)
  have "valid_date y m d \<and> rata_die y m d = cot_date t + n"
    using ymd add_days_forward_correct [of ?y ?m ?d] add_days_backward_correct [of ?y ?m ?d] assms n
    by (cases "n \<ge> 0") (auto simp: r_def)
  moreover have "u8 d = d"
    using calculation time_days_in_month_le [of y m] by (auto simp: valid_date_def)
  ultimately show ?thesis
    using ymd by (simp add: cal_obj_time_add_days_def r_def cot_date_def)
qed

lemma add_days_date:
  assumes "valid_date (cot_year t) (cot_month t) (cot_day t)"
    and "date_min \<le> cot_date t + n" "cot_date t + n \<le> date_max"
  shows "valid_date (cot_year (cal_obj_time_add_days t n)) (cot_month (cal_obj_time_add_days t n))
           (cot_day (cal_obj_time_add_days t n))"
    and "cot_date (cal_obj_time_add_days t n) = cot_date t + n"
  using add_days_from_month [of t n] assms by (auto simp: valid_date_def)

lemma add_days_valid:
  assumes "valid_cot t" "date_min \<le> cot_date t + n" "cot_date t + n \<le> date_max"
  shows "valid_cot (cal_obj_time_add_days t n)"
    and "cot_date (cal_obj_time_add_days t n) = cot_date t + n"
    and "cot_seconds (cal_obj_time_add_days t n) = cot_seconds t + n * 86400"
  using add_days_date [of t n] assms
  by (auto simp: valid_cot_def valid_time_def cot_seconds_def)

text \<open>
  One carry step of the hour, minute and second additions, whichever branch is taken: the unit
  ends in its range and the rest of the addition is passed on as the floor quotient.
\<close>

lemma carry_split:
  fixes total b :: int and store :: "int \<Rightarrow> 'a" and rest :: "'a \<Rightarrow> int \<Rightarrow> 'a"
  assumes "0 < b" "b \<le> 128"
  shows "(if total \<ge> 0
          then (if total \<ge> b then rest (store (u8 (total smod b))) (total sdiv b) else store (u8 (total smod b)))
          else (if u8 (total smod b) \<noteq> 0
                then rest (store (u8 (u8 (total smod b) + b))) (total sdiv b - 1)
                else rest (store (u8 (total smod b))) (total sdiv b)))
       = (if 0 \<le> total \<and> total < b then store total else rest (store (total mod b)) (total div b))"
proof (cases "total \<ge> 0")
  case True
  have "0 \<le> total mod b" "total mod b < 256"
    using assms pos_mod_bound [of b total] pos_mod_sign [of b total] by linarith+
  with True assms show ?thesis by auto
next
  case False
  then have neg: "total < 0" by simp
  show ?thesis
  proof (cases "u8 (total smod b) = 0")
    case True
    have "b \<le> 256" using assms by simp
    from neg_carry_zero [OF assms(1) this neg True] True neg show ?thesis by simp
  next
    case False
    from neg_carry_nonzero [OF assms neg False] False neg show ?thesis by simp
  qed
qed

lemma cal_obj_time_add_hours_carry:
  "cal_obj_time_add_hours t n =
     (let total = cot_hour t + n
      in if 0 \<le> total \<and> total < 24 then t\<lparr>cot_hour := total\<rparr>
         else cal_obj_time_add_days (t\<lparr>cot_hour := total mod 24\<rparr>) (total div 24))"
  using carry_split [where b = 24 and total = "cot_hour t + n" and rest = cal_obj_time_add_days
      and store = "\<lambda>h. t\<lparr>cot_hour := h\<rparr>"]
  by (auto simp: cal_obj_time_add_hours_def Let_def split: if_splits)

lemma cal_obj_time_add_minutes_carry:
  "cal_obj_time_add_minutes t n =
     (let total = cot_minute t + n
      in if 0 \<le> total \<and> total < 60 then t\<lparr>cot_minute := total\<rparr>
         else cal_obj_time_add_hours (t\<lparr>cot_minute := total mod 60\<rparr>) (total div 60))"
  using carry_split [where b = 60 and total = "cot_minute t + n" and rest = cal_obj_time_add_hours
      and store = "\<lambda>h. t\<lparr>cot_minute := h\<rparr>"]
  by (auto simp: cal_obj_time_add_minutes_def Let_def split: if_splits)

lemma cal_obj_time_add_seconds_carry:
  "cal_obj_time_add_seconds t n =
     (let total = cot_second t + n
      in if 0 \<le> total \<and> total < 60 then t\<lparr>cot_second := total\<rparr>
         else cal_obj_time_add_minutes (t\<lparr>cot_second := total mod 60\<rparr>) (total div 60))"
  using carry_split [where b = 60 and total = "cot_second t + n" and rest = cal_obj_time_add_minutes
      and store = "\<lambda>h. t\<lparr>cot_second := h\<rparr>"]
  by (auto simp: cal_obj_time_add_seconds_def Let_def split: if_splits)

abbreviation seconds_min :: int where "seconds_min \<equiv> date_min * 86400"
abbreviation seconds_max :: int where "seconds_max \<equiv> date_max * 86400 + 86399"

lemma seconds_of_date:
  "valid_time t \<Longrightarrow> cot_date t = cot_seconds t div 86400"
  unfolding cot_seconds_def valid_time_def by linarith

lemma add_hours_valid:
  assumes "valid_cot t" "seconds_min \<le> cot_seconds t + n * 3600" "cot_seconds t + n * 3600 \<le> seconds_max"
  shows "valid_cot (cal_obj_time_add_hours t n)
    \<and> cot_seconds (cal_obj_time_add_hours t n) = cot_seconds t + n * 3600
    \<and> cot_flags (cal_obj_time_add_hours t n) = cot_flags t"
proof -
  let ?h = "cot_hour t + n"
  define t' where "t' = t\<lparr>cot_hour := ?h mod 24\<rparr>"
  have h: "?h = ?h div 24 * 24 + ?h mod 24" by simp
  have v': "valid_cot t'" using assms(1) by (simp add: t'_def valid_cot_def valid_time_def)
  have s': "cot_seconds t' + ?h div 24 * 86400 = cot_seconds t + n * 3600"
    unfolding t'_def cot_seconds_def cot_date_def by simp (use h in linarith)
  have "valid_time t'" using v' by (simp add: valid_cot_def)
  then have "cot_date t' + ?h div 24 = (cot_seconds t + n * 3600) div 86400"
    by (simp add: s' [symmetric] seconds_of_date)
  then have r: "date_min \<le> cot_date t' + ?h div 24" "cot_date t' + ?h div 24 \<le> date_max"
    using assms(2,3) by auto
  show ?thesis
    using add_days_valid [OF v' r] s' assms(1)
    by (auto simp: cal_obj_time_add_hours_carry Let_def t'_def valid_cot_def valid_time_def
        cot_seconds_def cot_date_def)
qed

lemma add_minutes_valid:
  assumes "valid_cot t" "seconds_min \<le> cot_seconds t + n * 60" "cot_seconds t + n * 60 \<le> seconds_max"
  shows "valid_cot (cal_obj_time_add_minutes t n)
    \<and> cot_seconds (cal_obj_time_add_minutes t n) = cot_seconds t + n * 60
    \<and> cot_flags (cal_obj_time_add_minutes t n) = cot_flags t"
proof -
  let ?h = "cot_minute t + n"
  define t' where "t' = t\<lparr>cot_minute := ?h mod 60\<rparr>"
  have h: "?h = ?h div 60 * 60 + ?h mod 60" by simp
  have v': "valid_cot t'" using assms(1) by (simp add: t'_def valid_cot_def valid_time_def)
  have s': "cot_seconds t' + ?h div 60 * 3600 = cot_seconds t + n * 60"
    unfolding t'_def cot_seconds_def cot_date_def by simp (use h in linarith)
  show ?thesis
    using add_hours_valid [OF v', of "?h div 60"] s' assms
    by (auto simp: cal_obj_time_add_minutes_carry Let_def t'_def valid_cot_def valid_time_def
        cot_seconds_def cot_date_def)
qed

lemma add_seconds_valid:
  assumes "valid_cot t" "seconds_min \<le> cot_seconds t + n" "cot_seconds t + n \<le> seconds_max"
  shows "valid_cot (cal_obj_time_add_seconds t n)
    \<and> cot_seconds (cal_obj_time_add_seconds t n) = cot_seconds t + n
    \<and> cot_flags (cal_obj_time_add_seconds t n) = cot_flags t"
proof -
  let ?h = "cot_second t + n"
  define t' where "t' = t\<lparr>cot_second := ?h mod 60\<rparr>"
  have h: "?h = ?h div 60 * 60 + ?h mod 60" by simp
  have v': "valid_cot t'" using assms(1) by (simp add: t'_def valid_cot_def valid_time_def)
  have s': "cot_seconds t' + ?h div 60 * 60 = cot_seconds t + n"
    unfolding t'_def cot_seconds_def cot_date_def using h by simp
  show ?thesis
    using add_minutes_valid [OF v', of "?h div 60"] s' assms
    by (auto simp: cal_obj_time_add_seconds_carry Let_def t'_def valid_cot_def valid_time_def
        cot_seconds_def cot_date_def)
qed

section \<open>Months\<close>

lemma add_months_result:
  assumes "0 \<le> cot_month t" "cot_month t < 12" "0 \<le> n" "n < 2147483648"
    "0 \<le> cot_year t" "cot_year t + (cot_month t + n) div 12 < 65536"
  shows "cal_obj_time_add_months t n =
    t\<lparr>cot_year := cot_year t + (cot_month t + n) div 12, cot_month := (cot_month t + n) mod 12\<rparr>"
proof -
  have "u32 (cot_month t + n) = cot_month t + n" using assms by simp
  moreover have "u8 ((cot_month t + n) mod 12) = (cot_month t + n) mod 12"
    using pos_mod_bound [of 12 "cot_month t + n"] by simp
  moreover have "0 \<le> (cot_month t + n) div 12" using assms by simp
  ultimately show ?thesis
    using assms by (cases "cot_month t + n = 0") (auto simp: cal_obj_time_add_months_def Let_def)
qed

section \<open>Comparisons\<close>

text \<open>\<open>cot_key\<close> orders times as \<^verbatim>\<open>qsort\<close> with \<^verbatim>\<open>cal_obj_time_compare_func\<close> does.\<close>

definition cot_key :: "cal_obj_time \<Rightarrow> int \<times> int \<times> int \<times> int \<times> int \<times> int" where
  "cot_key t = (cot_year t, cot_month t, cot_day t, cot_hour t, cot_minute t, cot_second t)"

definition cot_day_key :: "cal_obj_time \<Rightarrow> int \<times> int \<times> int" where
  "cot_day_key t = (cot_year t, cot_month t, cot_day t)"

lemma compare_func_key:
  "cal_obj_time_compare_func a b = (if cot_key a < cot_key b then -1 else if cot_key b < cot_key a then 1 else 0)"
  by (auto simp: cal_obj_time_compare_func_def cot_key_def)

lemma compare_func_signs [simp]:
  "cal_obj_time_compare_func a b < 0 \<longleftrightarrow> cot_key a < cot_key b"
  "cal_obj_time_compare_func a b > 0 \<longleftrightarrow> cot_key b < cot_key a"
  "cal_obj_time_compare_func a b = 0 \<longleftrightarrow> cot_key a = cot_key b"
  "cal_obj_time_compare_func a b \<ge> 0 \<longleftrightarrow> cot_key b \<le> cot_key a"
  "cal_obj_time_compare_func a b \<le> 0 \<longleftrightarrow> cot_key a \<le> cot_key b"
  by (auto simp: compare_func_key)

lemma date_only_compare_signs [simp]:
  "cal_obj_date_only_compare_func a b < 0 \<longleftrightarrow> cot_day_key a < cot_day_key b"
  "cal_obj_date_only_compare_func a b > 0 \<longleftrightarrow> cot_day_key b < cot_day_key a"
  "cal_obj_date_only_compare_func a b = 0 \<longleftrightarrow> cot_day_key a = cot_day_key b"
  by (auto simp: cal_obj_date_only_compare_func_def cot_day_key_def)

lemma day_key_of_key: "cot_key a = cot_key b \<Longrightarrow> cot_day_key a = cot_day_key b"
  by (simp add: cot_key_def cot_day_key_def)

lemma compare_second: "cal_obj_time_compare a b CALOBJ_SECOND = cal_obj_time_compare_func a b"
  by (simp add: cal_obj_time_compare_def cal_obj_time_compare_func_def)

lemma compare_day: "cal_obj_time_compare a b CALOBJ_DAY = cal_obj_date_only_compare_func a b"
  by (simp add: cal_obj_time_compare_def cal_obj_date_only_compare_func_def)

lemma day_key_less_iff:
  assumes "valid_date (cot_year a) (cot_month a) (cot_day a)"
    "valid_date (cot_year b) (cot_month b) (cot_day b)"
  shows "cot_day_key a < cot_day_key b \<longleftrightarrow> cot_date a < cot_date b"
  using rata_die_less_iff [OF assms] by (auto simp: cot_day_key_def cot_date_def)

lemma seconds_less_same_date:
  assumes "valid_time a" "valid_time b" "cot_date a = cot_date b"
  shows "cot_seconds a < cot_seconds b \<longleftrightarrow>
    (cot_hour a, cot_minute a, cot_second a) < (cot_hour b, cot_minute b, cot_second b)"
  using assms by (auto simp: cot_seconds_def valid_time_def)

lemma seconds_less_date:
  "valid_time a \<Longrightarrow> valid_time b \<Longrightarrow> cot_date a < cot_date b \<Longrightarrow> cot_seconds a < cot_seconds b"
  by (simp add: cot_seconds_def valid_time_def)

lemma key_less_iff:
  assumes "valid_cot a" "valid_cot b"
  shows "cot_key a < cot_key b \<longleftrightarrow> cot_seconds a < cot_seconds b"
proof -
  have v: "valid_date (cot_year a) (cot_month a) (cot_day a)" "valid_date (cot_year b) (cot_month b) (cot_day b)"
    "valid_time a" "valid_time b" using assms by (auto simp: valid_cot_def)
  have k: "cot_key a < cot_key b \<longleftrightarrow> cot_day_key a < cot_day_key b \<or> (cot_day_key a = cot_day_key b \<and>
      (cot_hour a, cot_minute a, cot_second a) < (cot_hour b, cot_minute b, cot_second b))"
    by (auto simp: cot_key_def cot_day_key_def)
  consider "cot_date a < cot_date b" | "cot_date b < cot_date a" | "cot_date a = cot_date b"
    by linarith
  then show ?thesis
  proof cases
    case 1
    then show ?thesis using k day_key_less_iff [OF v(1,2)] seconds_less_date [OF v(3,4)] by simp
  next
    case 2
    then show ?thesis
      using k day_key_less_iff [OF v(2,1)] seconds_less_date [OF v(4,3)] by auto
  next
    case 3
    then have "cot_day_key a = cot_day_key b"
      using rata_die_inject [OF v(1,2)] by (simp add: cot_date_def cot_day_key_def)
    then show ?thesis using k 3 seconds_less_same_date [OF v(3,4)] by simp
  qed
qed

lemma key_eq_iff:
  "valid_cot a \<Longrightarrow> valid_cot b \<Longrightarrow> cot_key a = cot_key b \<longleftrightarrow> cot_seconds a = cot_seconds b"
  using key_less_iff [of a b] key_less_iff [of b a] by (metis less_irrefl linorder_neqE)

section \<open>Properties\<close>

text \<open>C17. \<^verbatim>\<open>cal_obj_time_add_days\<close> moves a valid time by exactly the given number of days,
  forwards or backwards over any number of months, years and leap days: the result is a valid
  time, its day number is the old one plus the days, the time of day and the flags are kept.
  The only bounds are those of the code (year 1900 to year 65535).\<close>

theorem add_days_correct:
  assumes "valid_cot t" "date_min \<le> cot_date t + n" "cot_date t + n \<le> date_max"
  shows "valid_cot (cal_obj_time_add_days t n)
    \<and> cot_date (cal_obj_time_add_days t n) = cot_date t + n
    \<and> cot_hour (cal_obj_time_add_days t n) = cot_hour t
    \<and> cot_minute (cal_obj_time_add_days t n) = cot_minute t
    \<and> cot_second (cal_obj_time_add_days t n) = cot_second t
    \<and> cot_flags (cal_obj_time_add_days t n) = cot_flags t"
  using add_days_valid [OF assms] by simp

theorem add_days_correct_witness:
  "cot_date (cal_obj_time_add_days \<lparr>cot_year = 2008, cot_month = 1, cot_day = 28, cot_hour = 9,
     cot_minute = 30, cot_second = 0, cot_flags = False\<rparr> 2) = 733102"
proof -
  let ?t = "\<lparr>cot_year = 2008, cot_month = 1, cot_day = 28, cot_hour = 9, cot_minute = 30,
    cot_second = 0, cot_flags = False\<rparr>"
  have v: "valid_cot ?t"
    by (simp add: valid_cot_def valid_date_def valid_time_def time_days_in_month_cases
        time_is_leap_year_def)
  have d: "cot_date ?t = 733100"
    by (simp add: cot_date_def rata_die_def year_start_def month_start_def)
  show ?thesis using add_days_correct [OF v, of 2] d by simp
qed



text \<open>On valid times the comparison that \<^verbatim>\<open>qsort\<close> and all range checks use is comparison of
  the instants: \<^verbatim>\<open>cal_obj_time_compare_func\<close> returns the sign of the difference in seconds, and
  \<^verbatim>\<open>cal_obj_date_only_compare_func\<close> the sign of the difference in days.\<close>

theorem compare_is_sign_of_difference:
  assumes "valid_cot a" "valid_cot b"
  shows "cal_obj_time_compare_func a b = sgn (cot_seconds a - cot_seconds b)
    \<and> cal_obj_date_only_compare_func a b = sgn (cot_date a - cot_date b)"
proof -
  have d: "valid_date (cot_year a) (cot_month a) (cot_day a)" "valid_date (cot_year b) (cot_month b) (cot_day b)"
    using assms by (auto simp: valid_cot_def)
  have "cal_obj_date_only_compare_func a b =
      (if cot_day_key a < cot_day_key b then -1 else if cot_day_key b < cot_day_key a then 1 else 0)"
    by (auto simp: cal_obj_date_only_compare_func_def cot_day_key_def)
  then have "cal_obj_date_only_compare_func a b = sgn (cot_date a - cot_date b)"
    using day_key_less_iff [OF d] day_key_less_iff [OF d(2,1)] by (simp add: sgn_if)
  moreover have "cal_obj_time_compare_func a b = sgn (cot_seconds a - cot_seconds b)"
    using key_less_iff [OF assms] key_less_iff [OF assms(2,1)]
    by (simp add: compare_func_key sgn_if)
  ultimately show ?thesis by simp
qed

theorem compare_is_sign_of_difference_witness:
  "cal_obj_time_compare_func
     \<lparr>cot_year = 2008, cot_month = 0, cot_day = 31, cot_hour = 9, cot_minute = 30, cot_second = 0, cot_flags = False\<rparr>
     \<lparr>cot_year = 2008, cot_month = 1, cot_day = 1, cot_hour = 8, cot_minute = 0, cot_second = 0, cot_flags = False\<rparr>
   = sgn (- 81000)"
proof -
  let ?a = "\<lparr>cot_year = 2008, cot_month = 0, cot_day = 31, cot_hour = 9, cot_minute = 30, cot_second = 0, cot_flags = False\<rparr>"
  let ?b = "\<lparr>cot_year = 2008, cot_month = 1, cot_day = 1, cot_hour = 8, cot_minute = 0, cot_second = 0, cot_flags = False\<rparr>"
  have v: "valid_cot ?a" "valid_cot ?b"
    by (simp_all add: valid_cot_def valid_date_def valid_time_def time_days_in_month_cases)
  have "cot_seconds ?a - cot_seconds ?b = - 81000"
    by (simp add: cot_seconds_def cot_date_def rata_die_def year_start_def month_start_def)
  then show ?thesis using compare_is_sign_of_difference [OF v] by simp
qed

text \<open>\<^verbatim>\<open>cal_obj_time_add_months\<close> with a count that is not negative moves the month number
  (12 times the year plus the month) by exactly that count and leaves a month from 0 to 11; the
  other fields are kept, so the day may become invalid, as the code's comment says.\<close>

theorem add_months_correct:
  assumes "0 \<le> cot_month t" "cot_month t < 12" "0 \<le> cot_year t" "0 \<le> n" "n < 2147483648"
    "cot_year t + (cot_month t + n) div 12 < 65536"
  shows "\<exists>y m. cal_obj_time_add_months t n = t\<lparr>cot_year := y, cot_month := m\<rparr>
    \<and> 12 * y + m = 12 * cot_year t + cot_month t + n \<and> 0 \<le> m \<and> m < 12"
proof (intro exI conjI)
  show "cal_obj_time_add_months t n =
    t\<lparr>cot_year := cot_year t + (cot_month t + n) div 12, cot_month := (cot_month t + n) mod 12\<rparr>"
    using add_months_result [of t n] assms by simp
qed (use div_mult_mod_eq [of "cot_month t + n" 12] in auto)

theorem add_months_correct_witness:
  "\<exists>y m. cal_obj_time_add_months \<lparr>cot_year = 2007, cot_month = 11, cot_day = 31, cot_hour = 0,
     cot_minute = 0, cot_second = 0, cot_flags = False\<rparr> 2
     = \<lparr>cot_year = y, cot_month = m, cot_day = 31, cot_hour = 0, cot_minute = 0, cot_second = 0,
        cot_flags = False\<rparr> \<and> 12 * y + m = 24097 \<and> 0 \<le> m \<and> m < 12"
  using add_months_correct [of "\<lparr>cot_year = 2007, cot_month = 11, cot_day = 31, cot_hour = 0,
     cot_minute = 0, cot_second = 0, cot_flags = False\<rparr>" 2] by simp

text \<open>
  With a negative count the same routine is wrong, because it computes in \<^verbatim>\<open>guint\<close>: one month
  before January 2008 is April of a year far from 2007. No caller in the file passes one.
\<close>

lemma add_months_negative:
  "cal_obj_time_add_months \<lparr>cot_year = 2008, cot_month = 0, cot_day = 1, cot_hour = 0,
     cot_minute = 0, cot_second = 0, cot_flags = False\<rparr> (- 1)
   = \<lparr>cot_year = 23853, cot_month = 3, cot_day = 1, cot_hour = 0, cot_minute = 0,
      cot_second = 0, cot_flags = False\<rparr>"
  by (simp add: cal_obj_time_add_months_def Let_def cint_defs)

end
