(* ===== verification/GDate_Interface.thy ===== *)
theory GDate_Interface
  imports Cal_Time
begin

text \<open>
  \<^verbatim>\<open>e-cal-recur.c\<close> asks GLib's \<^verbatim>\<open>GDate\<close> for weekdays, day numbers and days of the year. GLib is
  not part of the repository, so it is a parameter of the model: a record of the four queries,
  each taking the day, the month from 1 to 12 and the year that the code passes to
  \<^verbatim>\<open>g_date_set_dmy\<close>. What the code relies on is the locale \<open>gdate_contract\<close>, GLib's documented
  meaning of the queries on valid dates. The contract is met by the date routines the repository
  has itself in \<^verbatim>\<open>e-cal-time-util.c\<close>.
\<close>

record gdate_lib =
  g_date_get_weekday :: "int \<Rightarrow> int \<Rightarrow> int \<Rightarrow> int"
  g_date_get_julian :: "int \<Rightarrow> int \<Rightarrow> int \<Rightarrow> int"
  g_date_get_day_of_year :: "int \<Rightarrow> int \<Rightarrow> int \<Rightarrow> int"
  g_date_is_leap_year :: "int \<Rightarrow> bool"

locale gdate_contract =
  fixes G :: gdate_lib
  assumes weekday: "valid_date y m d \<Longrightarrow> g_date_get_weekday G d (m + 1) y = (rata_die y m d - 1) mod 7 + 1"
    and julian: "valid_date y m d \<Longrightarrow> g_date_get_julian G d (m + 1) y = rata_die y m d"
    and day_of_year: "valid_date y m d \<Longrightarrow> g_date_get_day_of_year G d (m + 1) y = month_start y m + d"
    and is_leap_year: "1900 \<le> y \<Longrightarrow> y < 65536 \<Longrightarrow>
      g_date_is_leap_year G y \<longleftrightarrow> (4 dvd y \<and> \<not> 100 dvd y) \<or> 400 dvd y"

section \<open>Weekdays and days of the year of a CalObjTime\<close>

definition cal_obj_time_weekday :: "gdate_lib \<Rightarrow> cal_obj_time \<Rightarrow> int" where
  "cal_obj_time_weekday G cotime =
     g_date_get_weekday G (cot_day cotime) (cot_month cotime + 1) (cot_year cotime) - 1"

text \<open>The second argument is the \<^verbatim>\<open>week_start_day\<close> of the recurrence.\<close>

definition cal_obj_time_weekday_offset :: "gdate_lib \<Rightarrow> cal_obj_time \<Rightarrow> int \<Rightarrow> int" where
  "cal_obj_time_weekday_offset G cotime week_start_day =
     (let weekday = g_date_get_weekday G (cot_day cotime) (cot_month cotime + 1) (cot_year cotime) - 1
      in (weekday + 7 - week_start_day) smod 7)"

definition cal_obj_time_day_of_year :: "gdate_lib \<Rightarrow> cal_obj_time \<Rightarrow> int" where
  "cal_obj_time_day_of_year G cotime =
     g_date_get_day_of_year G (cot_day cotime) (cot_month cotime + 1) (cot_year cotime)"

text \<open>\<^verbatim>\<open>cal_object_compute_duration\<close>: whole days and remaining seconds between two times.\<close>

definition cal_object_compute_duration :: "gdate_lib \<Rightarrow> cal_obj_time \<Rightarrow> cal_obj_time \<Rightarrow> int \<times> int" where
  "cal_object_compute_duration G start ends =
     (let days = g_date_get_julian G (cot_day ends) (cot_month ends + 1) (cot_year ends)
                 - g_date_get_julian G (cot_day start) (cot_month start + 1) (cot_year start);
          start_seconds = cot_hour start * 3600 + cot_minute start * 60 + cot_second start;
          end_seconds = cot_hour ends * 3600 + cot_minute ends * 60 + cot_second ends;
          seconds = end_seconds - start_seconds
      in if seconds < 0 then (days - 1, seconds + 24 * 60 * 60) else (days, seconds))"

abbreviation cot_date_ok :: "cal_obj_time \<Rightarrow> bool" where
  "cot_date_ok t \<equiv> valid_date (cot_year t) (cot_month t) (cot_day t)"

context gdate_contract
begin

lemma weekday_value: "cot_date_ok t \<Longrightarrow> cal_obj_time_weekday G t = (cot_date t - 1) mod 7"
  by (simp add: cal_obj_time_weekday_def weekday cot_date_def)

lemma weekday_offset_value:
  assumes "cot_date_ok t" "0 \<le> w" "w < 7"
  shows "cal_obj_time_weekday_offset G t w = (cot_date t - 1 - w) mod 7"
proof -
  let ?x = "(cot_date t - 1) mod 7 + 7 - w"
  have "0 \<le> ?x" using assms(3) pos_mod_sign [of 7 "cot_date t - 1"] by linarith
  then have "cal_obj_time_weekday_offset G t w = ?x mod 7"
    using assms(1) by (simp add: cal_obj_time_weekday_offset_def weekday cot_date_def)
  also have "\<dots> = (cot_date t - 1 - w) mod 7"
    by (metis add_diff_eq diff_add_eq mod_add_self2 mod_diff_left_eq)
  finally show ?thesis .
qed

lemma weekday_offset_bounds:
  "cot_date_ok t \<Longrightarrow> 0 \<le> w \<Longrightarrow> w < 7 \<Longrightarrow>
     0 \<le> cal_obj_time_weekday_offset G t w \<and> cal_obj_time_weekday_offset G t w < 7"
  by (simp add: weekday_offset_value)

lemma day_of_year_value:
  "cot_date_ok t \<Longrightarrow> cal_obj_time_day_of_year G t = month_start (cot_year t) (cot_month t) + cot_day t"
  by (simp add: cal_obj_time_day_of_year_def day_of_year)

lemma leap_value: "cot_date_ok t \<Longrightarrow> g_date_is_leap_year G (cot_year t) = time_is_leap_year (cot_year t)"
  by (simp add: is_leap_year leap_year_rule valid_date_def)

lemma duration_value:
  assumes "valid_cot a" "valid_cot b" "cal_object_compute_duration G a b = (days, secs)"
  shows "cot_seconds b - cot_seconds a = days * 86400 + secs" and "0 \<le> secs" and "secs < 86400"
  using assms
  by (auto simp: cal_object_compute_duration_def valid_cot_def valid_time_def julian cot_seconds_def
      cot_date_def Let_def split: if_splits)

end

section \<open>The contract holds for the routines of e-cal-time-util.c\<close>

lemma time_day_of_year_value:
  assumes "0 \<le> m" "m < 12"
  shows "time_day_of_year d m y = month_start y m + d"
  using month_cases [OF assms]
  by (auto simp: time_day_of_year_def month_start_def days_in_month_def Let_def eval_nat_numeral)

definition libecal_julian :: "int \<Rightarrow> int \<Rightarrow> int \<Rightarrow> int" where
  "libecal_julian d m y = (y - 1) * 365 + time_leap_years_up_to (y - 1) + time_day_of_year d (m - 1) y - 13"

definition libecal_gdate :: gdate_lib where
  "libecal_gdate =
     \<lparr>g_date_get_weekday = (\<lambda>d m y. let w = time_day_of_week d (m - 1) y in if w = 0 then 7 else w),
      g_date_get_julian = libecal_julian,
      g_date_get_day_of_year = (\<lambda>d m y. time_day_of_year d (m - 1) y),
      g_date_is_leap_year = time_is_leap_year\<rparr>"

lemma leap_years_value: "1900 \<le> y \<Longrightarrow>
  time_leap_years_up_to (y - 1) = (y - 1) div 4 - (y - 1) div 100 + (y - 1) div 400 + 13"
  unfolding time_leap_years_up_to_def by simp

lemma libecal_julian_value:
  "valid_date y m d \<Longrightarrow> libecal_julian d (m + 1) y = rata_die y m d"
  by (simp add: libecal_julian_def rata_die_def year_start_def time_day_of_year_value valid_date_def
      leap_years_value)

lemma time_day_of_week_value:
  assumes "valid_date y m d"
  shows "time_day_of_week d m y = rata_die y m d mod 7"
proof -
  let ?n = "(y - 1) * 365 + time_leap_years_up_to (y - 1) + time_day_of_year d m y"
  have n: "?n = rata_die y m d + 13"
    using libecal_julian_value [OF assms] by (simp add: libecal_julian_def)
  have "693596 \<le> rata_die y m d" using valid_date_range [OF assms] by simp
  then show ?thesis unfolding time_day_of_week_def n Let_def by simp
qed

interpretation libecal: gdate_contract libecal_gdate
proof
  fix y m d assume v: "valid_date y m d"
  show "g_date_get_weekday libecal_gdate d (m + 1) y = (rata_die y m d - 1) mod 7 + 1"
    using time_day_of_week_value [OF v] by (simp add: libecal_gdate_def Let_def) presburger
  show "g_date_get_julian libecal_gdate d (m + 1) y = rata_die y m d"
    using libecal_julian_value [OF v] by (simp add: libecal_gdate_def)
  show "g_date_get_day_of_year libecal_gdate d (m + 1) y = month_start y m + d"
    using v by (simp add: libecal_gdate_def time_day_of_year_value valid_date_def)
next
  fix y :: int assume "1900 \<le> y" "y < 65536"
  then show "g_date_is_leap_year libecal_gdate y \<longleftrightarrow> (4 dvd y \<and> \<not> 100 dvd y) \<or> 400 dvd y"
    by (simp add: libecal_gdate_def leap_year_rule)
qed

section \<open>Properties\<close>

text \<open>The repository's own \<^verbatim>\<open>time_day_of_week\<close> and \<^verbatim>\<open>time_day_of_year\<close>, with their tables for
  the 1752 reformation, agree with the Gregorian day count on every valid date: the weekday (0 for
  Sunday) is the day number modulo 7, the day of the year counts the months before it.\<close>

theorem time_util_day_numbers:
  assumes "valid_date y m d"
  shows "time_day_of_week d m y = rata_die y m d mod 7
    \<and> time_day_of_year d m y = rata_die y m d - rata_die y 0 1 + 1"
  using assms time_day_of_week_value time_day_of_year_value [of m d y]
  by (simp add: valid_date_def rata_die_def)

theorem time_util_day_numbers_witness: "time_day_of_week 21 3 2008 = 1"
proof -
  have "valid_date 2008 3 21" by (simp add: valid_date_def time_days_in_month_cases)
  from time_util_day_numbers [OF this] show ?thesis
    by (simp add: rata_die_def year_start_def month_start_def time_is_leap_year_def)
qed

text \<open>C26. \<^verbatim>\<open>cal_object_compute_duration\<close> splits the difference of two valid times into days and a
  number of seconds below one day, for any date library that meets the contract; adding the
  two parts back gives the end from the start (the way every occurrence's end is computed).\<close>

theorem duration_round_trip:
  assumes "gdate_contract G" "valid_cot a" "valid_cot b" "cot_seconds a \<le> cot_seconds b"
    and "cal_object_compute_duration G a b = (days, secs)"
  shows "cot_seconds (cal_obj_time_add_seconds (cal_obj_time_add_days a days) secs) = cot_seconds b
    \<and> 0 \<le> days \<and> 0 \<le> secs \<and> secs < 86400"
proof -
  note d = gdate_contract.duration_value [OF assms(1-3,5)]
  have t: "valid_time a" "valid_time b" using assms(2,3) by (auto simp: valid_cot_def)
  have ab: "date_min \<le> cot_date a" "cot_date b \<le> date_max"
    using assms(2,3) valid_date_range by (auto simp: valid_cot_def cot_date_def)
  have days: "0 \<le> days" using d assms(4) by linarith
  have "cot_date a + days \<le> cot_date b"
    using d t unfolding cot_seconds_def valid_time_def by linarith
  then have r: "date_min \<le> cot_date a + days" "cot_date a + days \<le> date_max"
    using ab days by linarith+
  note a' = add_days_valid [OF assms(2) r]
  have s: "cot_seconds a + days * 86400 + secs = cot_seconds b" using d(1) by simp
  have "seconds_min \<le> cot_seconds b" "cot_seconds b \<le> seconds_max"
    using t ab r assms(4) unfolding cot_seconds_def valid_time_def by (linarith, linarith)
  then show ?thesis using add_seconds_valid [OF a'(1), of secs] a'(3) s d days by simp
qed

theorem duration_round_trip_witness:
  "cot_seconds (cal_obj_time_add_seconds (cal_obj_time_add_days
     \<lparr>cot_year = 2008, cot_month = 1, cot_day = 28, cot_hour = 22, cot_minute = 0, cot_second = 0, cot_flags = False\<rparr> 1) 10800)
   = cot_seconds
     \<lparr>cot_year = 2008, cot_month = 2, cot_day = 1, cot_hour = 1, cot_minute = 0, cot_second = 0, cot_flags = False\<rparr>"
proof -
  let ?a = "\<lparr>cot_year = 2008, cot_month = 1, cot_day = 28, cot_hour = 22, cot_minute = 0, cot_second = 0, cot_flags = False\<rparr>"
  let ?b = "\<lparr>cot_year = 2008, cot_month = 2, cot_day = 1, cot_hour = 1, cot_minute = 0, cot_second = 0, cot_flags = False\<rparr>"
  have v: "valid_cot ?a" "valid_cot ?b"
    by (simp_all add: valid_cot_def valid_date_def valid_time_def time_days_in_month_cases
        time_is_leap_year_def)
  have le: "cot_seconds ?a \<le> cot_seconds ?b"
    by (simp add: cot_seconds_def cot_date_def rata_die_def year_start_def month_start_def
        time_is_leap_year_def)
  have "cal_object_compute_duration libecal_gdate ?a ?b = (1, 10800)"
    by code_simp
  from duration_round_trip [OF libecal.gdate_contract_axioms v le this] show ?thesis by blast
qed

end
