(* ===== verification/Recur_Data.thy ===== *)
theory Recur_Data
  imports GDate_Interface
begin

text \<open>
  The recurrence rule \<^verbatim>\<open>ECalRecurrence\<close> and the lookup tables \<^verbatim>\<open>RecurData\<close> of \<^verbatim>\<open>e-cal-recur.c\<close>.
  The \<^verbatim>\<open>GList\<close>s of integers are lists; \<^verbatim>\<open>byday\<close>, a list whose elements come in pairs of weekday and
  week number, is a list of pairs. The \<^verbatim>\<open>guint8\<close> tables of zeros and ones are lists of booleans.
  A write outside a table is undefined in C; \<open>recur_ok\<close> states the ranges the struct's comments
  give, under which no access is out of range.
\<close>

datatype icalrecurrencetype_frequency =
    ICAL_SECONDLY_RECURRENCE | ICAL_MINUTELY_RECURRENCE | ICAL_HOURLY_RECURRENCE
  | ICAL_DAILY_RECURRENCE | ICAL_WEEKLY_RECURRENCE | ICAL_MONTHLY_RECURRENCE
  | ICAL_YEARLY_RECURRENCE | ICAL_NO_RECURRENCE

record e_cal_recurrence =
  freq :: icalrecurrencetype_frequency
  interval :: int
  enddate :: int
  week_start_day :: int
  bymonth :: "int list"
  byweekno :: "int list"
  byyearday :: "int list"
  bymonthday :: "int list"
  byday :: "(int \<times> int) list"
  byhour :: "int list"
  byminute :: "int list"
  bysecond :: "int list"
  bysetpos :: "int list"

record recur_data =
  rd_recur :: e_cal_recurrence
  rd_weekday_offset :: int
  rd_months :: "bool list"
  rd_yeardays :: "bool list"
  rd_neg_yeardays :: "bool list"
  rd_monthdays :: "bool list"
  rd_neg_monthdays :: "bool list"
  rd_weekdays :: "bool list"
  rd_hours :: "bool list"
  rd_minutes :: "bool list"
  rd_seconds :: "bool list"

definition tab_set :: "bool list \<Rightarrow> int \<Rightarrow> bool list" where
  "tab_set tab i = (if 0 \<le> i then tab[nat i := True] else tab)"

definition tab_get :: "bool list \<Rightarrow> int \<Rightarrow> bool" where
  "tab_get tab i = (0 \<le> i \<and> nat i < length tab \<and> tab ! nat i)"

fun fill_tab :: "bool list \<Rightarrow> int list \<Rightarrow> bool list" where
  "fill_tab tab [] = tab"
| "fill_tab tab (x # xs) = fill_tab (tab_set tab x) xs"

text \<open>The loops with a second table for the negative values.\<close>

fun fill_tabs :: "bool list \<times> bool list \<Rightarrow> int list \<Rightarrow> bool list \<times> bool list" where
  "fill_tabs (pos, neg) [] = (pos, neg)"
| "fill_tabs (pos, neg) (x # xs) =
     (if x \<ge> 0 then fill_tabs (tab_set pos x, neg) xs else fill_tabs (pos, tab_set neg (- x)) xs)"

definition cal_obj_initialize_recur_data ::
    "gdate_lib \<Rightarrow> e_cal_recurrence \<Rightarrow> cal_obj_time \<Rightarrow> recur_data" where
  "cal_obj_initialize_recur_data G recur event_start =
     (let (yeardays, neg_yeardays) = fill_tabs (replicate 367 False, replicate 367 False) (byyearday recur);
          (monthdays, neg_monthdays) = fill_tabs (replicate 32 False, replicate 32 False) (bymonthday recur)
      in \<lparr>rd_recur = recur,
          rd_weekday_offset = cal_obj_time_weekday_offset G event_start (week_start_day recur),
          rd_months = fill_tab (replicate 12 False) (bymonth recur),
          rd_yeardays = yeardays,
          rd_neg_yeardays = neg_yeardays,
          rd_monthdays = monthdays,
          rd_neg_monthdays = neg_monthdays,
          rd_weekdays = fill_tab (replicate 7 False) (map fst (byday recur)),
          rd_hours = fill_tab (replicate 24 False) (byhour recur),
          rd_minutes = fill_tab (replicate 60 False) (byminute recur),
          rd_seconds = fill_tab (replicate 62 False) (bysecond recur)\<rparr>)"

text \<open>The ranges of the comments of \<^verbatim>\<open>ECalRecurrence\<close>; a positive interval.\<close>

definition recur_ok :: "e_cal_recurrence \<Rightarrow> bool" where
  "recur_ok r \<longleftrightarrow> 0 < interval r \<and> interval r < 1000
     \<and> 0 \<le> week_start_day r \<and> week_start_day r < 7
     \<and> (\<forall>x \<in> set (bymonth r). 0 \<le> x \<and> x < 12)
     \<and> (\<forall>x \<in> set (byweekno r). x \<noteq> 0 \<and> -53 \<le> x \<and> x \<le> 53)
     \<and> (\<forall>x \<in> set (byyearday r). x \<noteq> 0 \<and> -366 \<le> x \<and> x \<le> 366)
     \<and> (\<forall>x \<in> set (bymonthday r). x \<noteq> 0 \<and> -31 \<le> x \<and> x \<le> 31)
     \<and> (\<forall>(w, n) \<in> set (byday r). 0 \<le> w \<and> w < 7 \<and> -53 \<le> n \<and> n \<le> 53)
     \<and> (\<forall>x \<in> set (byhour r). 0 \<le> x \<and> x < 24)
     \<and> (\<forall>x \<in> set (byminute r). 0 \<le> x \<and> x < 60)
     \<and> (\<forall>x \<in> set (bysecond r). 0 \<le> x \<and> x < 60)"

section \<open>The tables hold exactly the lists\<close>

lemma length_tab_set [simp]: "length (tab_set tab i) = length tab"
  by (simp add: tab_set_def)

lemma tab_get_set:
  "tab_get (tab_set tab i) j \<longleftrightarrow> tab_get tab j \<or> (j = i \<and> 0 \<le> i \<and> nat i < length tab)"
  by (cases "nat i = nat j") (auto simp: tab_get_def tab_set_def nth_list_update eq_nat_nat_iff)

lemma tab_get_replicate [simp]: "\<not> tab_get (replicate n False) i"
  by (simp add: tab_get_def)

lemma tab_get_fill:
  "tab_get (fill_tab tab xs) i \<longleftrightarrow> tab_get tab i \<or> (i \<in> set xs \<and> 0 \<le> i \<and> nat i < length tab)"
  by (induction tab xs rule: fill_tab.induct) (auto simp: tab_get_set)

lemma tab_get_fill_new:
  "tab_get (fill_tab (replicate n False) xs) i \<longleftrightarrow> i \<in> set xs \<and> 0 \<le> i \<and> i < int n"
  by (auto simp: tab_get_fill nat_less_iff)

lemma tab_get_fill_pos:
  "tab_get (fst (fill_tabs (pos, neg) xs)) i \<longleftrightarrow> tab_get pos i \<or> (i \<in> set xs \<and> 0 \<le> i \<and> nat i < length pos)"
  by (induction xs arbitrary: pos neg) (auto simp: tab_get_set)

lemma tab_get_fill_neg:
  "tab_get (snd (fill_tabs (pos, neg) xs)) i \<longleftrightarrow> tab_get neg i \<or> (- i \<in> set xs \<and> 0 < i \<and> nat i < length neg)"
  by (induction xs arbitrary: pos neg) (auto simp: tab_get_set)

lemma tab_get_fill_tabs_new:
  "tab_get (fst (fill_tabs (replicate n False, replicate n False) xs)) i \<longleftrightarrow> i \<in> set xs \<and> 0 \<le> i \<and> i < int n"
  "tab_get (snd (fill_tabs (replicate n False, replicate n False) xs)) i \<longleftrightarrow> - i \<in> set xs \<and> 0 < i \<and> i < int n"
  by (auto simp: tab_get_fill_pos tab_get_fill_neg nat_less_iff)

lemma recur_data_simps [simp]:
  "rd_recur (cal_obj_initialize_recur_data G r e) = r"
  "rd_weekday_offset (cal_obj_initialize_recur_data G r e) = cal_obj_time_weekday_offset G e (week_start_day r)"
  "tab_get (rd_months (cal_obj_initialize_recur_data G r e)) i \<longleftrightarrow> i \<in> set (bymonth r) \<and> 0 \<le> i \<and> i < 12"
  "tab_get (rd_yeardays (cal_obj_initialize_recur_data G r e)) i \<longleftrightarrow> i \<in> set (byyearday r) \<and> 0 \<le> i \<and> i < 367"
  "tab_get (rd_neg_yeardays (cal_obj_initialize_recur_data G r e)) i \<longleftrightarrow> - i \<in> set (byyearday r) \<and> 0 < i \<and> i < 367"
  "tab_get (rd_monthdays (cal_obj_initialize_recur_data G r e)) i \<longleftrightarrow> i \<in> set (bymonthday r) \<and> 0 \<le> i \<and> i < 32"
  "tab_get (rd_neg_monthdays (cal_obj_initialize_recur_data G r e)) i \<longleftrightarrow> - i \<in> set (bymonthday r) \<and> 0 < i \<and> i < 32"
  "tab_get (rd_weekdays (cal_obj_initialize_recur_data G r e)) i \<longleftrightarrow> i \<in> fst ` set (byday r) \<and> 0 \<le> i \<and> i < 7"
  "tab_get (rd_hours (cal_obj_initialize_recur_data G r e)) i \<longleftrightarrow> i \<in> set (byhour r) \<and> 0 \<le> i \<and> i < 24"
  "tab_get (rd_minutes (cal_obj_initialize_recur_data G r e)) i \<longleftrightarrow> i \<in> set (byminute r) \<and> 0 \<le> i \<and> i < 60"
  "tab_get (rd_seconds (cal_obj_initialize_recur_data G r e)) i \<longleftrightarrow> i \<in> set (bysecond r) \<and> 0 \<le> i \<and> i < 62"
  by (simp_all add: cal_obj_initialize_recur_data_def tab_get_fill_new tab_get_fill_tabs_new
      case_prod_unfold Let_def)

end
