(* ===== verification/Recur_Modifier_Laws.thy ===== *)
theory Recur_Modifier_Laws
  imports Recur_Modifiers
begin

text \<open>
  The contract of the BYxxx modifiers. \<open>occ_wf k\<close> is the form every occurrence has on its way
  through the modifiers: month and time of day in range, a day from 1 to 31 that the month may
  not have, and a year that is \<open>k\<close> years away from the ends of the range, so that the
  next \<open>k\<close> modifiers may move it; \<open>occ_valid k\<close> also has a day of the month. The locale
  \<open>occ_modifier\<close> is interpreted for all sixteen functions.
\<close>

definition occ_wf :: "nat \<Rightarrow> cal_obj_time \<Rightarrow> bool" where
  "occ_wf k t \<longleftrightarrow> 1910 + int k \<le> cot_year t \<and> cot_year t \<le> 65000 - int k
     \<and> 0 \<le> cot_month t \<and> cot_month t < 12 \<and> 1 \<le> cot_day t \<and> cot_day t \<le> 31 \<and> valid_time t"

definition occ_valid :: "nat \<Rightarrow> cal_obj_time \<Rightarrow> bool" where
  "occ_valid k t \<longleftrightarrow> occ_wf k t \<and> cot_day t \<le> time_days_in_month (cot_year t) (cot_month t)"

definition rd_ok :: "recur_data \<Rightarrow> bool" where
  "rd_ok rd \<longleftrightarrow> recur_ok (rd_recur rd) \<and> 0 \<le> rd_weekday_offset rd \<and> rd_weekday_offset rd < 7"

section \<open>Well-formed occurrences\<close>

lemma occ_wf_mono: "occ_wf k t \<Longrightarrow> j \<le> k \<Longrightarrow> occ_wf j t"
  by (auto simp: occ_wf_def)

lemma occ_valid_mono: "occ_valid k t \<Longrightarrow> j \<le> k \<Longrightarrow> occ_valid j t"
  by (auto simp: occ_valid_def occ_wf_mono)

lemma occ_valid_wf: "occ_valid k t \<Longrightarrow> occ_wf k t"
  by (simp add: occ_valid_def)

lemma occ_valid_cot: "occ_valid k t \<Longrightarrow> valid_cot t"
  by (auto simp: occ_valid_def occ_wf_def valid_cot_def valid_date_def)

lemma valid_cot_occ:
  "valid_cot t \<Longrightarrow> 1910 + int k \<le> cot_year t \<Longrightarrow> cot_year t \<le> 65000 - int k \<Longrightarrow> occ_valid k t"
  using time_days_in_month_le [of "cot_year t" "cot_month t"]
  by (auto simp: occ_valid_def occ_wf_def valid_cot_def valid_date_def)

lemma year_of_date:
  assumes "valid_date y m d"
  shows "year_start y < rata_die y m d" and "rata_die y m d \<le> year_start (y + 1)"
proof -
  show "year_start y < rata_die y m d"
    using assms month_start_ge0 [of m y] by (auto simp: rata_die_def valid_date_def)
  show "rata_die y m d \<le> year_start (y + 1)"
    using assms month_start_bound [of y m] year_start_Suc [of y]
    by (auto simp: rata_die_def valid_date_def)
qed

lemma date_room:
  assumes "valid_date y m d" "1905 \<le> y" "y \<le> 65530" "\<bar>n\<bar> \<le> 800"
  shows "date_min \<le> rata_die y m d + n" "rata_die y m d + n \<le> date_max"
proof -
  have "year_start 1900 + 365 * (y - 1900) \<le> year_start y"
    using year_start_mono [of 1900 y] assms(2) by simp
  moreover have "year_start (y + 1) + 365 * (65535 - (y + 1)) \<le> year_start 65535"
    using year_start_mono [of "y + 1" 65535] assms(2,3) by simp
  moreover have "year_start 1900 = 693595" "year_start 65535 = 23935801"
    by (simp_all add: year_start_def)
  ultimately show "date_min \<le> rata_die y m d + n" "rata_die y m d + n \<le> date_max"
    using year_of_date [OF assms(1)] assms(2-4) by simp_all
qed

lemma year_shift:
  assumes "cot_date_ok a" "cot_date_ok b" "\<bar>cot_date b - cot_date a\<bar> \<le> 365"
  shows "\<bar>cot_year b - cot_year a\<bar> \<le> 1"
proof -
  have gap: "cot_year q < cot_year p + 2"
    if p: "cot_date_ok p" and q: "cot_date_ok q" and d: "cot_date q - cot_date p \<le> 365" for p q
  proof (rule ccontr)
    assume "\<not> cot_year q < cot_year p + 2"
    then have "year_start (cot_year p + 1) + 365 * (cot_year q - (cot_year p + 1)) \<le> year_start (cot_year q)"
      using p by (intro year_start_mono) (auto simp: valid_date_def)
    then show False
      using year_of_date [OF p] year_of_date [OF q] d \<open>\<not> cot_year q < cot_year p + 2\<close>
      by (simp add: cot_date_def)
  qed
  show ?thesis using gap [of a b] gap [of b a] assms by linarith
qed

text \<open>Moves by up to 800 days stay in range; moves of less than a year change the year by one.\<close>

lemma add_days_near:
  assumes "valid_cot t" "1905 \<le> cot_year t" "cot_year t \<le> 65530" "\<bar>n\<bar> \<le> 800"
  shows "valid_cot (cal_obj_time_add_days t n)"
    and "cot_date (cal_obj_time_add_days t n) = cot_date t + n"
  using add_days_valid [OF assms(1)] date_room [OF _ assms(2-4)] assms(1)
  by (auto simp: valid_cot_def cot_date_def)

lemma occ_valid_add_days:
  assumes "occ_valid (Suc k) t" "\<bar>n\<bar> \<le> 365"
  shows "occ_valid k (cal_obj_time_add_days t n)"
    and "cot_date (cal_obj_time_add_days t n) = cot_date t + n"
proof -
  have r: "1905 \<le> cot_year t" "cot_year t \<le> 65530" "1910 + int k < cot_year t" "cot_year t < 65000 - int k"
    using assms(1) by (auto simp: occ_valid_def occ_wf_def)
  have n: "\<bar>n\<bar> \<le> 800" using assms(2) by simp
  note a = add_days_near [OF occ_valid_cot [OF assms(1)] r(1,2) n]
  show "cot_date (cal_obj_time_add_days t n) = cot_date t + n" by (rule a(2))
  have "\<bar>cot_year (cal_obj_time_add_days t n) - cot_year t\<bar> \<le> 1"
    using year_shift [of t "cal_obj_time_add_days t n"] a occ_valid_cot [OF assms(1)] assms(2)
    by (simp add: valid_cot_def)
  then show "occ_valid k (cal_obj_time_add_days t n)"
    using a(1) r by (intro valid_cot_occ) auto
qed

lemma occ_valid_same_year:
  assumes "valid_cot t" "occ_wf k occ" "cot_year t = cot_year occ"
  shows "occ_valid k t"
  using assms by (intro valid_cot_occ) (auto simp: occ_wf_def)

lemma jan_first_valid: "occ_wf k t \<Longrightarrow> occ_valid k (t\<lparr>cot_month := 0, cot_day := 1\<rparr>)"
  by (auto simp: occ_valid_def occ_wf_def valid_time_def time_days_in_month_cases)

lemma dec_last_valid: "occ_wf k t \<Longrightarrow> occ_valid k (t\<lparr>cot_month := 11, cot_day := 31\<rparr>)"
  by (auto simp: occ_valid_def occ_wf_def valid_time_def time_days_in_month_cases)

lemma month_first_valid: "occ_wf k t \<Longrightarrow> occ_valid k (t\<lparr>cot_day := 1\<rparr>)"
  using time_days_in_month_pos [of "cot_year t" "cot_month t"]
  by (auto simp: occ_valid_def occ_wf_def valid_time_def)

lemma month_last_valid:
  assumes "occ_wf k t"
  shows "occ_valid k (t\<lparr>cot_day := u8 (time_days_in_month (cot_year t) (cot_month t))\<rparr>)"
proof -
  let ?d = "time_days_in_month (cot_year t) (cot_month t)"
  have d: "28 \<le> ?d" "?d \<le> 31"
    using assms time_days_in_month_pos time_days_in_month_le by (auto simp: occ_wf_def)
  then have "u8 ?d = ?d" by simp
  then show ?thesis using assms d by (auto simp: occ_valid_def occ_wf_def valid_time_def)
qed

section \<open>The contract\<close>

locale occ_modifier =
  fixes modifier :: "gdate_lib \<Rightarrow> recur_data \<Rightarrow> cal_obj_time list \<Rightarrow> cal_obj_time list"
    and pre post :: "nat \<Rightarrow> cal_obj_time \<Rightarrow> bool"
  assumes modifier_nil: "modifier G rd [] = []"
    and modifier_append: "modifier G rd (xs @ ys) = modifier G rd xs @ modifier G rd ys"
    and modifier_keeps: "gdate_contract G \<Longrightarrow> rd_ok rd \<Longrightarrow> pre (Suc k) x \<Longrightarrow>
      y \<in> set (modifier G rd [x]) \<Longrightarrow> post k y"
begin

lemma modifier_pointwise: "modifier G rd xs = concat (map (\<lambda>x. modifier G rd [x]) xs)"
proof (induction xs)
  case (Cons x xs)
  then show ?case using modifier_append [of G rd "[x]" xs] by simp
qed (simp add: modifier_nil)

lemma modifier_member: "y \<in> set (modifier G rd xs) \<longleftrightarrow> (\<exists>x \<in> set xs. y \<in> set (modifier G rd [x]))"
  by (subst modifier_pointwise) simp

lemma modifier_keeps_all:
  assumes "gdate_contract G" "rd_ok rd" "\<And>x. x \<in> set xs \<Longrightarrow> pre (Suc k) x" "y \<in> set (modifier G rd xs)"
  shows "post k y"
proof -
  from assms(4) obtain x where "x \<in> set xs" "y \<in> set (modifier G rd [x])"
    unfolding modifier_member [of y G rd xs] by blast
  with assms(1-3) show ?thesis by (blast intro: modifier_keeps)
qed

lemma modifier_Cons: "modifier G rd (x # xs) = modifier G rd [x] @ modifier G rd xs"
  using modifier_append [of G rd "[x]" xs] by simp

text \<open>The order in which occurrences are generated does not matter for what is generated.\<close>

lemma mset_modifier: "mset (modifier G rd xs) = (\<Sum>x \<in># mset xs. mset (modifier G rd [x]))"
proof (induction xs)
  case (Cons x xs)
  then show ?case by (subst modifier_Cons) simp
qed (simp add: modifier_nil)

lemma modifier_mset: "mset xs = mset ys \<Longrightarrow> mset (modifier G rd xs) = mset (modifier G rd ys)"
  by (simp only: mset_modifier [of G rd xs] mset_modifier [of G rd ys])

end

locale occ_filter = occ_modifier +
  assumes modifier_singleton: "modifier G rd [x] \<in> {[], [x]}"
begin

lemma modifier_filter: "modifier G rd xs = filter (\<lambda>x. modifier G rd [x] \<noteq> []) xs"
proof (induction xs)
  case (Cons x xs)
  then show ?case using modifier_singleton [of G rd x] by (subst modifier_Cons) auto
qed (simp add: modifier_nil)

lemma modifier_subset: "set (modifier G rd xs) \<subseteq> set xs"
  by (subst modifier_filter) auto

end

section \<open>Every modifier meets it\<close>

text \<open>The two shapes of the C functions: filter the array, or expand each element.\<close>

lemma filter_shape_append:
  "(if c \<or> xs @ ys = [] then xs @ ys else filter p (xs @ ys)) =
     (if c \<or> xs = [] then xs else filter p xs) @ (if c \<or> ys = [] then ys else filter p ys)"
  by auto

lemma expand_shape_append:
  "(if c \<or> xs @ ys = [] then xs @ ys else concat (map f (xs @ ys))) =
     (if c \<or> xs = [] then xs else concat (map f xs)) @ (if c \<or> ys = [] then ys else concat (map f ys))"
  by auto

lemmas filter_defs =
  cal_obj_bymonth_filter_def cal_obj_byyearday_filter_def cal_obj_bymonthday_filter_def
  cal_obj_byday_filter_def cal_obj_byhour_filter_def cal_obj_byminute_filter_def
  cal_obj_bysecond_filter_def

interpretation bymonth_filter: occ_filter cal_obj_bymonth_filter occ_valid occ_valid
  by unfold_locales (auto simp: filter_defs filter_shape_append intro: occ_valid_mono split: if_splits)

interpretation bymonth_filter_wf: occ_filter cal_obj_bymonth_filter occ_wf occ_wf
  by unfold_locales (auto simp: filter_defs filter_shape_append intro: occ_wf_mono split: if_splits)

interpretation byyearday_filter: occ_filter cal_obj_byyearday_filter occ_valid occ_valid
  by unfold_locales (auto simp: filter_defs filter_shape_append intro: occ_valid_mono split: if_splits)

interpretation bymonthday_filter: occ_filter cal_obj_bymonthday_filter occ_valid occ_valid
  by unfold_locales (auto simp: filter_defs filter_shape_append intro: occ_valid_mono split: if_splits)

interpretation byday_filter: occ_filter cal_obj_byday_filter occ_valid occ_valid
  by unfold_locales (auto simp: filter_defs filter_shape_append intro: occ_valid_mono split: if_splits)

interpretation byhour_filter: occ_filter cal_obj_byhour_filter occ_valid occ_valid
  by unfold_locales (auto simp: filter_defs filter_shape_append intro: occ_valid_mono split: if_splits)

interpretation byminute_filter: occ_filter cal_obj_byminute_filter occ_valid occ_valid
  by unfold_locales (auto simp: filter_defs filter_shape_append intro: occ_valid_mono split: if_splits)

interpretation bysecond_filter: occ_filter cal_obj_bysecond_filter occ_valid occ_valid
  by unfold_locales (auto simp: filter_defs filter_shape_append intro: occ_valid_mono split: if_splits)

text \<open>The in-place loops of the month, hour, minute and second expansions are maps.\<close>

lemma bymonth_expand_loop_map: "bymonth_expand_loop xs occ = map (\<lambda>x. occ\<lparr>cot_month := u8 x\<rparr>) xs"
  by (induction xs arbitrary: occ) (simp_all add: Let_def)

lemma byhour_expand_loop_map: "byhour_expand_loop xs occ = map (\<lambda>x. occ\<lparr>cot_hour := u8 x\<rparr>) xs"
  by (induction xs arbitrary: occ) (simp_all add: Let_def)

lemma byminute_expand_loop_map: "byminute_expand_loop xs occ = map (\<lambda>x. occ\<lparr>cot_minute := u8 x\<rparr>) xs"
  by (induction xs arbitrary: occ) (simp_all add: Let_def)

lemma bysecond_expand_loop_map: "bysecond_expand_loop xs occ = map (\<lambda>x. occ\<lparr>cot_second := u8 x\<rparr>) xs"
  by (induction xs arbitrary: occ) (simp_all add: Let_def)

lemmas expand_loop_maps = bymonth_expand_loop_map byhour_expand_loop_map byminute_expand_loop_map
  bysecond_expand_loop_map

lemmas time_expand_defs = cal_obj_byhour_expand_def cal_obj_byminute_expand_def cal_obj_bysecond_expand_def

lemma occ_wf_month: "occ_wf (Suc k) t \<Longrightarrow> 0 \<le> x \<Longrightarrow> x < 12 \<Longrightarrow> occ_wf k (t\<lparr>cot_month := u8 x\<rparr>)"
  by (auto simp: occ_wf_def valid_time_def)

lemma occ_valid_clock:
  "occ_valid (Suc k) t \<Longrightarrow> 0 \<le> x \<Longrightarrow> x < 24 \<Longrightarrow> occ_valid k (t\<lparr>cot_hour := u8 x\<rparr>)"
  "occ_valid (Suc k) t \<Longrightarrow> 0 \<le> x \<Longrightarrow> x < 60 \<Longrightarrow> occ_valid k (t\<lparr>cot_minute := u8 x\<rparr>)"
  "occ_valid (Suc k) t \<Longrightarrow> 0 \<le> x \<Longrightarrow> x < 60 \<Longrightarrow> occ_valid k (t\<lparr>cot_second := u8 x\<rparr>)"
  by (auto simp: occ_valid_def occ_wf_def valid_time_def)

lemma occ_wf_clock:
  "occ_wf (Suc k) t \<Longrightarrow> 0 \<le> x \<Longrightarrow> x < 24 \<Longrightarrow> occ_wf k (t\<lparr>cot_hour := u8 x\<rparr>)"
  "occ_wf (Suc k) t \<Longrightarrow> 0 \<le> x \<Longrightarrow> x < 60 \<Longrightarrow> occ_wf k (t\<lparr>cot_minute := u8 x\<rparr>)"
  "occ_wf (Suc k) t \<Longrightarrow> 0 \<le> x \<Longrightarrow> x < 60 \<Longrightarrow> occ_wf k (t\<lparr>cot_second := u8 x\<rparr>)"
  by (auto simp: occ_wf_def valid_time_def)

interpretation bymonth_expand: occ_modifier cal_obj_bymonth_expand occ_wf occ_wf
  by unfold_locales (auto simp: cal_obj_bymonth_expand_def expand_loop_maps rd_ok_def recur_ok_def
      intro: occ_wf_mono occ_wf_month split: if_splits)

interpretation byhour_expand: occ_modifier cal_obj_byhour_expand occ_valid occ_valid
  by unfold_locales (auto simp: time_expand_defs expand_loop_maps rd_ok_def recur_ok_def
      intro: occ_valid_mono occ_valid_clock split: if_splits)

interpretation byminute_expand: occ_modifier cal_obj_byminute_expand occ_valid occ_valid
  by unfold_locales (auto simp: time_expand_defs expand_loop_maps rd_ok_def recur_ok_def
      intro: occ_valid_mono occ_valid_clock split: if_splits)

interpretation bysecond_expand: occ_modifier cal_obj_bysecond_expand occ_valid occ_valid
  by unfold_locales (auto simp: time_expand_defs expand_loop_maps rd_ok_def recur_ok_def
      intro: occ_valid_mono occ_valid_clock split: if_splits)

interpretation byhour_expand_wf: occ_modifier cal_obj_byhour_expand occ_wf occ_wf
  by unfold_locales (auto simp: time_expand_defs expand_loop_maps rd_ok_def recur_ok_def
      intro: occ_wf_mono occ_wf_clock split: if_splits)

interpretation byminute_expand_wf: occ_modifier cal_obj_byminute_expand occ_wf occ_wf
  by unfold_locales (auto simp: time_expand_defs expand_loop_maps rd_ok_def recur_ok_def
      intro: occ_wf_mono occ_wf_clock split: if_splits)

interpretation bysecond_expand_wf: occ_modifier cal_obj_bysecond_expand occ_wf occ_wf
  by unfold_locales (auto simp: time_expand_defs expand_loop_maps rd_ok_def recur_ok_def
      intro: occ_wf_mono occ_wf_clock split: if_splits)

section \<open>BYMONTHDAY and BYYEARDAY expansion\<close>

lemma bymonthday_positive:
  assumes "occ_wf k occ" "0 < n" "n \<le> 31"
  shows "bymonthday_expand_one occ n =
    occ\<lparr>cot_day := min n (time_days_in_month (cot_year occ) (cot_month occ))\<rparr>"
proof -
  let ?y = "cot_year occ" and ?m = "cot_month occ"
  let ?d = "time_days_in_month ?y ?m"
  have m: "1900 \<le> ?y" "0 \<le> ?m" "?m < 12" using assms(1) by (auto simp: occ_wf_def)
  have d: "28 \<le> ?d" "?d \<le> 31" using m time_days_in_month_pos time_days_in_month_le by auto
  show ?thesis
  proof (cases "n \<le> ?d")
    case True
    then show ?thesis using assms d
      by (simp add: bymonthday_expand_one_def cal_obj_time_add_days_def add_days_forward.simps [of ?y ?m])
  next
    case False
    then have "?m < 11" using m assms by (cases "?m = 11") (auto simp: time_days_in_month_cases)
    then have "28 \<le> time_days_in_month ?y (?m + 1)" using m by (intro time_days_in_month_pos) auto
    then have "add_days_forward ?y ?m n = (?y, ?m + 1, n - ?d)"
      using False \<open>?m < 11\<close> m d assms
      by (simp add: add_days_forward.simps [of ?y ?m n] add_days_forward.simps [of ?y "?m + 1"] Let_def)
    then show ?thesis using False d assms m \<open>?m < 11\<close>
      by (simp add: bymonthday_expand_one_def cal_obj_time_add_days_def min_def)
  qed
qed

lemma bymonthday_negative:
  assumes "occ_wf k occ" "n < 0" "-31 \<le> n"
  shows "bymonthday_expand_one occ n =
    occ\<lparr>cot_day := (let d = time_days_in_month (cot_year occ) (cot_month occ)
                    in if - n \<le> d then d + 1 + n else d)\<rparr>"
proof -
  let ?y = "cot_year occ" and ?m = "cot_month occ"
  let ?d = "time_days_in_month ?y ?m"
  have m: "1900 \<le> ?y" "0 \<le> ?m" "?m < 12" using assms(1) by (auto simp: occ_wf_def)
  have d: "28 \<le> ?d" "?d \<le> 31" using m time_days_in_month_pos time_days_in_month_le by auto
  have b: "add_days_backward ?y (?m + 1) (1 + n) = add_days_backward ?y ?m (1 + n + ?d)"
    using assms m by (simp add: add_days_backward.simps [of ?y "?m + 1"])
  show ?thesis
  proof (cases "- n \<le> ?d")
    case True
    then have "add_days_backward ?y ?m (1 + n + ?d) = (?y, ?m, 1 + n + ?d)"
      by (simp add: add_days_backward.simps [of ?y ?m])
    then show ?thesis using True assms d m b
      by (simp add: bymonthday_expand_one_def cal_obj_time_add_days_def algebra_simps)
  next
    case False
    then have m0: "0 < ?m" using m assms by (cases "?m = 0") (auto simp: time_days_in_month_cases)
    let ?e = "time_days_in_month ?y (?m - 1)"
    have e: "28 \<le> ?e" using m m0 by (intro time_days_in_month_pos) auto
    have "add_days_backward ?y ?m (1 + n + ?d) = (?y, ?m - 1, 1 + n + ?d + ?e)"
      using False m0 m e d assms
      by (simp add: add_days_backward.simps [of ?y ?m] add_days_backward.simps [of ?y "?m - 1"])
    then show ?thesis using False assms d m b m0
      by (simp add: bymonthday_expand_one_def cal_obj_time_add_days_def algebra_simps Let_def)
  qed
qed

lemma bymonthday_expand_one_valid:
  assumes "occ_wf k occ" "n \<noteq> 0" "-31 \<le> n" "n \<le> 31"
  shows "occ_valid k (bymonthday_expand_one occ n)"
proof -
  have d: "28 \<le> time_days_in_month (cot_year occ) (cot_month occ)"
     "time_days_in_month (cot_year occ) (cot_month occ) \<le> 31"
    using assms(1) time_days_in_month_pos time_days_in_month_le by (auto simp: occ_wf_def)
  show ?thesis
  proof (cases "0 < n")
    case True
    then show ?thesis using bymonthday_positive [OF assms(1), of n] assms d
      by (auto simp: occ_valid_def occ_wf_def valid_time_def)
  next
    case False
    then show ?thesis using bymonthday_negative [OF assms(1), of n] assms d
      by (auto simp: occ_valid_def occ_wf_def valid_time_def Let_def)
  qed
qed

interpretation bymonthday_expand: occ_modifier cal_obj_bymonthday_expand occ_wf occ_wf
proof
  fix G rd k x y
  assume r: "rd_ok rd" and x: "occ_wf (Suc k) x" and y: "y \<in> set (cal_obj_bymonthday_expand G rd [x])"
  have w: "occ_wf k x" using x by (rule occ_wf_mono) simp
  have "occ_valid k (bymonthday_expand_one x n)" if "n \<in> set (bymonthday (rd_recur rd))" for n
    using that r by (intro bymonthday_expand_one_valid [OF w]) (auto simp: rd_ok_def recur_ok_def)
  with w y show "occ_wf k y"
    by (auto simp: cal_obj_bymonthday_expand_def split: if_splits intro: occ_valid_wf)
qed (auto simp: cal_obj_bymonthday_expand_def)

text \<open>BYYEARDAY: the day number counts from the first or the last day of the year.\<close>

lemma byyearday_cotime:
  assumes "occ_wf (Suc k) occ" "n \<noteq> 0" "-366 \<le> n" "n \<le> 366"
  defines "c \<equiv> (if n > 0 then cal_obj_time_add_days (occ\<lparr>cot_month := 0, cot_day := 1\<rparr>) (n - 1)
      else cal_obj_time_add_days (occ\<lparr>cot_year := u16 (cot_year occ + 1), cot_month := 0, cot_day := 1\<rparr>) n)"
  shows "valid_cot c"
    and "cot_date c = (if n > 0 then year_start (cot_year occ) + n else year_start (cot_year occ + 1) + 1 + n)"
proof -
  let ?s = "occ\<lparr>cot_month := 0, cot_day := 1\<rparr>"
  let ?e = "occ\<lparr>cot_year := cot_year occ + 1, cot_month := 0, cot_day := 1\<rparr>"
  have u: "u16 (cot_year occ + 1) = cot_year occ + 1" using assms(1) by (simp add: occ_wf_def)
  have s: "valid_cot ?s" and e: "valid_cot ?e"
    using assms(1) by (auto simp: valid_cot_def occ_wf_def valid_date_def valid_time_def time_days_in_month_cases)
  have y: "1905 \<le> cot_year occ" "cot_year occ < 65530" using assms(1) by (auto simp: occ_wf_def)
  have "valid_cot c \<and> cot_date c = (if n > 0 then cot_date ?s + (n - 1) else cot_date ?e + n)"
    unfolding c_def u using add_days_near [OF s, of "n - 1"] add_days_near [OF e, of n] y assms(2-4)
    by auto
  then show "valid_cot c"
    and "cot_date c = (if n > 0 then year_start (cot_year occ) + n else year_start (cot_year occ + 1) + 1 + n)"
    by (auto simp: cot_date_def rata_die_def)
qed

lemma byyearday_expand_one_valid:
  assumes "rd_ok rd" "occ_wf (Suc k) occ" "y \<in> set (byyearday_expand_one rd occ)"
  shows "occ_valid k y"
proof -
  from assms(3) obtain n where n: "n \<in> set (byyearday (rd_recur rd))" "cot_year y = cot_year occ"
    "y = (if n > 0 then cal_obj_time_add_days (occ\<lparr>cot_month := 0, cot_day := 1\<rparr>) (n - 1)
      else cal_obj_time_add_days (occ\<lparr>cot_year := u16 (cot_year occ + 1), cot_month := 0, cot_day := 1\<rparr>) n)"
    by (auto simp: byyearday_expand_one_def Let_def)
  have "n \<noteq> 0" "-366 \<le> n" "n \<le> 366" using n(1) assms(1) by (auto simp: rd_ok_def recur_ok_def)
  then have "valid_cot y" unfolding n(3) by (intro byyearday_cotime(1) [OF assms(2)])
  moreover have "occ_wf k occ" using assms(2) by (rule occ_wf_mono) simp
  ultimately show ?thesis using n(2) by (intro occ_valid_same_year)
qed

interpretation byyearday_expand: occ_modifier cal_obj_byyearday_expand occ_wf occ_wf
proof
  fix G rd k x y
  assume "rd_ok rd" "occ_wf (Suc k) x" "y \<in> set (cal_obj_byyearday_expand G rd [x])"
  then show "occ_wf k y"
    by (auto simp: cal_obj_byyearday_expand_def split: if_splits
        intro: occ_wf_mono occ_valid_wf byyearday_expand_one_valid)
qed (auto simp: cal_obj_byyearday_expand_def)

section \<open>BYWEEKNO expansion\<close>

text \<open>
  \<open>first_week_start\<close> is the reference: the start of the first week (beginning on day \<open>w\<close>) of which
  at least four days are in the year, the week that contains the fourth of January.
\<close>

definition first_week_start :: "int \<Rightarrow> int \<Rightarrow> int" where
  "first_week_start y w = year_start y + 4 - (year_start y + 4 - 1 - w) mod 7"

lemma first_week_move:
  assumes "gdate_contract G" "1900 \<le> y" "y < 65536" "0 \<le> w" "w < 7"
  shows "(let first = (w + 7 - (g_date_get_weekday G 1 1 y - 1)) smod 7
          in if first \<ge> 4 then first - 7 else first) = first_week_start y w - (year_start y + 1)"
proof -
  have v: "valid_date y 0 1" using assms by (simp add: valid_date_def time_days_in_month_cases)
  have wd: "g_date_get_weekday G 1 1 y - 1 = year_start y mod 7"
    using gdate_contract.weekday [OF assms(1) v] by (simp add: rata_die_def)
  define s where "s = year_start y"
  have m: "0 \<le> s mod 7" "s mod 7 < 7" by auto
  have "(w + 7 - s mod 7) smod 7 = (w - s) mod 7"
    using m assms(4) by (subst plus_week_smod) (simp_all add: mod_diff_right_eq)
  then have f: "(w + 7 - (g_date_get_weekday G 1 1 y - 1)) smod 7 = (w - s) mod 7"
    by (simp add: wd s_def)
  define x where "x = (w - s) mod 7"
  have x: "0 \<le> x" "x < 7" by (auto simp: x_def)
  have "(s + 4 - 1 - w) mod 7 = (3 - (w - s)) mod 7" by (simp add: algebra_simps)
  also have "\<dots> = (3 - x) mod 7" by (simp add: x_def mod_diff_right_eq)
  also have "\<dots> = (if x \<ge> 4 then 10 - x else 3 - x)"
  proof (cases "x \<ge> 4")
    case True
    have "(3 - x) mod 7 = (3 + 7 - x) mod 7" by (rule plus_week_mod [symmetric])
    also have "\<dots> = 10 - x" using True x by (subst mod_pos_pos_trivial) auto
    finally show ?thesis using True by simp
  qed (use x in simp)
  finally show ?thesis unfolding f first_week_start_def s_def [symmetric] Let_def x_def [symmetric]
    by simp
qed

lemma find_first_week_value:
  assumes "gdate_contract G" "rd_ok rd" "1906 \<le> cot_year t" "cot_year t \<le> 65529" "valid_time t"
  defines "c \<equiv> cal_obj_time_find_first_week G rd t"
  shows "valid_cot c"
    and "cot_date c = first_week_start (cot_year t) (week_start_day (rd_recur rd)) + rd_weekday_offset rd"
    and "\<bar>cot_year c - cot_year t\<bar> \<le> 1"
proof -
  let ?y = "cot_year t" and ?w = "week_start_day (rd_recur rd)"
  let ?j = "t\<lparr>cot_month := 0, cot_day := 1\<rparr>"
  let ?n = "first_week_start ?y ?w - (year_start ?y + 1) + rd_weekday_offset rd"
  have w: "0 \<le> ?w" "?w < 7" "0 \<le> rd_weekday_offset rd" "rd_weekday_offset rd < 7"
    using assms(2) by (auto simp: rd_ok_def recur_ok_def)
  have j: "valid_cot ?j" "cot_date ?j = year_start ?y + 1"
    using assms(3-5) by (auto simp: valid_cot_def valid_date_def valid_time_def time_days_in_month_cases
        cot_date_def rata_die_def)
  have c: "c = cal_obj_time_add_days ?j ?n"
    using first_week_move [of G ?y ?w, unfolded Let_def] assms(1,3,4) w
    by (simp only: c_def cal_obj_time_find_first_week_def Let_def)
  have "\<bar>?n\<bar> \<le> 365" using w by (simp add: first_week_start_def)
  then have "\<bar>?n\<bar> \<le> 800" by linarith
  with add_days_near [OF j(1) _ _ this] assms(3,4)
  have a: "valid_cot c" "cot_date c = cot_date ?j + ?n" unfolding c by simp_all
  show "valid_cot c" by (rule a)
  show "cot_date c = first_week_start ?y ?w + rd_weekday_offset rd" using a(2) j(2) by simp
  show "\<bar>cot_year c - ?y\<bar> \<le> 1"
    using year_shift [of ?j c] j a \<open>\<bar>?n\<bar> \<le> 365\<close> by (simp add: valid_cot_def)
qed

lemma byweekno_cotime:
  assumes "gdate_contract G" "rd_ok rd" "occ_wf (Suc k) occ" "n \<noteq> 0" "-53 \<le> n" "n \<le> 53"
  defines "c \<equiv> (if n > 0 then cal_obj_time_add_days (cal_obj_time_find_first_week G rd occ) ((n - 1) * 7)
     else cal_obj_time_add_days (cal_obj_time_find_first_week G rd (occ\<lparr>cot_year := u16 (cot_year occ + 1)\<rparr>)) (n * 7))"
  shows "valid_cot c"
    and "cot_date c = (if n > 0 then first_week_start (cot_year occ) (week_start_day (rd_recur rd)) + (n - 1) * 7
       else first_week_start (cot_year occ + 1) (week_start_day (rd_recur rd)) + n * 7) + rd_weekday_offset rd"
proof -
  let ?e = "occ\<lparr>cot_year := cot_year occ + 1\<rparr>"
  have u: "u16 (cot_year occ + 1) = cot_year occ + 1" using assms(3) by (simp add: occ_wf_def)
  have o: "1911 \<le> cot_year occ" "cot_year occ \<le> 65000" "valid_time occ" "valid_time ?e"
    using assms(3) by (auto simp: occ_wf_def valid_time_def)
  note s = find_first_week_value [OF assms(1,2), of occ]
  note e = find_first_week_value [OF assms(1,2), of ?e]
  have "valid_cot c \<and> cot_date c =
      (if n > 0 then cot_date (cal_obj_time_find_first_week G rd occ) + (n - 1) * 7
       else cot_date (cal_obj_time_find_first_week G rd ?e) + n * 7)"
    unfolding c_def u
    using add_days_near [OF s(1), of "(n - 1) * 7"] add_days_near [OF e(1), of "n * 7"] s(3) e(3) o assms(4-6)
    by auto
  then show "valid_cot c"
    and "cot_date c = (if n > 0 then first_week_start (cot_year occ) (week_start_day (rd_recur rd)) + (n - 1) * 7
       else first_week_start (cot_year occ + 1) (week_start_day (rd_recur rd)) + n * 7) + rd_weekday_offset rd"
    using s(2) e(2) o by auto
qed

lemma byweekno_expand_one_valid:
  assumes "gdate_contract G" "rd_ok rd" "occ_wf (Suc k) occ" "y \<in> set (byweekno_expand_one G rd occ)"
  shows "occ_valid k y"
proof -
  from assms(4) obtain n where n: "n \<in> set (byweekno (rd_recur rd))" "cot_year y = cot_year occ"
    "y = (if n > 0 then cal_obj_time_add_days (cal_obj_time_find_first_week G rd occ) ((n - 1) * 7)
     else cal_obj_time_add_days (cal_obj_time_find_first_week G rd (occ\<lparr>cot_year := u16 (cot_year occ + 1)\<rparr>)) (n * 7))"
    by (auto simp: byweekno_expand_one_def Let_def)
  have "n \<noteq> 0" "-53 \<le> n" "n \<le> 53" using n(1) assms(2) by (auto simp: rd_ok_def recur_ok_def)
  then have "valid_cot y" unfolding n(3) by (intro byweekno_cotime(1) [OF assms(1-3)])
  moreover have "occ_wf k occ" using assms(3) by (rule occ_wf_mono) simp
  ultimately show ?thesis using n(2) by (intro occ_valid_same_year)
qed

interpretation byweekno_expand: occ_modifier cal_obj_byweekno_expand occ_wf occ_wf
proof
  fix G rd k x y
  assume "gdate_contract G" "rd_ok rd" "occ_wf (Suc k) x" "y \<in> set (cal_obj_byweekno_expand G rd [x])"
  then show "occ_wf k y"
    by (auto simp: cal_obj_byweekno_expand_def split: if_splits
        intro: occ_wf_mono occ_valid_wf byweekno_expand_one_valid)
qed (auto simp: cal_obj_byweekno_expand_def)

section \<open>BYDAY expansion in a week\<close>

text \<open>
  Each element of the list moves the occurrence inside its week: \<open>ws\<close> is the day number of the
  start of that week, which no move changes.
\<close>

lemma week_offset:
  assumes "(ws - 1 - wk) mod 7 = 0" "ws \<le> d" "d < ws + 7"
  shows "(d - 1 - wk) mod 7 = d - (ws::int)"
proof -
  have "(d - 1 - wk) mod 7 = ((d - ws) + (ws - 1 - wk)) mod 7" by (simp add: algebra_simps)
  also have "\<dots> = (d - ws) mod 7" by (metis add.right_neutral assms(1) mod_add_right_eq)
  finally show ?thesis using assms(2,3) by simp
qed

lemma week_start:
  fixes d wk :: int
  defines "ws \<equiv> d - (d - 1 - wk) mod 7"
  shows "(ws - 1 - wk) mod 7 = 0" and "ws \<le> d" and "d < ws + 7"
proof -
  have "ws - 1 - wk = (d - 1 - wk) - (d - 1 - wk) mod 7" by (simp add: ws_def)
  then show "(ws - 1 - wk) mod 7 = 0" by (simp only: minus_mod_eq_mult_div) simp
  show "ws \<le> d" "d < ws + 7"
    using pos_mod_sign [of 7 "d - 1 - wk"] pos_mod_bound [of 7 "d - 1 - wk"] by (simp_all add: ws_def)
qed

lemma byday_weekly_loop_dates:
  assumes G: "gdate_contract G" and wk: "0 \<le> wk" "wk < 7"
    and ws: "(ws - 1 - wk) mod 7 = 0"
    and el: "\<forall>(w, n) \<in> set elems. 0 \<le> w \<and> w < 7"
    and occ: "valid_cot occ" "ws \<le> cot_date occ" "cot_date occ < ws + 7"
    and room: "\<forall>t. valid_cot t \<and> ws \<le> cot_date t \<and> cot_date t < ws + 7 \<longrightarrow>
      1905 \<le> cot_year t \<and> cot_year t \<le> 65530"
  shows "(\<forall>t \<in> set (byday_weekly_loop G wk elems occ). valid_cot t \<and> ws \<le> cot_date t \<and> cot_date t < ws + 7)
    \<and> map cot_date (byday_weekly_loop G wk elems occ) = map (\<lambda>(w, n). ws + (w - wk) mod 7) elems"
  using el occ
proof (induction elems arbitrary: occ)
  case Nil
  then show ?case by simp
next
  case (Cons e elems)
  obtain w n where e: "e = (w, n)" by (cases e)
  have w: "0 \<le> w" "w < 7" using Cons.prems(1) by (auto simp: e)
  have "(cot_date occ - 1 - wk) mod 7 = cot_date occ - ws"
    using ws Cons.prems(3,4) by (intro week_offset) auto
  then have off: "cal_obj_time_weekday_offset G occ wk = cot_date occ - ws"
    using gdate_contract.weekday_offset_value [OF G _ wk] Cons.prems(2) by (simp add: valid_cot_def)
  have new: "(w + 7 - wk) smod 7 = (w - wk) mod 7"
    using w wk by (intro plus_week_smod) auto
  define o' where "o' = cal_obj_time_add_days occ ((w - wk) mod 7 - (cot_date occ - ws))"
  have r: "1905 \<le> cot_year occ" "cot_year occ \<le> 65530" using room Cons.prems(2-4) by auto
  have "\<bar>(w - wk) mod 7 - (cot_date occ - ws)\<bar> \<le> 800"
    using Cons.prems(3,4) pos_mod_bound [of 7 "w - wk"] pos_mod_sign [of 7 "w - wk"] by linarith
  from add_days_near [OF Cons.prems(2) r this]
  have o': "valid_cot o'" "cot_date o' = ws + (w - wk) mod 7" unfolding o'_def by simp_all
  have "ws \<le> cot_date o'" "cot_date o' < ws + 7" using o'(2) by simp_all
  moreover have "\<forall>(w, n) \<in> set elems. 0 \<le> w \<and> w < 7" using Cons.prems(1) by simp
  ultimately show ?case using Cons.IH [OF _ o'(1)] o'
    by (simp add: e off new o'_def [symmetric] Let_def)
qed

lemma byday_weekly_valid:
  assumes "gdate_contract G" "rd_ok rd" "occ_valid (Suc k) occ"
    "y \<in> set (byday_weekly_loop G (week_start_day (rd_recur rd)) (byday (rd_recur rd)) occ)"
  shows "occ_valid k y"
proof -
  let ?wk = "week_start_day (rd_recur rd)"
  define ws where "ws = cot_date occ - (cot_date occ - 1 - ?wk) mod 7"
  have wk: "0 \<le> ?wk" "?wk < 7" using assms(2) by (auto simp: rd_ok_def recur_ok_def)
  have v: "valid_cot occ" using assms(3) by (rule occ_valid_cot)
  have ws: "(ws - 1 - ?wk) mod 7 = 0" "ws \<le> cot_date occ" "cot_date occ < ws + 7"
    unfolding ws_def by (rule week_start)+
  have near: "\<bar>cot_year t - cot_year occ\<bar> \<le> 1"
    if "valid_cot t" "ws \<le> cot_date t" "cot_date t < ws + 7" for t
    using year_shift [of occ t] that v ws(2,3) by (simp add: valid_cot_def)
  have el: "\<forall>(w, n) \<in> set (byday (rd_recur rd)). 0 \<le> w \<and> w < 7"
    using assms(2) by (auto simp: rd_ok_def recur_ok_def)
  have y: "1911 + int k \<le> cot_year occ" "cot_year occ \<le> 64999 - int k"
    using assms(3) by (auto simp: occ_valid_def occ_wf_def)
  have room: "\<forall>t. valid_cot t \<and> ws \<le> cot_date t \<and> cot_date t < ws + 7 \<longrightarrow>
      1905 \<le> cot_year t \<and> cot_year t \<le> 65530"
    using near y by force
  have "valid_cot y \<and> ws \<le> cot_date y \<and> cot_date y < ws + 7"
    using byday_weekly_loop_dates [OF assms(1) wk ws(1) el v ws(2,3) room] assms(4) by blast
  then show ?thesis using near [of y] y by (intro valid_cot_occ) auto
qed

interpretation byday_expand_weekly: occ_modifier cal_obj_byday_expand_weekly occ_valid occ_valid
proof
  fix G rd k x y
  assume "gdate_contract G" "rd_ok rd" "occ_valid (Suc k) x" "y \<in> set (cal_obj_byday_expand_weekly G rd [x])"
  then show "occ_valid k y"
    by (auto simp: cal_obj_byday_expand_weekly_def split: if_splits intro: occ_valid_mono byday_weekly_valid)
qed (auto simp: cal_obj_byday_expand_weekly_def)

end
