(* ===== verification/Recur_ByDay.thy ===== *)
theory Recur_ByDay
  imports Recur_Modifier_Laws
begin

text \<open>
  BYDAY in a month or a year, against the reference \<open>nth_weekday\<close>: the days of a period that fall
  on a weekday, all of them, the \<open>n\<close>-th from the start, or the \<open>n\<close>-th from the end. The monthly
  expansion computes exactly this set. The yearly expansion does so for week numbers that are not
  negative; for a negative one its offset has the wrong sign and it never yields a day.
\<close>

definition nth_weekday :: "int \<Rightarrow> int \<Rightarrow> int \<Rightarrow> int \<Rightarrow> int set" where
  "nth_weekday first final w n =
     {d. first \<le> d \<and> d \<le> final \<and> (d - 1) mod 7 = w
       \<and> (n > 0 \<longrightarrow> (d - first) div 7 = n - 1) \<and> (n < 0 \<longrightarrow> (final - d) div 7 = - n - 1)}"

section \<open>Weekday arithmetic\<close>

lemma residue_iff:
  assumes "0 \<le> r" "r < 7" "0 \<le> w" "w < (7::int)"
  shows "(a + r) mod 7 = w \<longleftrightarrow> r = (w - a) mod 7"
proof
  assume "(a + r) mod 7 = w"
  then have "(w - a) mod 7 = (a + r - a) mod 7" by (metis mod_diff_left_eq)
  then show "r = (w - a) mod 7" using assms by simp
next
  assume "r = (w - a) mod 7"
  then have "(a + r) mod 7 = (a + (w - a)) mod 7" by (simp add: mod_add_right_eq)
  then show "(a + r) mod 7 = w" using assms by simp
qed

lemma weekday_progression:
  assumes "0 \<le> w" "w < (7::int)" "first \<le> d" and q: "(d - first) div 7 = q"
  shows "(d - 1) mod 7 = w \<longleftrightarrow> d = first + (w - (first - 1)) mod 7 + 7 * q"
proof -
  define r where "r = (d - first) mod 7"
  have d: "d - first = 7 * q + r" by (simp add: r_def q [symmetric])
  have "(d - 1) mod 7 = (first - 1 + r) mod 7"
  proof -
    have "d - 1 = (first - 1 + r) + 7 * q" using d by simp
    then show ?thesis by (simp only: mod_mult_self2)
  qed
  also have "\<dots> = w \<longleftrightarrow> r = (w - (first - 1)) mod 7"
    using assms by (intro residue_iff) (auto simp: r_def)
  finally show ?thesis using d by auto
qed

lemma weekday_regression:
  assumes "0 \<le> w" "w < (7::int)" "d \<le> final" and q: "(final - d) div 7 = q"
  shows "(d - 1) mod 7 = w \<longleftrightarrow> d = final - (final - 1 - w) mod 7 - 7 * q"
proof -
  define r where "r = (final - d) mod 7"
  have d: "final - d = 7 * q + r" by (simp add: r_def q [symmetric])
  have r: "0 \<le> r" "r < 7" by (auto simp: r_def)
  have e: "(d - 1) mod 7 = (final - 1 - r) mod 7"
  proof -
    have "final - 1 - r = (d - 1) + 7 * q" using d by simp
    then show ?thesis by (simp only: mod_mult_self2)
  qed
  have "(d - 1) mod 7 = w \<longleftrightarrow> r = (final - 1 - w) mod 7"
  proof
    assume "(d - 1) mod 7 = w"
    then have "(final - 1 - w) mod 7 = (final - 1 - (final - 1 - r)) mod 7" by (metis e mod_diff_right_eq)
    then show "r = (final - 1 - w) mod 7" using r by simp
  next
    assume "r = (final - 1 - w) mod 7"
    then have "(final - 1 - r) mod 7 = (final - 1 - (final - 1 - w)) mod 7" by (simp add: mod_diff_right_eq)
    then show "(d - 1) mod 7 = w" using e assms by simp
  qed
  then show ?thesis using d by auto
qed

lemma nth_weekday_pos:
  assumes "0 \<le> w" "w < 7" "0 < n"
  shows "nth_weekday first final w n =
    (let d = first + (w - (first - 1)) mod 7 + (n - 1) * 7 in if d \<le> final then {d} else {})"
proof -
  define f where "f = (w - (first - 1)) mod 7"
  have f: "0 \<le> f" "f < 7" by (auto simp: f_def)
  have "d \<in> nth_weekday first final w n \<longleftrightarrow> d = first + f + 7 * (n - 1) \<and> d \<le> final" for d
  proof
    assume "d \<in> nth_weekday first final w n"
    then have d: "first \<le> d" "(d - first) div 7 = n - 1" "(d - 1) mod 7 = w" "d \<le> final"
      using assms(3) by (simp_all add: nth_weekday_def)
    have "d = first + f + 7 * (n - 1)" unfolding f_def
      by (rule weekday_progression [OF assms(1,2) d(1,2), THEN iffD1, OF d(3)])
    with d(4) show "d = first + f + 7 * (n - 1) \<and> d \<le> final" by blast
  next
    assume d: "d = first + f + 7 * (n - 1) \<and> d \<le> final"
    then have "first \<le> d" "d \<le> final" using f assms(3) by simp_all
    moreover have q: "(d - first) div 7 = n - 1" using d f by simp
    moreover have "(d - 1) mod 7 = w"
      using weekday_progression [OF assms(1,2) calculation(1) q] d by (simp add: f_def)
    ultimately show "d \<in> nth_weekday first final w n" using assms(3) by (simp add: nth_weekday_def)
  qed
  then have "nth_weekday first final w n = {d. d = first + f + 7 * (n - 1) \<and> d \<le> final}" by blast
  also have "\<dots> = (if first + f + 7 * (n - 1) \<le> final then {first + f + 7 * (n - 1)} else {})" by auto
  finally show ?thesis by (simp add: f_def Let_def mult.commute)
qed

lemma nth_weekday_neg:
  assumes "0 \<le> w" "w < 7" "n < 0"
  shows "nth_weekday first final w n =
    (let d = final - (final - 1 - w) mod 7 - (- n - 1) * 7 in if first \<le> d then {d} else {})"
proof -
  define f where "f = (final - 1 - w) mod 7"
  have f: "0 \<le> f" "f < 7" by (auto simp: f_def)
  have "d \<in> nth_weekday first final w n \<longleftrightarrow> d = final - f - 7 * (- n - 1) \<and> first \<le> d" for d
  proof
    assume "d \<in> nth_weekday first final w n"
    then have d: "d \<le> final" "(final - d) div 7 = - n - 1" "(d - 1) mod 7 = w" "first \<le> d"
      using assms(3) by (simp_all add: nth_weekday_def)
    have "d = final - f - 7 * (- n - 1)" unfolding f_def
      by (rule weekday_regression [OF assms(1,2) d(1,2), THEN iffD1, OF d(3)])
    with d(4) show "d = final - f - 7 * (- n - 1) \<and> first \<le> d" by blast
  next
    assume d: "d = final - f - 7 * (- n - 1) \<and> first \<le> d"
    then have "d \<le> final" "first \<le> d" using f assms(3) by simp_all
    moreover have q: "(final - d) div 7 = - n - 1"
    proof -
      have "final - d = f + 7 * (- n - 1)" using d by simp
      then show ?thesis using f by simp
    qed
    moreover have "(d - 1) mod 7 = w"
      using weekday_regression [OF assms(1,2) calculation(1) q] d by (simp add: f_def)
    ultimately show "d \<in> nth_weekday first final w n" using assms(3) by (simp add: nth_weekday_def)
  qed
  then have "nth_weekday first final w n = {d. d = final - f - 7 * (- n - 1) \<and> first \<le> d}" by blast
  also have "\<dots> = (if first \<le> final - f - 7 * (- n - 1) then {final - f - 7 * (- n - 1)} else {})" by auto
  finally show ?thesis by (simp add: f_def Let_def mult.commute)
qed

lemma nth_weekday_every:
  assumes "0 \<le> w" "w < 7" "final < first + 7 * int k"
  shows "nth_weekday first final w 0 =
    {d. \<exists>i<k. d = first + (w - (first - 1)) mod 7 + 7 * int i \<and> d \<le> final}"
proof (intro set_eqI iffI)
  fix d assume "d \<in> nth_weekday first final w 0"
  then have d: "first \<le> d" "d \<le> final" "(d - 1) mod 7 = w" by (auto simp: nth_weekday_def)
  let ?q = "(d - first) div 7"
  have "0 \<le> ?q" "?q < int k" using d assms(3) by auto
  then have "nat ?q < k" "int (nat ?q) = ?q" by auto
  then show "d \<in> {d. \<exists>i<k. d = first + (w - (first - 1)) mod 7 + 7 * int i \<and> d \<le> final}"
    using weekday_progression [OF assms(1,2) d(1) refl] d by (intro CollectI exI [of _ "nat ?q"]) simp
next
  fix d assume "d \<in> {d. \<exists>i<k. d = first + (w - (first - 1)) mod 7 + 7 * int i \<and> d \<le> final}"
  then obtain i where d: "d = first + (w - (first - 1)) mod 7 + 7 * int i" "d \<le> final" by auto
  have f: "0 \<le> (w - (first - 1)) mod 7" "(w - (first - 1)) mod 7 < 7" by auto
  have "first \<le> d" using d f by simp
  moreover have "(d - first) div 7 = int i" using d f by simp
  ultimately show "d \<in> nth_weekday first final w 0"
    using d weekday_progression [OF assms(1,2), of first d "int i"] by (simp add: nth_weekday_def)
qed

section \<open>The weekly loop\<close>

lemma weeks_loop_dates:
  assumes "valid_cot t" "lo \<le> cot_date t"
    and P: "\<forall>c. valid_cot c \<longrightarrow> (P c \<longleftrightarrow> lo \<le> cot_date c \<and> cot_date c \<le> hi)"
    and room: "\<forall>c. valid_cot c \<and> P c \<longrightarrow> 1905 \<le> cot_year c \<and> cot_year c \<le> 65530"
  shows "(\<forall>c \<in> set (fst (weeks_loop n P t)). valid_cot c \<and> P c)
    \<and> cot_date ` set (fst (weeks_loop n P t)) = {d. \<exists>i<n. d = cot_date t + 7 * int i \<and> d \<le> hi}"
  using assms(1,2)
proof (induction n arbitrary: t)
  case 0
  then show ?case by simp
next
  case (Suc n)
  show ?case
  proof (cases "P t")
    case False
    then have "hi < cot_date t" using P Suc.prems by auto
    then show ?thesis using False by auto
  next
    case True
    let ?t = "cal_obj_time_add_days t 7"
    have t: "valid_cot ?t" "cot_date ?t = cot_date t + 7"
      using add_days_near [OF Suc.prems(1), of 7] room True Suc.prems(1) by auto
    have hi: "cot_date t \<le> hi" using P True Suc.prems by auto
    have "{d. \<exists>i<Suc n. d = cot_date t + 7 * int i \<and> d \<le> hi}
        = insert (cot_date t) {d. \<exists>i<n. d = cot_date ?t + 7 * int i \<and> d \<le> hi}"
      using hi t(2) by (auto simp: less_Suc_eq_0_disj)
    moreover have "lo \<le> cot_date ?t" using t(2) Suc.prems(2) by simp
    ultimately show ?thesis using Suc.IH [OF t(1)] True Suc.prems(1)
      by (auto simp: case_prod_unfold Let_def)
  qed
qed

text \<open>The fuel of \<^const>\<open>weeks_loop\<close> is enough: past the end of the period, more of it changes nothing.\<close>

lemma weeks_loop_enough:
  assumes "valid_cot t" "lo \<le> cot_date t"
    and P: "\<forall>c. valid_cot c \<longrightarrow> (P c \<longleftrightarrow> lo \<le> cot_date c \<and> cot_date c \<le> hi)"
    and room: "\<forall>c. valid_cot c \<and> P c \<longrightarrow> 1905 \<le> cot_year c \<and> cot_year c \<le> 65530"
    and "hi < cot_date t + 7 * int n"
  shows "weeks_loop (n + j) P t = weeks_loop n P t"
  using assms(1,2,5)
proof (induction n arbitrary: t)
  case 0
  then have "\<not> P t" using P by auto
  then show ?case by (cases j) simp_all
next
  case (Suc n)
  show ?case
  proof (cases "P t")
    case True
    let ?t = "cal_obj_time_add_days t 7"
    have "valid_cot ?t" "cot_date ?t = cot_date t + 7"
      using add_days_near [OF Suc.prems(1), of 7] room True Suc.prems(1) by auto
    then have "weeks_loop (n + j) P ?t = weeks_loop n P ?t"
      using Suc.prems by (intro Suc.IH) auto
    then show ?thesis using True by simp
  qed simp
qed

section \<open>Periods as intervals of day numbers\<close>

lemma in_month_iff:
  assumes "valid_cot c" "1900 \<le> y" "y < 65536" "0 \<le> m" "m < 12"
  shows "cot_year c = y \<and> cot_month c = m \<longleftrightarrow>
    rata_die y m 1 \<le> cot_date c \<and> cot_date c \<le> rata_die y m (time_days_in_month y m)"
proof -
  have c: "cot_date_ok c" using assms(1) by (simp add: valid_cot_def)
  have d: "28 \<le> time_days_in_month y m" using assms by (simp add: time_days_in_month_pos)
  have f: "valid_date y m 1" and l: "valid_date y m (time_days_in_month y m)"
    using assms(2-5) d by (auto simp: valid_date_def)
  show ?thesis
    using rata_die_less_iff [OF c f] rata_die_less_iff [OF l c] c
    unfolding cot_date_def not_less [symmetric] by (auto simp: valid_date_def)
qed

lemma in_year_iff:
  assumes "valid_cot c" "1900 \<le> y" "y < 65536"
  shows "cot_year c = y \<longleftrightarrow> rata_die y 0 1 \<le> cot_date c \<and> cot_date c \<le> rata_die y 11 31"
proof -
  have c: "cot_date_ok c" using assms(1) by (simp add: valid_cot_def)
  have f: "valid_date y 0 1" and l: "valid_date y 11 31"
    using assms(2,3) by (auto simp: valid_date_def time_days_in_month_cases)
  have "cot_day c \<le> 31" using c time_days_in_month_le [of "cot_year c" "cot_month c"] by (simp add: valid_date_def)
  then show ?thesis
    using rata_die_less_iff [OF c f] rata_die_less_iff [OF l c] c
    unfolding cot_date_def not_less [symmetric] by (auto simp: valid_date_def)
qed

text \<open>
  A period in which BYDAY counts: its first and last day as times \<open>f\<close> and \<open>l\<close>, and the test the
  code uses to see whether a time is in it. The three branches of the C code are treated once
  for every period.
\<close>

definition byday_period ::
    "cal_obj_time \<Rightarrow> cal_obj_time \<Rightarrow> (cal_obj_time \<Rightarrow> bool) \<Rightarrow> bool" where
  "byday_period f l inp \<longleftrightarrow> valid_cot f \<and> valid_cot l \<and> 1906 \<le> cot_year f \<and> cot_year f \<le> 65530
     \<and> 1906 \<le> cot_year l \<and> cot_year l \<le> 65530 \<and> cot_date f \<le> cot_date l
     \<and> (\<forall>c. valid_cot c \<longrightarrow> (inp c \<longleftrightarrow> cot_date f \<le> cot_date c \<and> cot_date c \<le> cot_date l))
     \<and> (\<forall>c. valid_cot c \<and> inp c \<longrightarrow> 1905 \<le> cot_year c \<and> cot_year c \<le> 65530)"

lemma first_offset:
  assumes "gdate_contract G" "valid_cot f" "0 \<le> w" "w < 7"
  shows "(w + 7 - cal_obj_time_weekday G f) smod 7 = (w - (cot_date f - 1)) mod 7"
proof -
  have "cal_obj_time_weekday G f = (cot_date f - 1) mod 7"
    using gdate_contract.weekday_value [OF assms(1)] assms(2) by (simp add: valid_cot_def)
  moreover have "(cot_date f - 1) mod 7 < 7" by simp
  ultimately show ?thesis using assms(3) by (subst plus_week_smod) (auto simp: mod_diff_right_eq)
qed

lemma last_offset:
  assumes "gdate_contract G" "valid_cot l" "0 \<le> w" "w < 7"
  shows "(cal_obj_time_weekday G l + 7 - w) smod 7 = (cot_date l - 1 - w) mod 7"
proof -
  have "cal_obj_time_weekday G l = (cot_date l - 1) mod 7"
    using gdate_contract.weekday_value [OF assms(1)] assms(2) by (simp add: valid_cot_def)
  moreover have "0 \<le> (cot_date l - 1) mod 7" by simp
  ultimately show ?thesis using assms(4) by (subst plus_week_smod) (auto simp: mod_diff_left_eq)
qed

lemma byday_every:
  assumes "byday_period f l inp" "0 \<le> w" "w < 7" "cot_date l < cot_date f + 7 * int k"
  defines "out \<equiv> fst (weeks_loop k inp (cal_obj_time_add_days f ((w - (cot_date f - 1)) mod 7)))"
  shows "cot_date ` set out = nth_weekday (cot_date f) (cot_date l) w 0" "\<forall>c \<in> set out. valid_cot c \<and> inp c"
proof -
  define p where "p = (w - (cot_date f - 1)) mod 7"
  let ?s = "cal_obj_time_add_days f p"
  have p: "0 \<le> p" "p < 7" by (auto simp: p_def)
  have s: "valid_cot ?s" "cot_date ?s = cot_date f + p"
    using add_days_near [of f p] assms(1) p by (auto simp: byday_period_def)
  have lo: "cot_date f \<le> cot_date ?s" using s(2) p by simp
  note wl = weeks_loop_dates [OF s(1) lo, where P = inp and hi = "cot_date l" and n = k]
  have "(\<forall>c \<in> set out. valid_cot c \<and> inp c)
      \<and> cot_date ` set out = {d. \<exists>i<k. d = cot_date f + p + 7 * int i \<and> d \<le> cot_date l}"
    using wl assms(1) s(2) unfolding out_def p_def [symmetric] byday_period_def by simp
  then show "cot_date ` set out = nth_weekday (cot_date f) (cot_date l) w 0" "\<forall>c \<in> set out. valid_cot c \<and> inp c"
    using nth_weekday_every [OF assms(2-4)] by (simp_all add: p_def)
qed

lemma byday_from_start:
  assumes "byday_period f l inp" "0 \<le> w" "w < 7" "0 < n" "n \<le> 53"
  defines "s \<equiv> cal_obj_time_add_days f ((w - (cot_date f - 1)) mod 7 + (n - 1) * 7)"
  shows "cot_date ` set (if inp s then [s] else []) = nth_weekday (cot_date f) (cot_date l) w n" "valid_cot s"
proof -
  define p where "p = (w - (cot_date f - 1)) mod 7"
  have p: "0 \<le> p" "p < 7" by (auto simp: p_def)
  have s: "valid_cot s" "cot_date s = cot_date f + p + (n - 1) * 7"
    using add_days_near [of f "p + (n - 1) * 7"] assms(1,4,5) p
    by (auto simp: byday_period_def s_def p_def [symmetric])
  have "inp s \<longleftrightarrow> cot_date f + p + (n - 1) * 7 \<le> cot_date l"
    using assms(1,4) s p by (auto simp: byday_period_def)
  then show "cot_date ` set (if inp s then [s] else []) = nth_weekday (cot_date f) (cot_date l) w n"
    using s(2) nth_weekday_pos [OF assms(2-4), of "cot_date f" "cot_date l"] by (simp add: Let_def p_def [symmetric])
  show "valid_cot s" by (rule s(1))
qed

lemma byday_from_end:
  assumes "byday_period f l inp" "0 \<le> w" "w < 7" "n < 0" "-53 \<le> n"
  defines "s \<equiv> cal_obj_time_add_days l (- ((cot_date l - 1 - w) mod 7 + (- n - 1) * 7))"
  shows "cot_date ` set (if inp s then [s] else []) = nth_weekday (cot_date f) (cot_date l) w n" "valid_cot s"
proof -
  define p where "p = (cot_date l - 1 - w) mod 7"
  have p: "0 \<le> p" "p < 7" by (auto simp: p_def)
  have s: "valid_cot s" "cot_date s = cot_date l - p - (- n - 1) * 7"
    using add_days_near [of l "- (p + (- n - 1) * 7)"] assms(1,4,5) p
    by (auto simp: byday_period_def s_def p_def [symmetric])
  have "inp s \<longleftrightarrow> cot_date f \<le> cot_date l - p - (- n - 1) * 7"
    using assms(1,4) s p by (auto simp: byday_period_def)
  then show "cot_date ` set (if inp s then [s] else []) = nth_weekday (cot_date f) (cot_date l) w n"
    using s(2) nth_weekday_neg [OF assms(2-4), of "cot_date f" "cot_date l"] by (simp add: Let_def p_def [symmetric])
  show "valid_cot s" by (rule s(1))
qed

section \<open>BYDAY in a month\<close>

lemma add_days_form: "\<exists>y m d. cal_obj_time_add_days t n = t\<lparr>cot_year := y, cot_month := m, cot_day := d\<rparr>"
  by (auto simp: cal_obj_time_add_days_def Let_def split: prod.splits)

lemma weeks_loop_form:
  "\<exists>y m d. snd (weeks_loop n P t) = t\<lparr>cot_year := y, cot_month := m, cot_day := d\<rparr>"
proof (induction n arbitrary: t)
  case 0
  show ?case by (rule exI [of _ "cot_year t"], rule exI [of _ "cot_month t"], rule exI [of _ "cot_day t"]) simp
next
  case (Suc n)
  obtain y m d where "cal_obj_time_add_days t 7 = t\<lparr>cot_year := y, cot_month := m, cot_day := d\<rparr>"
    using add_days_form by blast
  moreover have "\<exists>y m d. t = t\<lparr>cot_year := y, cot_month := m, cot_day := d\<rparr>"
    by (rule exI [of _ "cot_year t"], rule exI [of _ "cot_month t"], rule exI [of _ "cot_day t"]) simp
  ultimately show ?case using Suc [of "cal_obj_time_add_days t 7"]
    by (auto simp: case_prod_unfold Let_def)
qed

lemma byday_monthly_loop_day: "byday_monthly_loop G elems (occ\<lparr>cot_day := d\<rparr>) = byday_monthly_loop G elems occ"
  by (cases elems) (auto simp: Let_def)

lemma byday_monthly_loop_Cons:
  "byday_monthly_loop G (e # elems) occ = byday_monthly_loop G [e] occ @ byday_monthly_loop G elems occ"
proof -
  obtain w n where e: "e = (w, n)" by (cases e)
  have r: "byday_monthly_loop G elems (c\<lparr>cot_year := cot_year occ, cot_month := cot_month occ\<rparr>) = byday_monthly_loop G elems occ"
    if "\<exists>y m d. c = occ\<lparr>cot_year := y, cot_month := m, cot_day := d\<rparr>" for c
  proof -
    from that obtain d where "c\<lparr>cot_year := cot_year occ, cot_month := cot_month occ\<rparr> = occ\<lparr>cot_day := d\<rparr>" by auto
    then show ?thesis by (simp only: byday_monthly_loop_day)
  qed
  have a: "\<exists>y m d. cal_obj_time_add_days (occ\<lparr>cot_day := x\<rparr>) k = occ\<lparr>cot_year := y, cot_month := m, cot_day := d\<rparr>" for x k
    using add_days_form [of "occ\<lparr>cot_day := x\<rparr>" k] by auto
  have b: "\<exists>y m d. snd (weeks_loop j P (cal_obj_time_add_days (occ\<lparr>cot_day := x\<rparr>) k))
      = occ\<lparr>cot_year := y, cot_month := m, cot_day := d\<rparr>" for x k j P
    using weeks_loop_form [of j P "cal_obj_time_add_days (occ\<lparr>cot_day := x\<rparr>) k"] a [of x k]
    by (elim exE) (simp, blast)
  show ?thesis by (simp add: e Let_def case_prod_unfold r a b)
qed

lemma month_period:
  assumes "occ_wf k occ"
  shows "byday_period (occ\<lparr>cot_day := 1\<rparr>) (occ\<lparr>cot_day := u8 (time_days_in_month (cot_year occ) (cot_month occ))\<rparr>)
    (\<lambda>c. cot_year c = cot_year occ \<and> cot_month c = cot_month occ)"
proof -
  let ?y = "cot_year occ" and ?m = "cot_month occ"
  let ?dim = "time_days_in_month ?y ?m"
  have ym: "1910 \<le> ?y" "?y \<le> 65000" "0 \<le> ?m" "?m < 12" using assms by (auto simp: occ_wf_def)
  have dim: "28 \<le> ?dim" "?dim \<le> 31" using ym time_days_in_month_pos time_days_in_month_le by auto
  let ?f = "occ\<lparr>cot_day := 1\<rparr>" and ?l = "occ\<lparr>cot_day := u8 ?dim\<rparr>"
  have v: "valid_cot ?f" "valid_cot ?l"
    using occ_valid_cot [OF month_first_valid [OF assms]] occ_valid_cot [OF month_last_valid [OF assms]]
    by simp_all
  have d: "cot_date ?f = rata_die ?y ?m 1" "cot_date ?l = rata_die ?y ?m ?dim" "cot_date ?f \<le> cot_date ?l"
    using dim by (simp_all add: cot_date_def rata_die_def)
  have "\<forall>c. valid_cot c \<longrightarrow> (cot_year c = ?y \<and> cot_month c = ?m \<longleftrightarrow>
      cot_date ?f \<le> cot_date c \<and> cot_date c \<le> cot_date ?l)"
  proof (intro allI impI)
    fix c assume c: "valid_cot c"
    show "cot_year c = ?y \<and> cot_month c = ?m \<longleftrightarrow> cot_date ?f \<le> cot_date c \<and> cot_date c \<le> cot_date ?l"
      unfolding d(1,2) by (rule in_month_iff [OF c]) (rule ym | (use ym in linarith))+
  qed
  then show ?thesis unfolding byday_period_def using v d(3) ym by simp
qed

lemma byday_monthly_one:
  assumes G: "gdate_contract G" and occ: "occ_wf k occ" and w: "0 \<le> w" "w < 7" and n: "-53 \<le> n" "n \<le> 53"
  defines "f \<equiv> occ\<lparr>cot_day := 1\<rparr>"
    and "l \<equiv> occ\<lparr>cot_day := u8 (time_days_in_month (cot_year occ) (cot_month occ))\<rparr>"
  shows "cot_date ` set (byday_monthly_loop G [(w, n)] occ) = nth_weekday (cot_date f) (cot_date l) w n
    \<and> (\<forall>c \<in> set (byday_monthly_loop G [(w, n)] occ).
         valid_cot c \<and> cot_year c = cot_year occ \<and> cot_month c = cot_month occ)"
proof -
  let ?in = "\<lambda>c. cot_year c = cot_year occ \<and> cot_month c = cot_month occ"
  have P: "byday_period f l ?in" using month_period [OF occ] by (simp add: f_def l_def)
  have fl: "valid_cot f" "valid_cot l" using P by (auto simp: byday_period_def)
  have dim: "28 \<le> time_days_in_month (cot_year occ) (cot_month occ)"
    "time_days_in_month (cot_year occ) (cot_month occ) \<le> 31"
    using occ time_days_in_month_pos time_days_in_month_le by (auto simp: occ_wf_def)
  have len: "cot_date l < cot_date f + 7 * int 6" using dim by (simp add: f_def l_def cot_date_def rata_die_def)
  note fo = first_offset [OF G fl(1) w] and lo = last_offset [OF G fl(2) w]
  note ev = byday_every [OF P w len]
  note st = byday_from_start [OF P w] and en = byday_from_end [OF P w]
  consider "n = 0" | "0 < n" | "n < 0" by linarith
  then show ?thesis
  proof cases
    case 1
    have e: "byday_monthly_loop G [(w, n)] occ =
        fst (weeks_loop 6 ?in (cal_obj_time_add_days f ((w - (cot_date f - 1)) mod 7)))"
      using 1 by (simp add: f_def [symmetric] fo case_prod_unfold Let_def)
    show ?thesis unfolding e unfolding 1 using ev by (rule conjI)
  next
    case 2
    let ?s = "cal_obj_time_add_days f ((w - (cot_date f - 1)) mod 7 + (n - 1) * 7)"
    have "byday_monthly_loop G [(w, n)] occ = (if ?in ?s then [?s] else [])"
      using 2 by (simp add: f_def [symmetric] fo Let_def)
    then show ?thesis using st [OF 2 n(2)] by (simp split: if_splits)
  next
    case 3
    let ?s = "cal_obj_time_add_days l (- ((cot_date l - 1 - w) mod 7 + (- n - 1) * 7))"
    have "byday_monthly_loop G [(w, n)] occ = (if ?in ?s then [?s] else [])"
      using 3 by (simp add: l_def [symmetric] lo Let_def)
    then show ?thesis using en [OF 3 n(1)] by (simp split: if_splits)
  qed
qed

section \<open>BYDAY in a year\<close>

lemma byday_yearly_loop_day:
  "byday_yearly_loop G elems (occ\<lparr>cot_month := m, cot_day := d\<rparr>) = byday_yearly_loop G elems occ"
  by (cases elems) (auto simp: Let_def)

lemma byday_yearly_loop_Cons:
  "byday_yearly_loop G (e # elems) occ = byday_yearly_loop G [e] occ @ byday_yearly_loop G elems occ"
proof -
  obtain w n where e: "e = (w, n)" by (cases e)
  have r: "byday_yearly_loop G elems (c\<lparr>cot_year := cot_year occ\<rparr>) = byday_yearly_loop G elems occ"
    if "\<exists>y m d. c = occ\<lparr>cot_year := y, cot_month := m, cot_day := d\<rparr>" for c
  proof -
    from that obtain m d where "c\<lparr>cot_year := cot_year occ\<rparr> = occ\<lparr>cot_month := m, cot_day := d\<rparr>" by auto
    then show ?thesis by (simp only: byday_yearly_loop_day)
  qed
  have a: "\<exists>y m d. cal_obj_time_add_days (occ\<lparr>cot_month := z, cot_day := x\<rparr>) k
      = occ\<lparr>cot_year := y, cot_month := m, cot_day := d\<rparr>" for x z k
    using add_days_form [of "occ\<lparr>cot_month := z, cot_day := x\<rparr>" k] by auto
  have b: "\<exists>y m d. snd (weeks_loop j P (cal_obj_time_add_days (occ\<lparr>cot_month := z, cot_day := x\<rparr>) k))
      = occ\<lparr>cot_year := y, cot_month := m, cot_day := d\<rparr>" for x z k j P
    using weeks_loop_form [of j P "cal_obj_time_add_days (occ\<lparr>cot_month := z, cot_day := x\<rparr>) k"] a [of x z k]
    by (elim exE) (simp, blast)
  show ?thesis by (simp add: e Let_def case_prod_unfold r a b)
qed

lemma year_period:
  assumes "occ_wf k occ"
  shows "byday_period (occ\<lparr>cot_month := 0, cot_day := 1\<rparr>) (occ\<lparr>cot_month := 11, cot_day := 31\<rparr>)
    (\<lambda>c. cot_year c = cot_year occ)"
    and "cot_date (occ\<lparr>cot_month := 11, cot_day := 31\<rparr>) < cot_date (occ\<lparr>cot_month := 0, cot_day := 1\<rparr>) + 7 * int 54"
proof -
  let ?y = "cot_year occ"
  let ?f = "occ\<lparr>cot_month := 0, cot_day := 1\<rparr>" and ?l = "occ\<lparr>cot_month := 11, cot_day := 31\<rparr>"
  have y: "1910 \<le> ?y" "?y \<le> 65000" using assms by (auto simp: occ_wf_def)
  have v: "valid_cot ?f" "valid_cot ?l"
    using occ_valid_cot [OF jan_first_valid [OF assms]] occ_valid_cot [OF dec_last_valid [OF assms]]
    by simp_all
  have d: "cot_date ?f = rata_die ?y 0 1" "cot_date ?l = rata_die ?y 11 31"
    by (simp_all add: cot_date_def)
  have le: "cot_date ?f \<le> cot_date ?l"
    by (simp add: cot_date_def rata_die_def month_start_def)
  show "cot_date ?l < cot_date ?f + 7 * int 54"
    by (simp add: cot_date_def rata_die_def month_start_def)
  have "\<forall>c. valid_cot c \<longrightarrow> (cot_year c = ?y \<longleftrightarrow> cot_date ?f \<le> cot_date c \<and> cot_date c \<le> cot_date ?l)"
  proof (intro allI impI)
    fix c assume c: "valid_cot c"
    show "cot_year c = ?y \<longleftrightarrow> cot_date ?f \<le> cot_date c \<and> cot_date c \<le> cot_date ?l"
      unfolding d(1,2) by (rule in_year_iff [OF c]) (rule y | (use y in linarith))+
  qed
  then show "byday_period ?f ?l (\<lambda>c. cot_year c = cot_year occ)"
    unfolding byday_period_def using v le y by simp
qed

lemma byday_yearly_one:
  assumes G: "gdate_contract G" and occ: "occ_wf k occ" and w: "0 \<le> w" "w < 7" and n: "0 \<le> n" "n \<le> 53"
  defines "f \<equiv> occ\<lparr>cot_month := 0, cot_day := 1\<rparr>" and "l \<equiv> occ\<lparr>cot_month := 11, cot_day := 31\<rparr>"
  shows "cot_date ` set (byday_yearly_loop G [(w, n)] occ) = nth_weekday (cot_date f) (cot_date l) w n
    \<and> (\<forall>c \<in> set (byday_yearly_loop G [(w, n)] occ). valid_cot c \<and> cot_year c = cot_year occ)"
proof -
  let ?in = "\<lambda>c. cot_year c = cot_year occ"
  have P: "byday_period f l ?in" and len: "cot_date l < cot_date f + 7 * int 54"
    using year_period [OF occ] by (simp_all add: f_def l_def)
  have fl: "valid_cot f" using P by (auto simp: byday_period_def)
  note fo = first_offset [OF G fl w] and ev = byday_every [OF P w len]
  note st = byday_from_start [OF P w]
  show ?thesis
  proof (cases "n = 0")
    case True
    have e: "byday_yearly_loop G [(w, n)] occ =
        fst (weeks_loop 54 ?in (cal_obj_time_add_days f ((w - (cot_date f - 1)) mod 7)))"
      using True by (simp add: f_def [symmetric] fo case_prod_unfold Let_def)
    show ?thesis unfolding e unfolding True using ev by (rule conjI)
  next
    case False
    with n have n0: "0 < n" by simp
    let ?s = "cal_obj_time_add_days f ((w - (cot_date f - 1)) mod 7 + (n - 1) * 7)"
    have "byday_yearly_loop G [(w, n)] occ = (if ?in ?s then [?s] else [])"
      using n0 by (simp add: f_def [symmetric] fo Let_def)
    then show ?thesis using st [OF n0 n(2)] by (simp split: if_splits)
  qed
qed

lemma byday_yearly_negative:
  assumes G: "gdate_contract G" and occ: "occ_wf k occ" and w: "0 \<le> w" "w < 7" and n: "-53 \<le> n" "n < 0"
  shows "byday_yearly_loop G [(w, n)] occ = []"
proof -
  let ?l = "occ\<lparr>cot_month := 11, cot_day := 31\<rparr>"
  define p where "p = (cot_date ?l - 1 - w) mod 7"
  have p: "0 \<le> p" "p < 7" by (auto simp: p_def)
  have l: "valid_cot ?l" "1905 \<le> cot_year ?l" "cot_year ?l \<le> 65530"
    using occ_valid_cot [OF dec_last_valid [OF occ]] occ by (auto simp: occ_wf_def)
  let ?s = "cal_obj_time_add_days ?l (- (p + (n - 1) * 7))"
  have "\<bar>- (p + (n - 1) * 7)\<bar> \<le> 800" using p n by auto
  from add_days_near [OF l this] have s: "valid_cot ?s" "cot_date ?s = cot_date ?l - p - (n - 1) * 7" by simp_all
  have "0 < - p - (n - 1) * 7" using p n by auto
  then have "cot_date ?l < cot_date ?s" unfolding s(2) by simp
  then have "cot_year ?s \<noteq> cot_year occ"
    using in_year_iff [OF s(1), of "cot_year occ"] l(2,3) by (auto simp: cot_date_def)
  then show ?thesis using n last_offset [OF G l(1) w] by (simp add: p_def [symmetric] Let_def)
qed

section \<open>All the elements of a BYDAY list\<close>

definition byday_list_ok :: "(int \<times> int) list \<Rightarrow> bool" where
  "byday_list_ok elems \<longleftrightarrow> (\<forall>(w, n) \<in> set elems. 0 \<le> w \<and> w < 7 \<and> -53 \<le> n \<and> n \<le> 53)"

lemma byday_list_ok_simps [simp]:
  "byday_list_ok []"
  "byday_list_ok ((w, n) # elems) \<longleftrightarrow> 0 \<le> w \<and> w < 7 \<and> -53 \<le> n \<and> n \<le> 53 \<and> byday_list_ok elems"
  by (auto simp: byday_list_ok_def)

lemma rd_ok_byday: "rd_ok rd \<Longrightarrow> byday_list_ok (byday (rd_recur rd))"
  by (auto simp: rd_ok_def recur_ok_def byday_list_ok_def)

lemma byday_monthly_loop_valid:
  assumes "gdate_contract G" "occ_wf k occ" "byday_list_ok elems"
  shows "\<forall>c \<in> set (byday_monthly_loop G elems occ).
    valid_cot c \<and> cot_year c = cot_year occ \<and> cot_month c = cot_month occ"
  using assms(3)
proof (induction elems)
  case (Cons e elems)
  obtain w n where e: "e = (w, n)" by (cases e)
  have r: "0 \<le> w" "w < 7" "-53 \<le> n" "n \<le> 53" "byday_list_ok elems" using Cons.prems by (auto simp: e)
  show ?case
    unfolding e byday_monthly_loop_Cons [of G "(w, n)" elems] set_append ball_Un
    by (rule conjI [OF conjunct2 [OF byday_monthly_one [OF assms(1,2) r(1-4)]] Cons.IH [OF r(5)]])
qed simp

lemma byday_yearly_one_valid:
  assumes "gdate_contract G" "occ_wf k occ" "0 \<le> w" "w < 7" "-53 \<le> n" "n \<le> 53"
  shows "\<forall>c \<in> set (byday_yearly_loop G [(w, n)] occ). valid_cot c \<and> cot_year c = cot_year occ"
proof (cases "0 \<le> n")
  case True
  show ?thesis by (rule conjunct2 [OF byday_yearly_one [OF assms(1-4) True assms(6)]])
next
  case False
  then have "byday_yearly_loop G [(w, n)] occ = []" using assms by (intro byday_yearly_negative) auto
  then show ?thesis by simp
qed

lemma byday_yearly_loop_valid:
  assumes "gdate_contract G" "occ_wf k occ" "byday_list_ok elems"
  shows "\<forall>c \<in> set (byday_yearly_loop G elems occ). valid_cot c \<and> cot_year c = cot_year occ"
  using assms(3)
proof (induction elems)
  case (Cons e elems)
  obtain w n where e: "e = (w, n)" by (cases e)
  have r: "0 \<le> w" "w < 7" "-53 \<le> n" "n \<le> 53" "byday_list_ok elems" using Cons.prems by (auto simp: e)
  show ?case
    unfolding e byday_yearly_loop_Cons [of G "(w, n)" elems] set_append ball_Un
    by (rule conjI [OF byday_yearly_one_valid [OF assms(1,2) r(1-4)] Cons.IH [OF r(5)]])
qed simp

interpretation byday_expand_monthly: occ_modifier cal_obj_byday_expand_monthly occ_wf occ_wf
proof
  fix G rd k x y
  assume a: "gdate_contract G" "rd_ok rd" "occ_wf (Suc k) x" "y \<in> set (cal_obj_byday_expand_monthly G rd [x])"
  have x: "occ_wf k x" using a(3) by (rule occ_wf_mono) simp
  show "occ_wf k y"
  proof (cases "byday (rd_recur rd) = []")
    case True
    then show ?thesis using a(4) x by (simp add: cal_obj_byday_expand_monthly_def)
  next
    case False
    then have "y \<in> set (byday_monthly_loop G (byday (rd_recur rd)) x)"
      using a(4) by (simp add: cal_obj_byday_expand_monthly_def)
    from bspec [OF byday_monthly_loop_valid [OF a(1) x rd_ok_byday [OF a(2)]] this]
    have v: "valid_cot y" "cot_year y = cot_year x" by simp_all
    show ?thesis by (rule occ_valid_wf [OF occ_valid_same_year [OF v(1) x v(2)]])
  qed
qed (auto simp: cal_obj_byday_expand_monthly_def)

interpretation byday_expand_yearly: occ_modifier cal_obj_byday_expand_yearly occ_wf occ_wf
proof
  fix G rd k x y
  assume a: "gdate_contract G" "rd_ok rd" "occ_wf (Suc k) x" "y \<in> set (cal_obj_byday_expand_yearly G rd [x])"
  have x: "occ_wf k x" using a(3) by (rule occ_wf_mono) simp
  show "occ_wf k y"
  proof (cases "byday (rd_recur rd) = []")
    case True
    then show ?thesis using a(4) x by (simp add: cal_obj_byday_expand_yearly_def)
  next
    case False
    then have "y \<in> set (byday_yearly_loop G (byday (rd_recur rd)) x)"
      using a(4) by (simp add: cal_obj_byday_expand_yearly_def)
    from bspec [OF byday_yearly_loop_valid [OF a(1) x rd_ok_byday [OF a(2)]] this]
    have v: "valid_cot y" "cot_year y = cot_year x" by simp_all
    show ?thesis by (rule occ_valid_wf [OF occ_valid_same_year [OF v(1) x v(2)]])
  qed
qed (auto simp: cal_obj_byday_expand_yearly_def)

lemma byday_monthly_loop_set:
  assumes "gdate_contract G" "occ_wf k occ" "byday_list_ok elems"
  defines "f \<equiv> occ\<lparr>cot_day := 1\<rparr>"
    and "l \<equiv> occ\<lparr>cot_day := u8 (time_days_in_month (cot_year occ) (cot_month occ))\<rparr>"
  shows "cot_date ` set (byday_monthly_loop G elems occ)
    = (\<Union>(w, n) \<in> set elems. nth_weekday (cot_date f) (cot_date l) w n)"
  using assms(3)
proof (induction elems)
  case (Cons e elems)
  obtain w n where e: "e = (w, n)" by (cases e)
  have r: "0 \<le> w" "w < 7" "-53 \<le> n" "n \<le> 53" "byday_list_ok elems" using Cons.prems by (auto simp: e)
  show ?case
    unfolding e byday_monthly_loop_Cons [of G "(w, n)" elems] set_append image_Un list.set UN_insert prod.case
    by (rule arg_cong2 [where f = union, OF conjunct1 [OF byday_monthly_one [OF assms(1,2) r(1-4)]]
          Cons.IH [OF r(5)], folded f_def l_def])
qed simp

lemma byday_yearly_loop_set:
  assumes "gdate_contract G" "occ_wf k occ" "byday_list_ok elems"
  defines "f \<equiv> occ\<lparr>cot_month := 0, cot_day := 1\<rparr>" and "l \<equiv> occ\<lparr>cot_month := 11, cot_day := 31\<rparr>"
  shows "cot_date ` set (byday_yearly_loop G elems occ)
    = (\<Union>(w, n) \<in> set [e \<leftarrow> elems. 0 \<le> snd e]. nth_weekday (cot_date f) (cot_date l) w n)"
  using assms(3)
proof (induction elems)
  case (Cons e elems)
  obtain w n where e: "e = (w, n)" by (cases e)
  have r: "0 \<le> w" "w < 7" "-53 \<le> n" "n \<le> 53" "byday_list_ok elems" using Cons.prems by (auto simp: e)
  note IH = Cons.IH [OF r(5)]
  show ?case
  proof (cases "0 \<le> n")
    case True
    have "cot_date ` set (byday_yearly_loop G [(w, n)] occ) = nth_weekday (cot_date f) (cot_date l) w n"
      using byday_yearly_one [OF assms(1,2) r(1,2) True r(4)] unfolding f_def l_def by (rule conjunct1)
    then show ?thesis using IH True
      by (simp only: byday_yearly_loop_Cons [of G "(w, n)" elems] e set_append image_Un filter.simps snd_conv if_True
          list.set UN_insert prod.case)
  next
    case False
    then have "byday_yearly_loop G [(w, n)] occ = []"
      using r by (intro byday_yearly_negative [OF assms(1,2)]) auto
    then show ?thesis using IH False
      by (simp only: byday_yearly_loop_Cons [of G "(w, n)" elems] e append_Nil filter.simps snd_conv if_False)
  qed
qed simp

section \<open>Properties\<close>

text \<open>
  C22. In a month, a BYDAY rule with elements such as MO, +2TU, -1SU expands an occurrence to
  exactly the days of its month that the elements select: all the days with the weekday for a week
  number 0, the n-th one from the start for a positive and from the end for a negative week number.
\<close>

theorem byday_monthly_correct:
  assumes "gdate_contract G" "rd_ok rd" "occ_wf k occ" "byday (rd_recur rd) \<noteq> []"
  shows "cot_date ` set (cal_obj_byday_expand_monthly G rd [occ]) =
    (\<Union>(w, n) \<in> set (byday (rd_recur rd)).
      nth_weekday (rata_die (cot_year occ) (cot_month occ) 1)
        (rata_die (cot_year occ) (cot_month occ) (time_days_in_month (cot_year occ) (cot_month occ))) w n)"
proof -
  have "28 \<le> time_days_in_month (cot_year occ) (cot_month occ)"
    "time_days_in_month (cot_year occ) (cot_month occ) \<le> 31"
    using assms(3) time_days_in_month_pos time_days_in_month_le by (auto simp: occ_wf_def)
  then show ?thesis
    using byday_monthly_loop_set [OF assms(1,3) rd_ok_byday [OF assms(2)]] assms(4)
    by (simp add: cal_obj_byday_expand_monthly_def cot_date_def)
qed

definition sample_rule :: e_cal_recurrence where
  "sample_rule = \<lparr>freq = ICAL_MONTHLY_RECURRENCE, interval = 1, enddate = 0, week_start_day = 0,
     bymonth = [], byweekno = [], byyearday = [], bymonthday = [], byday = [(0, 2), (4, -1)],
     byhour = [], byminute = [], bysecond = [], bysetpos = []\<rparr>"

definition sample_occ :: cal_obj_time where
  "sample_occ = \<lparr>cot_year = 2004, cot_month = 1, cot_day = 31, cot_hour = 9, cot_minute = 30,
     cot_second = 0, cot_flags = False\<rparr>"

definition sample_data :: recur_data where
  "sample_data = cal_obj_initialize_recur_data libecal_gdate sample_rule sample_occ"

lemma sample_occ_wf: "occ_wf 5 sample_occ"
  by (simp add: sample_occ_def occ_wf_def valid_time_def)

lemma sample_data_ok: "rd_ok sample_data"
  by (simp add: rd_ok_def recur_ok_def sample_data_def sample_rule_def) (code_simp)

theorem byday_monthly_correct_witness:
  "gdate_contract libecal_gdate \<and> rd_ok sample_data \<and> occ_wf 5 sample_occ \<and>
   cot_date ` set (cal_obj_byday_expand_monthly libecal_gdate sample_data [sample_occ]) =
   (\<Union>(w, n) \<in> {(0, 2), (4, -1)}.
      nth_weekday (rata_die 2004 1 1) (rata_die 2004 1 29) w n)"
  using byday_monthly_correct [OF libecal.gdate_contract_axioms sample_data_ok sample_occ_wf]
    sample_data_ok sample_occ_wf libecal.gdate_contract_axioms
  by (simp add: sample_data_def sample_rule_def sample_occ_def time_days_in_month_cases time_is_leap_year_def)

text \<open>
  C23. In a year, a BYDAY rule expands an occurrence to exactly the days of its year that the elements
  with a week number of 0 or more select. Elements with a negative week number, which stand for the
  n-th weekday from the end of the year, select no day at all: the offset is computed with
  (week_num - 1) * 7 where the monthly function has (-week_num - 1) * 7, and moves into the next year.
\<close>

theorem byday_yearly_correct:
  assumes "gdate_contract G" "rd_ok rd" "occ_wf k occ" "byday (rd_recur rd) \<noteq> []"
  shows "cot_date ` set (cal_obj_byday_expand_yearly G rd [occ]) =
    (\<Union>(w, n) \<in> set [e \<leftarrow> byday (rd_recur rd). 0 \<le> snd e].
      nth_weekday (rata_die (cot_year occ) 0 1) (rata_die (cot_year occ) 11 31) w n)"
  using byday_yearly_loop_set [OF assms(1,3) rd_ok_byday [OF assms(2)]] assms(4)
  by (simp add: cal_obj_byday_expand_yearly_def cot_date_def)

theorem byday_yearly_correct_witness:
  "gdate_contract libecal_gdate \<and> rd_ok sample_data \<and> occ_wf 5 sample_occ \<and>
   cot_date ` set (cal_obj_byday_expand_yearly libecal_gdate sample_data [sample_occ]) =
   nth_weekday (rata_die 2004 0 1) (rata_die 2004 11 31) 0 2"
  using byday_yearly_correct [OF libecal.gdate_contract_axioms sample_data_ok sample_occ_wf]
    sample_data_ok sample_occ_wf libecal.gdate_contract_axioms
  by (simp add: sample_data_def sample_rule_def sample_occ_def)

end
