(* ===== verification/Recur_Sets.thy ===== *)
theory Recur_Sets
  imports Recur_ByDay
begin

text \<open>
  The arrays of occurrences: sorting, the pass that removes duplicates and moves invalid dates,
  the removal of exceptions and the BYSETPOS filter. Arrays compacted in place (the kept elements
  move down to index \<open>j \<le> i\<close>) are lists; the flag that the exception pass writes to the
  last kept element is an update of the head of the reversed list of kept elements.
\<close>

text \<open>
  \<^verbatim>\<open>qsort\<close> of the C library. The C standard leaves the order of elements that compare equal open;
  this definition keeps it, as the merge sort of the GNU C library does. No theorem below depends
  on that order.
\<close>

fun qsort_insert :: "('a \<Rightarrow> 'a \<Rightarrow> int) \<Rightarrow> 'a \<Rightarrow> 'a list \<Rightarrow> 'a list" where
  "qsort_insert cmp x [] = [x]"
| "qsort_insert cmp x (y # ys) = (if cmp x y \<le> 0 then x # y # ys else y # qsort_insert cmp x ys)"

definition qsort :: "('a \<Rightarrow> 'a \<Rightarrow> int) \<Rightarrow> 'a list \<Rightarrow> 'a list" where
  "qsort cmp xs = foldr (qsort_insert cmp) xs []"

definition cal_obj_sort_occurrences :: "cal_obj_time list \<Rightarrow> cal_obj_time list" where
  "cal_obj_sort_occurrences occs = qsort cal_obj_time_compare_func occs"

text \<open>The day of an occurrence, moved to the last day of the month if the month is shorter.\<close>

definition clip_day :: "cal_obj_time \<Rightarrow> cal_obj_time" where
  "clip_day occ =
     (let year = cot_year occ;
          month = cot_month occ;
          days = days_in_month ! nat month;
          days = (if month = 1 \<and> year smod 4 = 0 \<and> (year smod 100 \<noteq> 0 \<or> year smod 400 = 0) then days + 1 else days)
      in if cot_day occ > days then occ\<lparr>cot_day := u8 days\<rparr> else occ)"

fun remove_duplicates_loop :: "cal_obj_time option \<Rightarrow> cal_obj_time list \<Rightarrow> cal_obj_time list" where
  "remove_duplicates_loop prev_occ [] = []"
| "remove_duplicates_loop prev_occ (occ # occs) =
     (let keep_occ = (case prev_occ of None \<Rightarrow> True | Some p \<Rightarrow> cal_obj_time_compare_func occ p \<noteq> 0);
          occ = clip_day occ;
          rest = remove_duplicates_loop (Some occ) occs
      in if keep_occ then occ # rest else rest)"

definition cal_obj_remove_duplicates_and_invalid_dates :: "cal_obj_time list \<Rightarrow> cal_obj_time list" where
  "cal_obj_remove_duplicates_and_invalid_dates occs = remove_duplicates_loop None occs"

text \<open>
  The inner loop over the exceptions: the exceptions that remain, and whether one matched.
\<close>

fun skip_exceptions :: "cal_obj_time \<Rightarrow> cal_obj_time list \<Rightarrow> cal_obj_time list \<times> bool" where
  "skip_exceptions occ [] = ([], False)"
| "skip_exceptions occ (ex_occ # ex_occs) =
     (let cmp = (if cot_flags ex_occ then cal_obj_date_only_compare_func ex_occ occ
                 else cal_obj_time_compare_func ex_occ occ)
      in if cmp > 0 then (ex_occ # ex_occs, False)
         else if cmp = 0 then (ex_occs, True)
         else skip_exceptions occ ex_occs)"

fun flag_last_kept :: "cal_obj_time list \<Rightarrow> cal_obj_time list" where
  "flag_last_kept [] = []"
| "flag_last_kept (t # ts) = t\<lparr>cot_flags := True\<rparr> # ts"

fun remove_exceptions_loop ::
    "cal_obj_time option \<Rightarrow> bool \<Rightarrow> cal_obj_time list \<Rightarrow> cal_obj_time list \<Rightarrow> cal_obj_time list \<Rightarrow> cal_obj_time list" where
  "remove_exceptions_loop prev_occ is_ex ex_occs kept [] = rev kept"
| "remove_exceptions_loop prev_occ is_ex ex_occs kept (occ # occs) =
     (if (case prev_occ of None \<Rightarrow> False | Some p \<Rightarrow> cal_obj_time_compare_func occ p = 0)
      then remove_exceptions_loop (Some occ) is_ex ex_occs
             (if cot_flags occ \<and> \<not> is_ex then flag_last_kept kept else kept) occs
      else (let (ex_occs, is_ex) = skip_exceptions occ ex_occs
            in remove_exceptions_loop (Some occ) is_ex ex_occs (if is_ex then kept else occ # kept) occs))"

definition cal_obj_remove_exceptions :: "cal_obj_time list \<Rightarrow> cal_obj_time list \<Rightarrow> cal_obj_time list" where
  "cal_obj_remove_exceptions occs ex_occs =
     (if occs = [] then [] else remove_exceptions_loop None False ex_occs [] occs)"

fun bysetpos_loop :: "cal_obj_time list \<Rightarrow> int list \<Rightarrow> cal_obj_time list" where
  "bysetpos_loop occs [] = []"
| "bysetpos_loop occs (x # elem) =
     (let len = int (length occs);
          pos = (if x < 0 then x + len else x - 1)
      in (if pos \<ge> 0 \<and> pos < len then [occs ! nat pos] else []) @ bysetpos_loop occs elem)"

definition cal_obj_bysetpos_filter :: "e_cal_recurrence \<Rightarrow> cal_obj_time list \<Rightarrow> cal_obj_time list" where
  "cal_obj_bysetpos_filter recur occs =
     (if bysetpos recur = [] \<or> occs = [] then occs else bysetpos_loop occs (bysetpos recur))"

section \<open>Sorting\<close>

locale sort_comparator =
  fixes cmp :: "'a \<Rightarrow> 'a \<Rightarrow> int" and key :: "'a \<Rightarrow> 'k::linorder"
  assumes cmp_le: "cmp x y \<le> 0 \<longleftrightarrow> key x \<le> key y"
begin

lemma qsort_insert_mset [simp]: "mset (qsort_insert cmp x xs) = add_mset x (mset xs)"
  by (induction xs) auto

lemma qsort_insert_set [simp]: "set (qsort_insert cmp x xs) = insert x (set xs)"
  by (induction xs) auto

lemma qsort_insert_sorted: "sorted (map key xs) \<Longrightarrow> sorted (map key (qsort_insert cmp x xs))"
  by (induction xs) (auto simp: cmp_le)

lemma qsort_mset [simp]: "mset (qsort cmp xs) = mset xs"
  by (induction xs) (simp_all add: qsort_def)

lemma qsort_set [simp]: "set (qsort cmp xs) = set xs"
  by (metis qsort_mset set_mset_mset)

lemma qsort_sorted [simp]: "sorted (map key (qsort cmp xs))"
  by (induction xs) (simp_all add: qsort_def qsort_insert_sorted)

lemma qsort_keys: "map key (qsort cmp xs) = sort (map key xs)"
  by (intro properties_for_sort [symmetric]) simp_all

end

interpretation occ_sort: sort_comparator cal_obj_time_compare_func cot_key
  by unfold_locales simp

lemma sort_occurrences_simps [simp]:
  "mset (cal_obj_sort_occurrences occs) = mset occs"
  "set (cal_obj_sort_occurrences occs) = set occs"
  "sorted (map cot_key (cal_obj_sort_occurrences occs))"
  by (simp_all add: cal_obj_sort_occurrences_def)

section \<open>Duplicates and invalid dates\<close>

lemma smod_400_4: "0 \<le> y \<Longrightarrow> y smod 400 = 0 \<Longrightarrow> y smod 4 = (0::int)"
  using mod_mod_cancel [of 4 400 y] by (simp add: smod_nonneg)

lemma clip_day_value:
  assumes "occ_wf k t"
  shows "clip_day t = t\<lparr>cot_day := min (cot_day t) (time_days_in_month (cot_year t) (cot_month t))\<rparr>"
proof -
  have t: "1900 \<le> cot_year t" "0 \<le> cot_month t" "cot_month t < 12" using assms by (auto simp: occ_wf_def)
  have d: "28 \<le> time_days_in_month (cot_year t) (cot_month t)" "time_days_in_month (cot_year t) (cot_month t) \<le> 31"
    using t time_days_in_month_pos time_days_in_month_le by auto
  have "\<not> cot_year t \<le> 1752" "\<not> \<not> 1900 \<le> cot_year t" "\<not> \<not> (0 \<le> cot_month t \<and> cot_month t < 12)"
    using t by auto
  then have days: "time_days_in_month (cot_year t) (cot_month t) =
      (if cot_month t = 1 \<and> cot_year t smod 4 = 0 \<and> (cot_year t smod 100 \<noteq> 0 \<or> cot_year t smod 400 = 0)
       then days_in_month ! nat (cot_month t) + 1 else days_in_month ! nat (cot_month t))"
    unfolding time_days_in_month_def time_is_leap_year_def Let_def using smod_400_4 [of "cot_year t"] t(1)
    by (simp only: if_False) fastforce
  have "clip_day t = (if cot_day t > time_days_in_month (cot_year t) (cot_month t)
      then t\<lparr>cot_day := u8 (time_days_in_month (cot_year t) (cot_month t))\<rparr> else t)"
    unfolding clip_day_def days Let_def ..
  then show ?thesis using d by (cases "cot_day t \<le> time_days_in_month (cot_year t) (cot_month t)") simp_all
qed

lemma clip_day_valid: "occ_wf k t \<Longrightarrow> occ_valid k (clip_day t)"
  using time_days_in_month_pos [of "cot_year t" "cot_month t"]
  by (auto simp: clip_day_value occ_valid_def occ_wf_def valid_time_def)

lemma clip_day_id: "occ_valid k t \<Longrightarrow> clip_day t = t"
  by (simp add: clip_day_value [of k] occ_valid_def)

lemma clip_day_key: "cot_key a = cot_key b \<Longrightarrow> cot_key (clip_day a) = cot_key (clip_day b)"
  by (auto simp: cot_key_def clip_day_def Let_def)

lemma remove_duplicates_loop_subset:
  "set (remove_duplicates_loop prev occs) \<subseteq> clip_day ` set occs"
  by (induction occs arbitrary: prev) (auto simp: Let_def split: if_splits)

lemma remove_duplicates_loop_keys:
  assumes "\<forall>t \<in> set occs. occ_wf k t" "\<forall>p. prev = Some p \<longrightarrow> occ_valid k p"
  shows "cot_key ` set (remove_duplicates_loop prev occs) \<union> cot_key ` set_option prev
    = cot_key ` clip_day ` set occs \<union> cot_key ` set_option prev"
  using assms
proof (induction occs arbitrary: prev)
  case (Cons occ occs)
  have v: "occ_valid k (clip_day occ)" using Cons.prems(1) by (simp add: clip_day_valid)
  have IH: "cot_key ` set (remove_duplicates_loop (Some (clip_day occ)) occs) \<union> {cot_key (clip_day occ)}
      = cot_key ` clip_day ` set occs \<union> {cot_key (clip_day occ)}"
    using Cons.IH [of "Some (clip_day occ)"] Cons.prems v by simp
  show ?case
  proof (cases "\<exists>p. prev = Some p \<and> cot_key occ = cot_key p")
    case True
    then obtain p where p: "prev = Some p" "cot_key occ = cot_key p" by blast
    have "occ_valid k p" using Cons.prems(2) p by simp
    then have "cot_key (clip_day occ) = cot_key p" using clip_day_key [OF p(2)] by (simp add: clip_day_id [of k])
    then show ?thesis using IH p by (auto simp: Let_def)
  next
    case False
    then have "remove_duplicates_loop prev (occ # occs) = clip_day occ # remove_duplicates_loop (Some (clip_day occ)) occs"
      by (auto simp: Let_def split: option.split)
    then show ?thesis using IH by auto
  qed
qed simp

lemma remove_duplicates_keys:
  assumes "\<forall>t \<in> set occs. occ_wf k t"
  shows "cot_key ` set (cal_obj_remove_duplicates_and_invalid_dates occs) = cot_key ` clip_day ` set occs"
  using remove_duplicates_loop_keys [OF assms, of None] by (simp add: cal_obj_remove_duplicates_and_invalid_dates_def)

lemma remove_duplicates_valid:
  assumes "\<forall>t \<in> set occs. occ_wf k t" "t \<in> set (cal_obj_remove_duplicates_and_invalid_dates occs)"
  shows "occ_valid k t"
  using remove_duplicates_loop_subset [of None occs] assms
  by (auto simp: cal_obj_remove_duplicates_and_invalid_dates_def clip_day_valid)

lemma remove_duplicates_loop_strict:
  assumes "\<forall>t \<in> set occs. occ_valid k t" "sorted (map cot_key occs)" "\<forall>p \<in> set_option prev. \<forall>t \<in> set occs. cot_key p \<le> cot_key t"
  shows "sorted_wrt (<) (map cot_key (remove_duplicates_loop prev occs))
    \<and> (\<forall>p \<in> set_option prev. \<forall>t \<in> set (remove_duplicates_loop prev occs). cot_key p < cot_key t)"
  using assms
proof (induction occs arbitrary: prev)
  case (Cons occ occs)
  have c: "clip_day occ = occ" using Cons.prems(1) by (simp add: clip_day_id [of k])
  have IH: "sorted_wrt (<) (map cot_key (remove_duplicates_loop (Some occ) occs))
      \<and> (\<forall>t \<in> set (remove_duplicates_loop (Some occ) occs). cot_key occ < cot_key t)"
    using Cons.IH [of "Some occ"] Cons.prems by simp
  show ?case
  proof (cases prev)
    case (Some p)
    have "cot_key occ = cot_key p \<or> cot_key p < cot_key occ" using Cons.prems(3) Some by auto
    then show ?thesis using IH Some by (elim disjE) (auto simp: c Let_def)
  qed (use IH in \<open>simp add: c Let_def\<close>)
qed simp

section \<open>Exceptions\<close>

text \<open>The exceptions without a DATE value: the pass is a merge of two sorted arrays.\<close>

lemma skip_exceptions_merge:
  assumes "\<forall>e \<in> set exs. \<not> cot_flags e" "sorted (map cot_key exs)" "skip_exceptions occ exs = (exs', found)"
  shows "(found \<longleftrightarrow> cot_key occ \<in> cot_key ` set exs)
    \<and> (\<forall>e. cot_key occ < cot_key e \<longrightarrow> (e \<in> set exs' \<longleftrightarrow> e \<in> set exs))
    \<and> set exs' \<subseteq> set exs \<and> sorted (map cot_key exs')"
  using assms by (induction exs) (auto split: if_splits)

definition merge_inv ::
    "(int \<times> int \<times> int \<times> int \<times> int \<times> int) set \<Rightarrow> cal_obj_time option \<Rightarrow> bool \<Rightarrow> cal_obj_time list \<Rightarrow>
     cal_obj_time list \<Rightarrow> cal_obj_time list \<Rightarrow> bool" where
  "merge_inv E prev is_ex exs kept occs \<longleftrightarrow>
     sorted (map cot_key occs) \<and> sorted (map cot_key exs) \<and> (\<forall>e \<in> set exs. \<not> cot_flags e)
     \<and> sorted_wrt (>) (map cot_key kept)
     \<and> (case prev of None \<Rightarrow> kept = [] \<and> E = cot_key ` set exs
        | Some p \<Rightarrow> (\<forall>t \<in> set occs. cot_key p \<le> cot_key t)
            \<and> (is_ex \<longleftrightarrow> cot_key p \<in> E)
            \<and> (if is_ex then \<forall>t \<in> set kept. cot_key t < cot_key p else \<exists>t ts. kept = t # ts \<and> cot_key t = cot_key p)
            \<and> E \<inter> {cot_key p <..} = cot_key ` set exs \<inter> {cot_key p <..})"

lemma key_flags [simp]: "cot_key (t\<lparr>cot_flags := b\<rparr>) = cot_key t"
  by (simp add: cot_key_def)

lemma flag_last_kept_keys [simp]: "map cot_key (flag_last_kept kept) = map cot_key kept"
  by (cases kept) simp_all

lemma merge_inv_duplicate:
  assumes "merge_inv E (Some p) is_ex exs kept (occ # occs)" "cot_key occ = cot_key p"
  shows "merge_inv E (Some occ) is_ex exs (if cot_flags occ \<and> \<not> is_ex then flag_last_kept kept else kept) occs"
  using assms by (auto simp: merge_inv_def)

lemma merge_inv_new:
  assumes inv: "merge_inv E prev is_ex exs kept (occ # occs)"
    and new: "\<forall>p. prev = Some p \<longrightarrow> cot_key occ \<noteq> cot_key p"
    and skip: "skip_exceptions occ exs = (exs', found)"
  shows "merge_inv E (Some occ) found exs' (if found then kept else occ # kept) occs"
proof -
  have e: "\<forall>e \<in> set exs. \<not> cot_flags e" "sorted (map cot_key exs)" using inv by (auto simp: merge_inv_def)
  note s = skip_exceptions_merge [OF e skip]
  have f: "set exs' \<subseteq> set exs" "sorted (map cot_key exs')" "found \<longleftrightarrow> cot_key occ \<in> cot_key ` set exs"
    using s by auto
  have ex': "cot_key ` set exs' \<inter> {cot_key occ <..} = cot_key ` set exs \<inter> {cot_key occ <..}"
    using s by auto
  have E: "E \<inter> {cot_key occ ..} = cot_key ` set exs \<inter> {cot_key occ ..}"
    and less: "\<forall>t \<in> set kept. cot_key t < cot_key occ"
  proof (atomize (full), cases prev)
    case (Some p)
    then have "cot_key p \<le> cot_key occ" "cot_key occ \<noteq> cot_key p" using inv new by (auto simp: merge_inv_def)
    then have p: "cot_key p < cot_key occ" by simp
    then have sub: "{cot_key occ ..} \<subseteq> {cot_key p <..}" by auto
    have "E \<inter> {cot_key p <..} = cot_key ` set exs \<inter> {cot_key p <..}" using inv Some by (simp add: merge_inv_def)
    then have "E \<inter> {cot_key occ ..} = cot_key ` set exs \<inter> {cot_key occ ..}" using sub by blast
    moreover have "\<forall>t \<in> set kept. cot_key t \<le> cot_key p" using inv Some by (auto simp: merge_inv_def less_imp_le split: if_splits)
    ultimately show "E \<inter> {cot_key occ ..} = cot_key ` set exs \<inter> {cot_key occ ..} \<and> (\<forall>t \<in> set kept. cot_key t < cot_key occ)"
      using p by fastforce
  qed (use inv in \<open>simp add: merge_inv_def\<close>)
  have "cot_key occ \<in> E \<longleftrightarrow> cot_key occ \<in> cot_key ` set exs" using E by (metis IntD1 IntI atLeast_iff order_refl)
  moreover have "E \<inter> {cot_key occ <..} = cot_key ` set exs' \<inter> {cot_key occ <..}"
  proof -
    have "{cot_key occ <..} \<subseteq> {cot_key occ ..}" by auto
    then have "E \<inter> {cot_key occ <..} = cot_key ` set exs \<inter> {cot_key occ <..}" using E by blast
    then show ?thesis using ex' by simp
  qed
  moreover have "\<forall>e \<in> set exs'. \<not> cot_flags e" using e(1) f(1) by blast
  ultimately show ?thesis
    using inv f(2,3) less unfolding merge_inv_def by (simp del: split_paired_All split_paired_Ex)
qed

lemma remove_exceptions_loop_keys:
  assumes "merge_inv E prev is_ex exs kept occs"
  shows "cot_key ` set (remove_exceptions_loop prev is_ex exs kept occs) = cot_key ` set kept \<union> (cot_key ` set occs - E)
    \<and> sorted_wrt (<) (map cot_key (remove_exceptions_loop prev is_ex exs kept occs))"
  using assms
proof (induction occs arbitrary: prev is_ex exs kept)
  case Nil
  then show ?case by (simp add: merge_inv_def sorted_wrt_rev flip: rev_map)
next
  case (Cons occ occs)
  show ?case
  proof (cases "\<exists>p. prev = Some p \<and> cot_key occ = cot_key p")
    case True
    then obtain p where p: "prev = Some p" "cot_key occ = cot_key p" by blast
    let ?kept = "if cot_flags occ \<and> \<not> is_ex then flag_last_kept kept else kept"
    have "map cot_key ?kept = map cot_key kept" by simp
    from arg_cong [OF this, of set] have k: "cot_key ` set ?kept = cot_key ` set kept" by (simp only: list.set_map)
    have "is_ex \<longleftrightarrow> cot_key occ \<in> E" "\<not> is_ex \<longrightarrow> cot_key occ \<in> cot_key ` set kept"
      using Cons.prems p by (auto simp: merge_inv_def)
    then have "cot_key ` set kept \<union> (cot_key ` set occs - E) = cot_key ` set kept \<union> (cot_key ` set (occ # occs) - E)"
      by auto
    then show ?thesis
      using Cons.IH [OF merge_inv_duplicate [OF Cons.prems [unfolded p(1)] p(2)]] p unfolding k by simp
  next
    case False
    obtain exs' found where s: "skip_exceptions occ exs = (exs', found)" by (cases "skip_exceptions occ exs")
    have new: "\<forall>p. prev = Some p \<longrightarrow> cot_key occ \<noteq> cot_key p" using False by auto
    note inv = merge_inv_new [OF Cons.prems new s]
    have "found \<longleftrightarrow> cot_key occ \<in> E" using inv by (simp add: merge_inv_def)
    then have "cot_key ` set (if found then kept else occ # kept) \<union> (cot_key ` set occs - E)
        = cot_key ` set kept \<union> (cot_key ` set (occ # occs) - E)" by auto
    then show ?thesis
      using Cons.IH [OF inv] new s by (cases prev) auto
  qed
qed

lemma remove_exceptions_loop_flags:
  assumes "merge_inv E prev is_ex exs kept occs" "t \<in> set (remove_exceptions_loop prev is_ex exs kept occs)"
  shows "cot_flags t \<longleftrightarrow> (\<exists>x \<in> set kept \<union> set occs. cot_key x = cot_key t \<and> cot_flags x)"
  using assms
proof (induction occs arbitrary: prev is_ex exs kept)
  case Nil
  then have d: "distinct (map cot_key kept)" by (auto simp: merge_inv_def distinct_conv_nth sorted_wrt_iff_nth_less neq_iff)
  have "x = t" if "x \<in> set kept" "cot_key x = cot_key t" for x
    using that Nil.prems(2) d by (auto simp: distinct_map dest: inj_onD)
  then show ?case using Nil.prems(2) by auto
next
  case (Cons occ occs)
  show ?case
  proof (cases "\<exists>p. prev = Some p \<and> cot_key occ = cot_key p")
    case True
    then obtain p where p: "prev = Some p" "cot_key occ = cot_key p" by blast
    let ?kept = "if cot_flags occ \<and> \<not> is_ex then flag_last_kept kept else kept"
    note inv = merge_inv_duplicate [OF Cons.prems(1) [unfolded p(1)] p(2)]
    have mem: "t \<in> set (remove_exceptions_loop (Some occ) is_ex exs ?kept occs)" using Cons.prems(2) p by simp
    note IH = Cons.IH [OF inv mem]
    show ?thesis
    proof (cases is_ex)
      case True
      have "cot_key t \<in> cot_key ` set kept \<union> (cot_key ` set occs - E)"
        using remove_exceptions_loop_keys [OF inv] mem True by auto
      moreover have "cot_key occ \<in> E" "\<forall>x \<in> set kept. cot_key x < cot_key occ"
        using inv True by (auto simp: merge_inv_def)
      ultimately have "cot_key t \<noteq> cot_key occ" by auto
      then show ?thesis using IH True by auto
    next
      case False
      then obtain l ls where k: "kept = l # ls" "cot_key l = cot_key occ"
        using Cons.prems(1) p by (auto simp: merge_inv_def)
      then show ?thesis using IH False by auto
    qed
  next
    case False
    obtain exs' found where s: "skip_exceptions occ exs = (exs', found)" by (cases "skip_exceptions occ exs")
    have new: "\<forall>p. prev = Some p \<longrightarrow> cot_key occ \<noteq> cot_key p" using False by auto
    note inv = merge_inv_new [OF Cons.prems(1) new s]
    have mem: "t \<in> set (remove_exceptions_loop (Some occ) found exs' (if found then kept else occ # kept) occs)"
      using Cons.prems(2) new s by (cases prev) auto
    have "cot_key t \<noteq> cot_key occ" if found
    proof -
      have "cot_key t \<in> cot_key ` set kept \<union> (cot_key ` set occs - E)"
        using remove_exceptions_loop_keys [OF inv] mem that by auto
      moreover have "cot_key occ \<in> E" "\<forall>x \<in> set kept. cot_key x < cot_key occ"
        using inv that by (auto simp: merge_inv_def)
      ultimately show ?thesis by auto
    qed
    then show ?thesis using Cons.IH [OF inv mem] by (cases found) auto
  qed
qed

text \<open>
  With a single DATE exception: the pass takes the exception when it first matches, so that later
  occurrences of the same day are kept.
\<close>

lemma remove_exceptions_loop_none:
  assumes "sorted_wrt (<) (map cot_key occs)" "\<forall>p. prev = Some p \<longrightarrow> (\<forall>t \<in> set occs. cot_key t \<noteq> cot_key p)"
  shows "remove_exceptions_loop prev is_ex [] kept occs = rev kept @ occs"
  using assms
proof (induction occs arbitrary: prev is_ex kept)
  case (Cons occ occs)
  have "\<forall>t \<in> set occs. cot_key t \<noteq> cot_key occ" using Cons.prems(1) by auto
  then have "remove_exceptions_loop (Some occ) False [] (occ # kept) occs = rev (occ # kept) @ occs"
    using Cons.prems(1) by (intro Cons.IH) auto
  then show ?case using Cons.prems(2) by (cases prev) auto
qed simp

lemma remove_exceptions_loop_date:
  assumes "sorted_wrt (<) (map cot_key occs)" "\<forall>p. prev = Some p \<longrightarrow> (\<forall>t \<in> set occs. cot_key t \<noteq> cot_key p)"
    "cot_flags ex"
  shows "remove_exceptions_loop prev is_ex [ex] kept occs =
    rev kept @ takeWhile (\<lambda>t. cot_day_key t < cot_day_key ex) occs
      @ (case dropWhile (\<lambda>t. cot_day_key t < cot_day_key ex) occs of
           [] \<Rightarrow> [] | t # ts \<Rightarrow> (if cot_day_key t = cot_day_key ex then ts else t # ts))"
  using assms
proof (induction occs arbitrary: prev is_ex kept)
  case (Cons occ occs)
  have ne: "\<forall>p. Some occ = Some p \<longrightarrow> (\<forall>t \<in> set occs. cot_key t \<noteq> cot_key p)" using Cons.prems(1) by auto
  have so: "sorted_wrt (<) (map cot_key occs)" using Cons.prems(1) by simp
  have new: "remove_exceptions_loop prev is_ex [ex] kept (occ # occs) =
      (let (ex_occs, is_ex) = skip_exceptions occ [ex]
       in remove_exceptions_loop (Some occ) is_ex ex_occs (if is_ex then kept else occ # kept) occs)"
    using Cons.prems(2) by (cases prev) auto
  consider "cot_day_key occ < cot_day_key ex" | "cot_day_key occ = cot_day_key ex" | "cot_day_key ex < cot_day_key occ"
    by fastforce
  then show ?case
  proof cases
    case 1
    then show ?thesis using Cons.IH [OF so ne assms(3)] assms(3) unfolding new by simp
  next
    case 2
    then show ?thesis using remove_exceptions_loop_none [OF so ne] assms(3) unfolding new by simp
  next
    case 3
    then have "cot_day_key occ \<noteq> cot_day_key ex" "\<not> cot_day_key occ < cot_day_key ex" by auto
    then show ?thesis using remove_exceptions_loop_none [OF so ne] assms(3) unfolding new by simp
  qed
qed simp

section \<open>Properties\<close>

text \<open>
  C9. For sorted occurrences and sorted exceptions with a time, \<^verbatim>\<open>cal_obj_remove_exceptions\<close> is the set
  difference: the kept times are the occurrence times that are not exception times, in strictly
  increasing order, and a kept occurrence has the RDATE flag exactly if one of the occurrences at its
  time has it.
\<close>

theorem remove_exceptions_difference:
  assumes "sorted (map cot_key occs)" "sorted (map cot_key exs)" "\<forall>e \<in> set exs. \<not> cot_flags e"
  shows "map cot_key (cal_obj_remove_exceptions occs exs) = sorted_list_of_set (cot_key ` set occs - cot_key ` set exs)
    \<and> (\<forall>t \<in> set (cal_obj_remove_exceptions occs exs).
         cot_flags t \<longleftrightarrow> (\<exists>x \<in> set occs. cot_key x = cot_key t \<and> cot_flags x))"
proof -
  have inv: "merge_inv (cot_key ` set exs) None False exs [] occs" using assms by (simp add: merge_inv_def)
  have e: "cal_obj_remove_exceptions occs exs = remove_exceptions_loop None False exs [] occs"
    by (simp add: cal_obj_remove_exceptions_def)
  have "set (map cot_key (cal_obj_remove_exceptions occs exs)) = cot_key ` set occs - cot_key ` set exs"
    "sorted_wrt (<) (map cot_key (cal_obj_remove_exceptions occs exs))"
    using remove_exceptions_loop_keys [OF inv] unfolding e by auto
  then have "map cot_key (cal_obj_remove_exceptions occs exs) = sorted_list_of_set (cot_key ` set occs - cot_key ` set exs)"
    by (metis finite_Diff finite_imageI List.finite_set sorted_list_of_set.strict_sorted_key_list_of_set
        sorted_list_of_set.set_sorted_key_list_of_set strict_sorted_equal)
  then show ?thesis using remove_exceptions_loop_flags [OF inv] unfolding e by auto
qed

definition sample_time :: "int \<Rightarrow> int \<Rightarrow> bool \<Rightarrow> cal_obj_time" where
  "sample_time d h fl = \<lparr>cot_year = 2004, cot_month = 1, cot_day = d, cot_hour = h, cot_minute = 30,
     cot_second = 0, cot_flags = fl\<rparr>"

theorem remove_exceptions_difference_witness:
  "map cot_key (cal_obj_remove_exceptions [sample_time 3 9 False, sample_time 3 15 False, sample_time 4 9 True] [sample_time 3 15 False])
   = sorted_list_of_set (cot_key ` {sample_time 3 9 False, sample_time 3 15 False, sample_time 4 9 True} - {cot_key (sample_time 3 15 False)})"
  using remove_exceptions_difference [of "[sample_time 3 9 False, sample_time 3 15 False, sample_time 4 9 True]" "[sample_time 3 15 False]"]
  by (simp add: sample_time_def cot_key_def)

text \<open>
  An EXDATE with a DATE value removes only the first occurrence of its day: the later occurrences
  of that day are kept, although the exception is meant to skip all the occurrences on that date.
\<close>

theorem date_exception_removes_first_only:
  assumes "sorted_wrt (<) (map cot_key occs)" "cot_flags ex"
  shows "cal_obj_remove_exceptions occs [ex] =
    takeWhile (\<lambda>t. cot_day_key t < cot_day_key ex) occs
      @ (case dropWhile (\<lambda>t. cot_day_key t < cot_day_key ex) occs of
           [] \<Rightarrow> [] | t # ts \<Rightarrow> (if cot_day_key t = cot_day_key ex then ts else t # ts))"
  using remove_exceptions_loop_date [OF assms(1) _ assms(2), of None False "[]"]
  by (simp add: cal_obj_remove_exceptions_def)

theorem date_exception_removes_first_only_witness:
  "cal_obj_remove_exceptions [sample_time 3 9 False, sample_time 3 15 False] [sample_time 3 0 True] = [sample_time 3 15 False]"
  using date_exception_removes_first_only [of "[sample_time 3 9 False, sample_time 3 15 False]" "sample_time 3 0 True"]
  by (simp add: sample_time_def cot_key_def cot_day_key_def)

text \<open>
  C24. After sorting and the pass over duplicates and invalid dates every occurrence is a valid
  calendar time. The pass loses no time: the resulting times are exactly the given ones with days
  beyond the end of a month moved to its last day (the name and the comments of the caller say that
  such dates are removed). If all the dates are valid, the result is strictly increasing.
\<close>

theorem duplicates_pass_correct:
  assumes "\<forall>t \<in> set occs. occ_wf k t"
  defines "out \<equiv> cal_obj_remove_duplicates_and_invalid_dates (cal_obj_sort_occurrences occs)"
  shows "(\<forall>t \<in> set out. valid_cot t)
    \<and> cot_key ` set out = (\<lambda>t. cot_key (t\<lparr>cot_day := min (cot_day t) (time_days_in_month (cot_year t) (cot_month t))\<rparr>)) ` set occs
    \<and> ((\<forall>t \<in> set occs. valid_cot t) \<longrightarrow> sorted_wrt (<) (map cot_key out))"
proof (intro conjI impI)
  have w: "\<forall>t \<in> set (cal_obj_sort_occurrences occs). occ_wf k t" using assms(1) by simp
  show "\<forall>t \<in> set out. valid_cot t"
    using remove_duplicates_valid [OF w] occ_valid_cot unfolding out_def by blast
  show "cot_key ` set out = (\<lambda>t. cot_key (t\<lparr>cot_day := min (cot_day t) (time_days_in_month (cot_year t) (cot_month t))\<rparr>)) ` set occs"
    unfolding out_def remove_duplicates_keys [OF w] image_image sort_occurrences_simps
    by (rule image_cong) (use assms(1) clip_day_value in auto)
  assume "\<forall>t \<in> set occs. valid_cot t"
  then have "\<forall>t \<in> set (cal_obj_sort_occurrences occs). occ_valid k t"
    using assms(1) by (auto simp: occ_valid_def valid_cot_def valid_date_def)
  then show "sorted_wrt (<) (map cot_key out)"
    using remove_duplicates_loop_strict [of "cal_obj_sort_occurrences occs" k None]
    unfolding out_def cal_obj_remove_duplicates_and_invalid_dates_def by simp
qed

theorem duplicates_pass_correct_witness:
  "cot_key ` set (cal_obj_remove_duplicates_and_invalid_dates
     (cal_obj_sort_occurrences [sample_time 31 9 False, sample_time 3 9 False]))
   = {(2004, 1, 29, 9, 30, 0), (2004, 1, 3, 9, 30, 0)}"
proof -
  have "\<forall>t \<in> set [sample_time 31 9 False, sample_time 3 9 False]. occ_wf 0 t"
    by (simp add: sample_time_def occ_wf_def valid_time_def)
  from duplicates_pass_correct [OF this] show ?thesis
    by (simp add: sample_time_def cot_key_def time_days_in_month_cases time_is_leap_year_def)
qed

text \<open>
  BYSETPOS selects by position: for a non-empty set the result lists, for every element of the
  rule in turn, the occurrence it names (n for the n-th, -n for the n-th from the end), and skips the
  elements that are 0 or beyond the set.
\<close>

theorem bysetpos_selects:
  assumes "bysetpos recur \<noteq> []"
  shows "cal_obj_bysetpos_filter recur occs =
    concat (map (\<lambda>x. if 1 \<le> x \<and> x \<le> int (length occs) then [occs ! (nat x - 1)]
                     else if - int (length occs) \<le> x \<and> x \<le> -1 then [rev occs ! (nat (- x) - 1)] else [])
                (bysetpos recur))"
proof -
  have "bysetpos_loop occs xs =
    concat (map (\<lambda>x. if 1 \<le> x \<and> x \<le> int (length occs) then [occs ! (nat x - 1)]
                     else if - int (length occs) \<le> x \<and> x \<le> -1 then [rev occs ! (nat (- x) - 1)] else []) xs)" for xs
    by (induction xs) (auto simp: Let_def rev_nth nat_diff_distrib intro!: arg_cong [where f = "nth occs"])
  then show ?thesis using assms by (auto simp: cal_obj_bysetpos_filter_def)
qed

theorem bysetpos_selects_witness:
  "cal_obj_bysetpos_filter (sample_rule\<lparr>bysetpos := [-1, 1, 5]\<rparr>) [sample_time 3 9 False, sample_time 4 9 False]
   = [sample_time 4 9 False, sample_time 3 9 False]"
  using bysetpos_selects [of "sample_rule\<lparr>bysetpos := [-1, 1, 5]\<rparr>" "[sample_time 3 9 False, sample_time 4 9 False]"]
  by simp

end
