(* ===== verification/Recur_Positions.thy ===== *)
theory Recur_Positions
  imports Recur_Sets
begin

text \<open>
  The two position functions of each of the seven frequencies. They return TRUE when there is no
  (further) period inside the event and the requested interval, and the caller then ignores
  \<^verbatim>\<open>*cotime\<close>: TRUE is \<open>None\<close>, and FALSE with the new position is \<open>Some\<close> of it. The pointers
  \<^verbatim>\<open>event_end\<close> and \<^verbatim>\<open>interval_end\<close>, which may be NULL, are options.
\<close>

definition after_end :: "cal_obj_time \<Rightarrow> cal_obj_time option \<Rightarrow> cal_obj_time_comparison \<Rightarrow> bool" where
  "after_end t e type = (case e of None \<Rightarrow> False | Some e \<Rightarrow> cal_obj_time_compare t e type > 0)"

definition julian_of :: "gdate_lib \<Rightarrow> cal_obj_time \<Rightarrow> int" where
  "julian_of G t = u32 (g_date_get_julian G (cot_day t) (cot_month t + 1) (cot_year t))"

section \<open>YEARLY and MONTHLY\<close>

definition cal_obj_yearly_find_start_position ::
    "gdate_lib \<Rightarrow> cal_obj_time \<Rightarrow> cal_obj_time option \<Rightarrow> recur_data \<Rightarrow> cal_obj_time \<Rightarrow> cal_obj_time option \<Rightarrow> cal_obj_time option" where
  "cal_obj_yearly_find_start_position G event_start event_end rd interval_start interval_end =
     (let cotime = event_start;
          cotime =
            (if cot_year cotime < cot_year interval_start
             then (let years = cot_year interval_start - cot_year cotime + interval (rd_recur rd) - 1;
                       years = years - years smod interval (rd_recur rd)
                   in cotime\<lparr>cot_year := u16 (cot_year cotime + years)\<rparr>)
             else cotime)
      in if (case event_end of None \<Rightarrow> False | Some e \<Rightarrow> cot_year cotime > cot_year e)
            \<or> (case interval_end of None \<Rightarrow> False | Some e \<Rightarrow> cot_year cotime > cot_year e)
         then None else Some cotime)"

definition cal_obj_yearly_find_next_position ::
    "cal_obj_time \<Rightarrow> cal_obj_time option \<Rightarrow> recur_data \<Rightarrow> cal_obj_time option \<Rightarrow> cal_obj_time option" where
  "cal_obj_yearly_find_next_position cotime event_end rd interval_end =
     (let cotime = cotime\<lparr>cot_year := u16 (cot_year cotime + interval (rd_recur rd))\<rparr>
      in if (case event_end of None \<Rightarrow> False | Some e \<Rightarrow> cot_year cotime > cot_year e)
            \<or> (case interval_end of None \<Rightarrow> False | Some e \<Rightarrow> cot_year cotime > cot_year e)
         then None else Some cotime)"

definition cal_obj_monthly_find_start_position ::
    "gdate_lib \<Rightarrow> cal_obj_time \<Rightarrow> cal_obj_time option \<Rightarrow> recur_data \<Rightarrow> cal_obj_time \<Rightarrow> cal_obj_time option \<Rightarrow> cal_obj_time option" where
  "cal_obj_monthly_find_start_position G event_start event_end rd interval_start interval_end =
     (let cotime = event_start;
          cotime =
            (if cal_obj_time_compare cotime interval_start CALOBJ_MONTH < 0
             then (let months = (cot_year interval_start - cot_year cotime) * 12
                                + cot_month interval_start - cot_month cotime + interval (rd_recur rd) - 1;
                       months = months - months smod interval (rd_recur rd)
                   in cal_obj_time_add_months cotime months)
             else cotime)
      in if after_end cotime event_end CALOBJ_MONTH then None
         else if after_end cotime interval_end CALOBJ_MONTH then None
         else Some cotime)"

definition cal_obj_monthly_find_next_position ::
    "cal_obj_time \<Rightarrow> cal_obj_time option \<Rightarrow> recur_data \<Rightarrow> cal_obj_time option \<Rightarrow> cal_obj_time option" where
  "cal_obj_monthly_find_next_position cotime event_end rd interval_end =
     (let cotime = cal_obj_time_add_months cotime (interval (rd_recur rd))
      in if after_end cotime event_end CALOBJ_MONTH then None
         else if after_end cotime interval_end CALOBJ_MONTH then None
         else Some cotime)"

section \<open>WEEKLY and DAILY\<close>

definition cal_obj_weekly_find_start_position ::
    "gdate_lib \<Rightarrow> cal_obj_time \<Rightarrow> cal_obj_time option \<Rightarrow> recur_data \<Rightarrow> cal_obj_time \<Rightarrow> cal_obj_time option \<Rightarrow> cal_obj_time option" where
  "cal_obj_weekly_find_start_position G event_start event_end rd interval_start interval_end =
     (if (case event_end of None \<Rightarrow> False | Some e \<Rightarrow> cal_obj_time_compare e interval_start CALOBJ_DAY < 0) then None
      else if after_end event_start interval_end CALOBJ_DAY then None
      else (let cotime = event_start;
                event_start_julian = u32 (julian_of G event_start - rd_weekday_offset rd);
                interval_start_weekday_offset =
                  cal_obj_time_weekday_offset G interval_start (week_start_day (rd_recur rd));
                interval_start_julian = u32 (julian_of G interval_start - interval_start_weekday_offset);
                cotime =
                  (if event_start_julian < interval_start_julian
                   then (let weeks = s32 (u32 (interval_start_julian - event_start_julian) div 7);
                             weeks = weeks + interval (rd_recur rd) - 1;
                             weeks = weeks - weeks smod interval (rd_recur rd)
                         in cal_obj_time_add_days cotime (weeks * 7))
                   else cotime);
                week_start = cal_obj_time_add_days cotime (- rd_weekday_offset rd)
            in if after_end week_start event_end CALOBJ_DAY then None
               else if after_end week_start interval_end CALOBJ_DAY then None
               else Some cotime))"

definition cal_obj_weekly_find_next_position ::
    "cal_obj_time \<Rightarrow> cal_obj_time option \<Rightarrow> recur_data \<Rightarrow> cal_obj_time option \<Rightarrow> cal_obj_time option" where
  "cal_obj_weekly_find_next_position cotime event_end rd interval_end =
     (let cotime = cal_obj_time_add_days cotime (interval (rd_recur rd) * 7);
          week_start = cal_obj_time_add_days cotime (- rd_weekday_offset rd)
      in if after_end week_start event_end CALOBJ_DAY then None
         else if after_end week_start interval_end CALOBJ_DAY then None
         else Some cotime)"

definition cal_obj_daily_find_start_position ::
    "gdate_lib \<Rightarrow> cal_obj_time \<Rightarrow> cal_obj_time option \<Rightarrow> recur_data \<Rightarrow> cal_obj_time \<Rightarrow> cal_obj_time option \<Rightarrow> cal_obj_time option" where
  "cal_obj_daily_find_start_position G event_start event_end rd interval_start interval_end =
     (if after_end event_start interval_end CALOBJ_DAY then None
      else if (case event_end of None \<Rightarrow> False | Some e \<Rightarrow> cal_obj_time_compare e interval_start CALOBJ_DAY < 0) then None
      else (let cotime = event_start;
                event_start_julian = julian_of G event_start;
                interval_start_julian = julian_of G interval_start;
                cotime =
                  (if event_start_julian < interval_start_julian
                   then (let days = u32 (interval_start_julian - event_start_julian + interval (rd_recur rd) - 1);
                             days = u32 (days - days mod u32 (interval (rd_recur rd)))
                         in cal_obj_time_add_days cotime (s32 days))
                   else cotime)
            in if after_end cotime event_end CALOBJ_DAY then None
               else if after_end cotime interval_end CALOBJ_DAY then None
               else Some cotime))"

definition cal_obj_daily_find_next_position ::
    "cal_obj_time \<Rightarrow> cal_obj_time option \<Rightarrow> recur_data \<Rightarrow> cal_obj_time option \<Rightarrow> cal_obj_time option" where
  "cal_obj_daily_find_next_position cotime event_end rd interval_end =
     (let cotime = cal_obj_time_add_days cotime (interval (rd_recur rd))
      in if after_end cotime event_end CALOBJ_DAY then None
         else if after_end cotime interval_end CALOBJ_DAY then None
         else Some cotime)"

section \<open>HOURLY, MINUTELY and SECONDLY\<close>

definition cal_obj_hourly_find_start_position ::
    "gdate_lib \<Rightarrow> cal_obj_time \<Rightarrow> cal_obj_time option \<Rightarrow> recur_data \<Rightarrow> cal_obj_time \<Rightarrow> cal_obj_time option \<Rightarrow> cal_obj_time option" where
  "cal_obj_hourly_find_start_position G event_start event_end rd interval_start interval_end =
     (if after_end event_start interval_end CALOBJ_HOUR then None
      else if (case event_end of None \<Rightarrow> False | Some e \<Rightarrow> cal_obj_time_compare e interval_start CALOBJ_HOUR < 0) then None
      else (let cotime = event_start;
                cotime =
                  (if cal_obj_time_compare event_start interval_start CALOBJ_HOUR < 0
                   then (let event_start_julian = julian_of G event_start;
                             interval_start_julian = julian_of G interval_start;
                             hours = u32 ((interval_start_julian - event_start_julian) * 24);
                             hours = u32 (hours + (cot_hour interval_start - cot_hour event_start));
                             hours = u32 (hours + interval (rd_recur rd) - 1);
                             hours = u32 (hours - hours mod u32 (interval (rd_recur rd)))
                         in cal_obj_time_add_hours cotime (s32 hours))
                   else cotime)
            in if after_end cotime event_end CALOBJ_HOUR then None
               else if after_end cotime interval_end CALOBJ_HOUR then None
               else Some cotime))"

definition cal_obj_hourly_find_next_position ::
    "cal_obj_time \<Rightarrow> cal_obj_time option \<Rightarrow> recur_data \<Rightarrow> cal_obj_time option \<Rightarrow> cal_obj_time option" where
  "cal_obj_hourly_find_next_position cotime event_end rd interval_end =
     (let cotime = cal_obj_time_add_hours cotime (interval (rd_recur rd))
      in if after_end cotime event_end CALOBJ_HOUR then None
         else if after_end cotime interval_end CALOBJ_HOUR then None
         else Some cotime)"

definition cal_obj_minutely_find_start_position ::
    "gdate_lib \<Rightarrow> cal_obj_time \<Rightarrow> cal_obj_time option \<Rightarrow> recur_data \<Rightarrow> cal_obj_time \<Rightarrow> cal_obj_time option \<Rightarrow> cal_obj_time option" where
  "cal_obj_minutely_find_start_position G event_start event_end rd interval_start interval_end =
     (if after_end event_start interval_end CALOBJ_MINUTE then None
      else if (case event_end of None \<Rightarrow> False | Some e \<Rightarrow> cal_obj_time_compare e interval_start CALOBJ_MINUTE < 0) then None
      else (let cotime = event_start;
                cotime =
                  (if cal_obj_time_compare event_start interval_start CALOBJ_MINUTE < 0
                   then (let event_start_julian = julian_of G event_start;
                             interval_start_julian = julian_of G interval_start;
                             minutes = u32 ((interval_start_julian - event_start_julian) * 24 * 60);
                             minutes = u32 (minutes + (cot_hour interval_start - cot_hour event_start) * 24);
                             minutes = u32 (minutes + (cot_minute interval_start - cot_minute event_start));
                             minutes = u32 (minutes + interval (rd_recur rd) - 1);
                             minutes = u32 (minutes - minutes mod u32 (interval (rd_recur rd)))
                         in cal_obj_time_add_minutes cotime (s32 minutes))
                   else cotime)
            in if after_end cotime event_end CALOBJ_MINUTE then None
               else if after_end cotime interval_end CALOBJ_MINUTE then None
               else Some cotime))"

definition cal_obj_minutely_find_next_position ::
    "cal_obj_time \<Rightarrow> cal_obj_time option \<Rightarrow> recur_data \<Rightarrow> cal_obj_time option \<Rightarrow> cal_obj_time option" where
  "cal_obj_minutely_find_next_position cotime event_end rd interval_end =
     (let cotime = cal_obj_time_add_minutes cotime (interval (rd_recur rd))
      in if after_end cotime event_end CALOBJ_MINUTE then None
         else if after_end cotime interval_end CALOBJ_MINUTE then None
         else Some cotime)"

definition cal_obj_secondly_find_start_position ::
    "gdate_lib \<Rightarrow> cal_obj_time \<Rightarrow> cal_obj_time option \<Rightarrow> recur_data \<Rightarrow> cal_obj_time \<Rightarrow> cal_obj_time option \<Rightarrow> cal_obj_time option" where
  "cal_obj_secondly_find_start_position G event_start event_end rd interval_start interval_end =
     (if after_end event_start interval_end CALOBJ_SECOND then None
      else if (case event_end of None \<Rightarrow> False | Some e \<Rightarrow> cal_obj_time_compare e interval_start CALOBJ_SECOND < 0) then None
      else (let cotime = event_start;
                cotime =
                  (if cal_obj_time_compare event_start interval_start CALOBJ_SECOND < 0
                   then (let event_start_julian = julian_of G event_start;
                             interval_start_julian = julian_of G interval_start;
                             seconds = u32 ((interval_start_julian - event_start_julian) * 24 * 60 * 60);
                             seconds = u32 (seconds + (cot_hour interval_start - cot_hour event_start) * 24 * 60);
                             seconds = u32 (seconds + (cot_minute interval_start - cot_minute event_start) * 60);
                             seconds = u32 (seconds + (cot_second interval_start - cot_second event_start));
                             seconds = u32 (seconds + interval (rd_recur rd) - 1);
                             seconds = u32 (seconds - seconds mod u32 (interval (rd_recur rd)))
                         in cal_obj_time_add_seconds cotime (s32 seconds))
                   else cotime)
            in if (case event_end of None \<Rightarrow> False | Some e \<Rightarrow> cal_obj_time_compare cotime e CALOBJ_SECOND \<ge> 0) then None
               else if (case interval_end of None \<Rightarrow> False | Some e \<Rightarrow> cal_obj_time_compare cotime e CALOBJ_SECOND \<ge> 0) then None
               else Some cotime))"

definition cal_obj_secondly_find_next_position ::
    "cal_obj_time \<Rightarrow> cal_obj_time option \<Rightarrow> recur_data \<Rightarrow> cal_obj_time option \<Rightarrow> cal_obj_time option" where
  "cal_obj_secondly_find_next_position cotime event_end rd interval_end =
     (let cotime = cal_obj_time_add_seconds cotime (interval (rd_recur rd))
      in if (case event_end of None \<Rightarrow> False | Some e \<Rightarrow> cal_obj_time_compare cotime e CALOBJ_SECOND \<ge> 0) then None
         else if (case interval_end of None \<Rightarrow> False | Some e \<Rightarrow> cal_obj_time_compare cotime e CALOBJ_SECOND \<ge> 0) then None
         else Some cotime)"

end
