(* ===== verification/Recur_Position_Laws.thy ===== *)
theory Recur_Position_Laws
  imports Recur_Positions
begin

text \<open>
  The contract of the position functions. Each frequency has a position number: the year, the
  month number, the first day of the week, the day, the hour, the minute or the second. The next
  position is one stride on, and the functions stop exactly when the number exceeds the limit that
  the end of the event or of the interval gives. The locale \<open>recur_position\<close> turns that into the
  list of periods the loop of \<^verbatim>\<open>cal_obj_expand_recurrence\<close> visits, and shows that the loop ends.
\<close>

definition cot_months :: "cal_obj_time \<Rightarrow> int" where
  "cot_months t = 12 * cot_year t + cot_month t"

definition cot_hours :: "cal_obj_time \<Rightarrow> int" where
  "cot_hours t = 24 * cot_date t + cot_hour t"

definition cot_minutes :: "cal_obj_time \<Rightarrow> int" where
  "cot_minutes t = 60 * cot_hours t + cot_minute t"

definition past :: "(cal_obj_time \<Rightarrow> int) \<Rightarrow> int \<Rightarrow> cal_obj_time option \<Rightarrow> bool" where
  "past lim p e = (case e of None \<Rightarrow> False | Some e \<Rightarrow> lim e < p)"

text \<open>
  The end of a chunk has the second 61 (\<^verbatim>\<open>chunk_end.second = 61\<close>): ends may have a second above 59.
\<close>

definition norm_end :: "cal_obj_time \<Rightarrow> cal_obj_time" where
  "norm_end e = e\<lparr>cot_second := min 59 (cot_second e)\<rparr>"

definition valid_end :: "cal_obj_time \<Rightarrow> bool" where
  "valid_end e \<longleftrightarrow> valid_cot (norm_end e) \<and> 0 \<le> cot_second e"

definition end_ok :: "cal_obj_time option \<Rightarrow> bool" where
  "end_ok e = (case e of None \<Rightarrow> True | Some e \<Rightarrow> valid_end e)"

definition end_seconds :: "cal_obj_time \<Rightarrow> int" where
  "end_seconds e = cot_seconds (norm_end e)"

text \<open>The SECONDLY functions stop at the end itself, the others after it.\<close>

definition end_limit :: "cal_obj_time \<Rightarrow> int" where
  "end_limit e = 60 * cot_minutes e + min 60 (cot_second e) - 1"

text \<open>The loop over the periods, which ends when there is no next one.\<close>

partial_function (option) period_loop ::
    "(cal_obj_time \<Rightarrow> cal_obj_time option) \<Rightarrow> cal_obj_time \<Rightarrow> cal_obj_time list option" where
  "period_loop next t =
     (case next t of None \<Rightarrow> Some [t]
      | Some t' \<Rightarrow> Option.bind (period_loop next t') (\<lambda>ts. Some (t # ts)))"

section \<open>Comparisons by position\<close>

lemma compare_month_iff:
  assumes "0 \<le> cot_month a" "cot_month a < 12" "0 \<le> cot_month b" "cot_month b < 12"
  shows "cal_obj_time_compare a b CALOBJ_MONTH < 0 \<longleftrightarrow> cot_months a < cot_months b"
    and "cal_obj_time_compare a b CALOBJ_MONTH > 0 \<longleftrightarrow> cot_months b < cot_months a"
  using assms by (auto simp: cal_obj_time_compare_def cot_months_def)

lemma compare_day_iff:
  assumes "valid_cot a" "valid_cot b"
  shows "cal_obj_time_compare a b CALOBJ_DAY < 0 \<longleftrightarrow> cot_date a < cot_date b"
    and "cal_obj_time_compare a b CALOBJ_DAY > 0 \<longleftrightarrow> cot_date b < cot_date a"
  using day_key_less_iff [of a b] day_key_less_iff [of b a] assms by (auto simp: compare_day valid_cot_def)

lemma compare_hour_key:
  "cal_obj_time_compare a b CALOBJ_HOUR =
     (if (cot_day_key a, cot_hour a) < (cot_day_key b, cot_hour b) then -1
      else if (cot_day_key b, cot_hour b) < (cot_day_key a, cot_hour a) then 1 else 0)"
  by (auto simp: cal_obj_time_compare_def cot_day_key_def)

lemma compare_minute_key:
  "cal_obj_time_compare a b CALOBJ_MINUTE =
     (if (cot_day_key a, cot_hour a, cot_minute a) < (cot_day_key b, cot_hour b, cot_minute b) then -1
      else if (cot_day_key b, cot_hour b, cot_minute b) < (cot_day_key a, cot_hour a, cot_minute a) then 1 else 0)"
  by (auto simp: cal_obj_time_compare_def cot_day_key_def)

lemma day_key_eq_iff:
  assumes "valid_cot a" "valid_cot b"
  shows "cot_day_key a = cot_day_key b \<longleftrightarrow> cot_date a = cot_date b"
  using day_key_less_iff [of a b] day_key_less_iff [of b a] assms
  by (metis less_irrefl linorder_neqE valid_cot_def)

lemma hour_key_less:
  assumes "valid_cot a" "valid_cot b"
  shows "(cot_day_key a, cot_hour a) < (cot_day_key b, cot_hour b) \<longleftrightarrow> cot_hours a < cot_hours b"
proof -
  have "(cot_day_key a, cot_hour a) < (cot_day_key b, cot_hour b) \<longleftrightarrow>
      cot_date a < cot_date b \<or> cot_date a = cot_date b \<and> cot_hour a < cot_hour b"
    using day_key_less_iff [of a b] day_key_eq_iff [OF assms] assms by (auto simp: valid_cot_def)
  then show ?thesis using assms by (auto simp: cot_hours_def valid_cot_def valid_time_def)
qed

lemma minute_key_less:
  assumes "valid_cot a" "valid_cot b"
  shows "(cot_day_key a, cot_hour a, cot_minute a) < (cot_day_key b, cot_hour b, cot_minute b) \<longleftrightarrow> cot_minutes a < cot_minutes b"
proof -
  have "(cot_day_key a, cot_hour a, cot_minute a) < (cot_day_key b, cot_hour b, cot_minute b) \<longleftrightarrow>
      cot_date a < cot_date b \<or> cot_date a = cot_date b \<and> (cot_hour a, cot_minute a) < (cot_hour b, cot_minute b)"
    using day_key_less_iff [of a b] day_key_eq_iff [OF assms] assms by (auto simp: valid_cot_def)
  then show ?thesis using assms by (auto simp: cot_minutes_def cot_hours_def valid_cot_def valid_time_def)
qed

lemma compare_hour_iff:
  assumes "valid_cot a" "valid_cot b"
  shows "cal_obj_time_compare a b CALOBJ_HOUR < 0 \<longleftrightarrow> cot_hours a < cot_hours b"
    and "cal_obj_time_compare a b CALOBJ_HOUR > 0 \<longleftrightarrow> cot_hours b < cot_hours a"
  using hour_key_less [OF assms] hour_key_less [OF assms(2,1)] by (auto simp: compare_hour_key)

lemma compare_minute_iff:
  assumes "valid_cot a" "valid_cot b"
  shows "cal_obj_time_compare a b CALOBJ_MINUTE < 0 \<longleftrightarrow> cot_minutes a < cot_minutes b"
    and "cal_obj_time_compare a b CALOBJ_MINUTE > 0 \<longleftrightarrow> cot_minutes b < cot_minutes a"
  using minute_key_less [OF assms] minute_key_less [OF assms(2,1)] by (auto simp: compare_minute_key)

lemma compare_second_iff:
  assumes "valid_cot a" "valid_cot b"
  shows "cal_obj_time_compare a b CALOBJ_SECOND < 0 \<longleftrightarrow> cot_seconds a < cot_seconds b"
    and "cal_obj_time_compare a b CALOBJ_SECOND > 0 \<longleftrightarrow> cot_seconds b < cot_seconds a"
    and "cal_obj_time_compare a b CALOBJ_SECOND \<ge> 0 \<longleftrightarrow> cot_seconds b \<le> cot_seconds a"
  using key_less_iff [OF assms] key_less_iff [OF assms(2,1)] by (auto simp: compare_second not_less [symmetric])

text \<open>Ends with a second above 59.\<close>

lemma norm_end_simps [simp]:
  "cot_year (norm_end e) = cot_year e" "cot_month (norm_end e) = cot_month e" "cot_day (norm_end e) = cot_day e"
  "cot_hour (norm_end e) = cot_hour e" "cot_minute (norm_end e) = cot_minute e"
  "cot_date (norm_end e) = cot_date e" "cot_hours (norm_end e) = cot_hours e" "cot_minutes (norm_end e) = cot_minutes e"
  by (simp_all add: norm_end_def cot_date_def cot_hours_def cot_minutes_def)

lemma norm_end_valid: "valid_cot t \<Longrightarrow> norm_end t = t"
  by (simp add: norm_end_def valid_cot_def valid_time_def)

lemma valid_cot_end: "valid_cot t \<Longrightarrow> valid_end t"
  by (simp add: valid_end_def norm_end_valid) (simp add: valid_cot_def valid_time_def)

lemma valid_endD: "valid_end e \<Longrightarrow> valid_cot (norm_end e)"
  by (simp add: valid_end_def)

lemma end_seconds_valid [simp]: "valid_cot t \<Longrightarrow> end_seconds t = cot_seconds t"
  by (simp add: end_seconds_def norm_end_valid)

lemma compare_norm_end:
  assumes "type \<noteq> CALOBJ_SECOND"
  shows "cal_obj_time_compare a (norm_end e) type = cal_obj_time_compare a e type"
    and "cal_obj_time_compare (norm_end e) a type = cal_obj_time_compare e a type"
  using assms by (cases type; simp add: cal_obj_time_compare_def)+

lemma compare_norm_end_second:
  assumes "valid_cot a"
  shows "cal_obj_time_compare a (norm_end e) CALOBJ_SECOND > 0 \<longleftrightarrow> cal_obj_time_compare a e CALOBJ_SECOND > 0"
    and "cal_obj_time_compare (norm_end e) a CALOBJ_SECOND < 0 \<longleftrightarrow> cal_obj_time_compare e a CALOBJ_SECOND < 0"
  using assms by (auto simp: cal_obj_time_compare_def norm_end_def valid_cot_def valid_time_def)

section \<open>Forward moves\<close>

lemma year_mono:
  assumes "valid_cot a" "valid_cot b" "cot_date a \<le> cot_date b"
  shows "cot_year a \<le> cot_year b"
  using day_key_less_iff [of b a] assms by (fastforce simp: valid_cot_def cot_day_key_def)

lemma year_gap:
  assumes "valid_cot a" "valid_cot b" "cot_date b \<le> cot_date a + 365 * k" "0 \<le> k"
  shows "cot_year b \<le> cot_year a + k + 1"
proof (rule ccontr)
  assume n: "\<not> cot_year b \<le> cot_year a + k + 1"
  have v: "cot_date_ok a" "cot_date_ok b" using assms by (auto simp: valid_cot_def)
  have "year_start (cot_year a + 1) + 365 * (cot_year b - (cot_year a + 1)) \<le> year_start (cot_year b)"
    using n v assms(4) by (intro year_start_mono) (auto simp: valid_date_def)
  then show False
    using year_of_date [OF v(1)] year_of_date [OF v(2)] assms(3) n by (simp add: cot_date_def)
qed

lemma occ_valid_forward:
  assumes "occ_valid k a" "cot_year a \<le> 60500" "k \<le> 100" "valid_cot b" "cot_date a \<le> cot_date b" "cot_date b \<le> cot_date a + 365 * 100"
  shows "occ_valid k b"
proof -
  have "cot_year b \<le> cot_year a + 100 + 1"
    using assms(4,6) occ_valid_cot [OF assms(1)] by (intro year_gap) auto
  moreover have "cot_year a \<le> cot_year b" using year_mono [OF occ_valid_cot [OF assms(1)] assms(4,5)] .
  ultimately show ?thesis
    using assms(1-4) by (intro valid_cot_occ) (auto simp: occ_valid_def occ_wf_def)
qed

lemma date_room_forward:
  assumes "valid_cot t" "cot_year t \<le> 60500" "0 \<le> n" "n \<le> 365 * 100"
  shows "date_min \<le> cot_date t + n" "cot_date t + n \<le> date_max"
proof -
  have v: "cot_date_ok t" using assms(1) by (simp add: valid_cot_def)
  show "date_min \<le> cot_date t + n"
    using valid_date_range(1) [OF v] assms(3) by (simp add: cot_date_def)
  have "year_start (cot_year t + 1) + 365 * (65535 - (cot_year t + 1)) \<le> year_start 65535"
    using assms(2) v by (intro year_start_mono) (auto simp: valid_date_def)
  moreover have "year_start 65535 = 23935801" by (simp add: year_start_def)
  ultimately show "cot_date t + n \<le> date_max"
    using year_of_date(2) [OF v] assms(2,4) by (simp add: cot_date_def)
qed

lemma days_forward:
  assumes "occ_valid k t" "cot_year t \<le> 60500" "k \<le> 100" "0 \<le> n" "n \<le> 365 * 100"
  shows "occ_valid k (cal_obj_time_add_days t n)" "cot_date (cal_obj_time_add_days t n) = cot_date t + n"
proof -
  note v = occ_valid_cot [OF assms(1)]
  have a: "valid_cot (cal_obj_time_add_days t n)" "cot_date (cal_obj_time_add_days t n) = cot_date t + n"
    using add_days_valid [OF v date_room_forward [OF v assms(2,4,5)]] by simp_all
  show "cot_date (cal_obj_time_add_days t n) = cot_date t + n" by (rule a(2))
  show "occ_valid k (cal_obj_time_add_days t n)"
    using a assms(4,5) by (intro occ_valid_forward [OF assms(1-3)]) auto
qed

lemma seconds_date_mono:
  assumes "valid_cot a" "valid_cot b" "cot_seconds a \<le> cot_seconds b"
  shows "cot_date a \<le> cot_date b"
  using assms by (auto simp: cot_seconds_def valid_cot_def valid_time_def)

lemma seconds_date_gap:
  assumes "valid_cot a" "valid_cot b" "cot_seconds b \<le> cot_seconds a + 86400 * k"
  shows "cot_date b \<le> cot_date a + k"
  using assms by (auto simp: cot_seconds_def valid_cot_def valid_time_def)

lemma seconds_range:
  assumes "valid_cot t" "cot_year t \<le> 60500" "0 \<le> n" "n \<le> 86400 * 36000"
  shows "seconds_min \<le> cot_seconds t + n" "cot_seconds t + n \<le> seconds_max"
proof -
  note d = date_room_forward [OF assms(1,2), of 36499] date_room_forward [OF assms(1,2), of 0]
  have t: "0 \<le> cot_hour t" "cot_hour t < 24" "0 \<le> cot_minute t" "cot_minute t < 60" "0 \<le> cot_second t" "cot_second t < 60"
    using assms(1) by (auto simp: valid_cot_def valid_time_def)
  show "seconds_min \<le> cot_seconds t + n" using d t assms(3) by (simp add: cot_seconds_def)
  show "cot_seconds t + n \<le> seconds_max" using d t assms(4) by (simp add: cot_seconds_def)
qed

lemma occ_valid_seconds_forward:
  assumes "occ_valid k t" "cot_year t \<le> 60500" "k \<le> 100" "valid_cot b"
    "cot_seconds b = cot_seconds t + n" "0 \<le> n" "n \<le> 86400 * 36000"
  shows "occ_valid k b"
proof -
  note v = occ_valid_cot [OF assms(1)]
  have "cot_date t \<le> cot_date b" using assms(4-6) by (intro seconds_date_mono [OF v]) auto
  moreover have "cot_date b \<le> cot_date t + 36000" using assms(4,5,7) by (intro seconds_date_gap [OF v]) auto
  ultimately show ?thesis by (intro occ_valid_forward [OF assms(1-4)]) auto
qed

lemma clock_forward:
  assumes "occ_valid k t" "cot_year t \<le> 60500" "k \<le> 100" "0 \<le> n"
  shows "n \<le> 86400 * 36000 \<Longrightarrow> occ_valid k (cal_obj_time_add_seconds t n) \<and> cot_seconds (cal_obj_time_add_seconds t n) = cot_seconds t + n"
    and "n * 60 \<le> 86400 * 36000 \<Longrightarrow> occ_valid k (cal_obj_time_add_minutes t n) \<and> cot_seconds (cal_obj_time_add_minutes t n) = cot_seconds t + n * 60"
    and "n * 3600 \<le> 86400 * 36000 \<Longrightarrow> occ_valid k (cal_obj_time_add_hours t n) \<and> cot_seconds (cal_obj_time_add_hours t n) = cot_seconds t + n * 3600"
proof -
  note v = occ_valid_cot [OF assms(1)] and f = occ_valid_seconds_forward [OF assms(1-3)]
  show "occ_valid k (cal_obj_time_add_seconds t n) \<and> cot_seconds (cal_obj_time_add_seconds t n) = cot_seconds t + n"
    if r: "n \<le> 86400 * 36000"
    using add_seconds_valid [OF v seconds_range [OF v assms(2,4) r]] f [OF _ _ assms(4) r] by simp
  show "occ_valid k (cal_obj_time_add_minutes t n) \<and> cot_seconds (cal_obj_time_add_minutes t n) = cot_seconds t + n * 60"
    if r: "n * 60 \<le> 86400 * 36000"
  proof -
    have p: "0 \<le> n * 60" using assms(4) by simp
    show ?thesis using add_minutes_valid [OF v seconds_range [OF v assms(2) p r]] f [OF _ _ p r] by simp
  qed
  show "occ_valid k (cal_obj_time_add_hours t n) \<and> cot_seconds (cal_obj_time_add_hours t n) = cot_seconds t + n * 3600"
    if r: "n * 3600 \<le> 86400 * 36000"
  proof -
    have p: "0 \<le> n * 3600" using assms(4) by simp
    show ?thesis using add_hours_valid [OF v seconds_range [OF v assms(2) p r]] f [OF _ _ p r] by simp
  qed
qed

text \<open>Hours and minutes as quotients of the seconds.\<close>

lemma hours_of_seconds: "valid_cot t \<Longrightarrow> cot_hours t = cot_seconds t div 3600"
  using int_div_mod_unique [of "cot_seconds t" 3600 "cot_hours t" "cot_minute t * 60 + cot_second t"]
  by (simp add: cot_hours_def cot_seconds_def valid_cot_def valid_time_def)

lemma minutes_of_seconds: "valid_cot t \<Longrightarrow> cot_minutes t = cot_seconds t div 60"
  using int_div_mod_unique [of "cot_seconds t" 60 "cot_minutes t" "cot_second t"]
  by (simp add: cot_minutes_def cot_hours_def cot_seconds_def valid_cot_def valid_time_def)

section \<open>The contract\<close>

locale recur_position =
  fixes find_next :: "cal_obj_time \<Rightarrow> cal_obj_time option \<Rightarrow> recur_data \<Rightarrow> cal_obj_time option \<Rightarrow> cal_obj_time option"
    and ok :: "cal_obj_time \<Rightarrow> bool"
    and pos :: "recur_data \<Rightarrow> cal_obj_time \<Rightarrow> int"
    and lim :: "cal_obj_time \<Rightarrow> int"
    and stride :: "e_cal_recurrence \<Rightarrow> int"
  assumes step: "rd_ok rd \<Longrightarrow> ok t \<Longrightarrow> cot_year t \<le> 60500 \<Longrightarrow> end_ok ee \<Longrightarrow> end_ok ie \<Longrightarrow>
      \<exists>t'. ok t' \<and> pos rd t' = pos rd t + stride (rd_recur rd)
        \<and> find_next t ee rd ie = (if past lim (pos rd t') ee \<or> past lim (pos rd t') ie then None else Some t')"
    and near: "rd_ok rd \<Longrightarrow> ok t \<Longrightarrow> valid_end e \<Longrightarrow> cot_year e \<le> 60000 \<Longrightarrow> pos rd t \<le> lim e \<Longrightarrow> cot_year t \<le> 60500"
    and stride_pos: "rd_ok rd \<Longrightarrow> 0 < stride (rd_recur rd)"
begin

text \<open>The last position the ends allow, and the positions up to it.\<close>

lemma periods:
  assumes rd: "rd_ok rd" and ee: "end_ok ee" and e: "valid_end e" "cot_year e \<le> 60000"
  shows "ok t \<Longrightarrow> pos rd t \<le> lim e \<Longrightarrow> \<not> past lim (pos rd t) ee \<Longrightarrow>
    \<exists>ps. period_loop (\<lambda>t. find_next t ee rd (Some e)) t = Some ps
      \<and> (\<forall>p \<in> set ps. ok p \<and> cot_year p \<le> 60500)
      \<and> (\<exists>n. map (pos rd) ps = map (\<lambda>i. pos rd t + int i * stride (rd_recur rd)) [0..<Suc n]
           \<and> (\<forall>i. i \<le> n \<longleftrightarrow> pos rd t + int i * stride (rd_recur rd) \<le> lim e
                 \<and> \<not> past lim (pos rd t + int i * stride (rd_recur rd)) ee))"
proof (induction "nat (lim e - pos rd t)" arbitrary: t rule: less_induct)
  case less
  let ?s = "stride (rd_recur rd)"
  have s: "0 < ?s" using rd by (rule stride_pos)
  have y: "cot_year t \<le> 60500" using near [OF rd less.prems(1) e less.prems(2)] .
  have ie: "end_ok (Some e)" using e by (simp add: end_ok_def)
  obtain t' where t': "ok t'" "pos rd t' = pos rd t + ?s"
    "find_next t ee rd (Some e) = (if past lim (pos rd t') ee \<or> past lim (pos rd t') (Some e) then None else Some t')"
    using step [OF rd less.prems(1) y ee ie] by blast
  have mono: "past lim p x \<Longrightarrow> p \<le> q \<Longrightarrow> past lim q x" for p q x by (auto simp: past_def split: option.splits)
  show ?case
  proof (cases "past lim (pos rd t') ee \<or> past lim (pos rd t') (Some e)")
    case True
    have l: "period_loop (\<lambda>t. find_next t ee rd (Some e)) t = Some [t]"
      using t'(3) True by (subst period_loop.simps) simp
    have far: "past lim (pos rd t + int i * ?s) ee \<or> past lim (pos rd t + int i * ?s) (Some e)" if "0 < i" for i
    proof -
      have "pos rd t' \<le> pos rd t + int i * ?s" using that s by (simp add: t'(2) mult_le_cancel_right1)
      then show ?thesis using True mono by blast
    qed
    have "i \<le> 0 \<longleftrightarrow> pos rd t + int i * ?s \<le> lim e \<and> \<not> past lim (pos rd t + int i * ?s) ee" for i
      using far [of i] less.prems(2,3) by (cases "i = 0") (auto simp: past_def [of _ _ "Some e"])
    then show ?thesis using l less.prems(1) y by (intro exI [of _ "[t]"]) (auto intro!: exI [of _ 0])
  next
    case False
    then have n: "find_next t ee rd (Some e) = Some t'" "pos rd t' \<le> lim e" "\<not> past lim (pos rd t') ee"
      using t'(3) by (auto simp: past_def)
    have "nat (lim e - pos rd t') < nat (lim e - pos rd t)" using n(2) t'(2) s by simp
    from less.hyps [OF this t'(1) n(2,3)] obtain ps m where ps:
      "period_loop (\<lambda>t. find_next t ee rd (Some e)) t' = Some ps" "\<forall>p \<in> set ps. ok p \<and> cot_year p \<le> 60500"
      "map (pos rd) ps = map (\<lambda>i. pos rd t' + int i * ?s) [0..<Suc m]"
      "\<And>i. i \<le> m \<longleftrightarrow> pos rd t' + int i * ?s \<le> lim e \<and> \<not> past lim (pos rd t' + int i * ?s) ee" by blast
    have shift: "pos rd t' + int i * ?s = pos rd t + int (Suc i) * ?s" for i by (simp add: t'(2) algebra_simps)
    have a: "period_loop (\<lambda>t. find_next t ee rd (Some e)) t = Some (t # ps)"
      using n(1) ps(1) by (subst period_loop.simps) simp
    have b: "map (pos rd) (t # ps) = map (\<lambda>i. pos rd t + int i * ?s) [0..<Suc (Suc m)]"
      unfolding upt_conv_Cons [OF zero_less_Suc] list.map ps(3) shift map_Suc_upt [symmetric] map_map comp_def by simp
    have c: "i \<le> Suc m \<longleftrightarrow> pos rd t + int i * ?s \<le> lim e \<and> \<not> past lim (pos rd t + int i * ?s) ee" for i
    proof (cases i)
      case (Suc j)
      then show ?thesis using ps(4) [of j] unfolding shift by simp
    qed (use less.prems in simp)
    have d: "\<forall>p \<in> set (t # ps). ok p \<and> cot_year p \<le> 60500" using ps(2) less.prems(1) y by simp
    show ?thesis
      by (rule exI [of _ "t # ps"], intro conjI, rule a, rule d, rule exI [of _ "Suc m"], intro conjI allI, rule b, rule c)
  qed
qed

end

section \<open>The seven frequencies\<close>

lemma rd_ok_interval: "rd_ok rd \<Longrightarrow> 0 < interval (rd_recur rd) \<and> interval (rd_recur rd) < 1000"
  by (simp add: rd_ok_def recur_ok_def)

lemma rd_ok_offset: "rd_ok rd \<Longrightarrow> 0 \<le> rd_weekday_offset rd \<and> rd_weekday_offset rd < 7"
  by (simp add: rd_ok_def)

lemma valid_cot_month: "valid_cot e \<Longrightarrow> 0 \<le> cot_month e \<and> cot_month e < 12"
  by (simp add: valid_cot_def valid_date_def)

lemma valid_end_month: "valid_end e \<Longrightarrow> 0 \<le> cot_month e \<and> cot_month e < 12"
  using valid_cot_month [of "norm_end e"] by (simp add: valid_end_def)

lemma after_end_month:
  assumes "0 \<le> cot_month t" "cot_month t < 12" "end_ok e"
  shows "after_end t e CALOBJ_MONTH \<longleftrightarrow> past cot_months (cot_months t) e"
  using assms compare_month_iff(2) [of t] valid_end_month
  by (auto simp: after_end_def past_def end_ok_def split: option.splits)

lemma after_end_iffs:
  assumes "valid_cot t" "end_ok e"
  shows "after_end t e CALOBJ_DAY \<longleftrightarrow> past cot_date (cot_date t) e"
    and "after_end t e CALOBJ_HOUR \<longleftrightarrow> past cot_hours (cot_hours t) e"
    and "after_end t e CALOBJ_MINUTE \<longleftrightarrow> past cot_minutes (cot_minutes t) e"
    and "after_end t e CALOBJ_SECOND \<longleftrightarrow> past end_seconds (cot_seconds t) e"
  using assms compare_day_iff(2) [of t "norm_end _"] compare_hour_iff(2) [of t "norm_end _"]
    compare_minute_iff(2) [of t "norm_end _"] compare_second_iff(2) [of t "norm_end _"]
  by (auto simp: after_end_def past_def end_ok_def valid_end_def compare_norm_end compare_norm_end_second end_seconds_def
      split: option.splits)

lemma compare_end_second:
  assumes "valid_cot t" "valid_end e"
  shows "cal_obj_time_compare t e CALOBJ_SECOND \<ge> 0 \<longleftrightarrow> end_limit e < cot_seconds t"
proof (cases "cot_second e < 60")
  case True
  then have "norm_end e = e" by (simp add: norm_end_def)
  then have "valid_cot e" using assms(2) by (simp add: valid_end_def)
  then show ?thesis using compare_second_iff(3) [OF assms(1)] True
    by (auto simp: end_limit_def cot_seconds_def cot_minutes_def cot_hours_def)
next
  case False
  have t: "0 \<le> cot_second t" "cot_second t < 60" using assms(1) by (auto simp: valid_cot_def valid_time_def)
  have "cal_obj_time_compare t e CALOBJ_SECOND \<ge> 0 \<longleftrightarrow> cal_obj_time_compare t e CALOBJ_MINUTE > 0"
    using t False by (auto simp: cal_obj_time_compare_def)
  also have "\<dots> \<longleftrightarrow> cot_minutes e < cot_minutes t"
    using compare_minute_iff(2) [OF assms(1) valid_endD [OF assms(2)]] by (simp add: compare_norm_end)
  finally show ?thesis using t False
    by (auto simp: end_limit_def cot_seconds_def cot_minutes_def cot_hours_def)
qed

lemma at_end_second:
  assumes "valid_cot t" "end_ok e"
  shows "(case e of None \<Rightarrow> False | Some e \<Rightarrow> cal_obj_time_compare t e CALOBJ_SECOND \<ge> 0)
    \<longleftrightarrow> past end_limit (cot_seconds t) e"
  using assms compare_end_second by (auto simp: past_def end_ok_def split: option.splits)

interpretation yearly: recur_position cal_obj_yearly_find_next_position "occ_wf 8" "\<lambda>rd. cot_year" cot_year interval
proof
  fix rd t ee ie
  assume a: "rd_ok rd" "occ_wf 8 t" "cot_year t \<le> 60500"
  let ?t = "t\<lparr>cot_year := cot_year t + interval (rd_recur rd)\<rparr>"
  have "u16 (cot_year t + interval (rd_recur rd)) = cot_year t + interval (rd_recur rd)" "occ_wf 8 ?t"
    using a rd_ok_interval [of rd] by (auto simp: occ_wf_def valid_time_def)
  then show "\<exists>t'. occ_wf 8 t' \<and> cot_year t' = cot_year t + interval (rd_recur rd) \<and>
      cal_obj_yearly_find_next_position t ee rd ie =
      (if past cot_year (cot_year t') ee \<or> past cot_year (cot_year t') ie then None else Some t')"
    by (intro exI [of _ ?t]) (simp add: cal_obj_yearly_find_next_position_def past_def Let_def split: option.split)
qed (auto simp: rd_ok_interval)

lemma months_forward:
  assumes "occ_wf k t" "cot_year t \<le> 60500" "k \<le> 100" "0 \<le> n" "n < 12000"
  shows "occ_wf k (cal_obj_time_add_months t n)" "cot_months (cal_obj_time_add_months t n) = cot_months t + n"
proof -
  have m: "0 \<le> cot_month t" "cot_month t < 12" "0 \<le> cot_year t" using assms(1) by (auto simp: occ_wf_def)
  have d: "0 \<le> (cot_month t + n) div 12" "(cot_month t + n) div 12 \<le> 1000"
    using m assms(4,5) by (auto simp: pos_imp_zdiv_nonneg_iff)
  have e: "cal_obj_time_add_months t n =
      t\<lparr>cot_year := cot_year t + (cot_month t + n) div 12, cot_month := (cot_month t + n) mod 12\<rparr>"
    using m d assms(2,4,5) by (intro add_months_result) auto
  show "occ_wf k (cal_obj_time_add_months t n)" using assms d by (auto simp: e occ_wf_def valid_time_def)
  show "cot_months (cal_obj_time_add_months t n) = cot_months t + n"
    using div_mult_mod_eq [of "cot_month t + n" 12] by (simp add: e cot_months_def)
qed

interpretation monthly: recur_position cal_obj_monthly_find_next_position "occ_wf 8" "\<lambda>rd. cot_months" cot_months interval
proof
  fix rd t ee ie
  assume a: "rd_ok rd" "occ_wf 8 t" "cot_year t \<le> 60500" "end_ok ee" "end_ok ie"
  let ?t = "cal_obj_time_add_months t (interval (rd_recur rd))"
  have t: "occ_wf 8 ?t" "cot_months ?t = cot_months t + interval (rd_recur rd)"
    using months_forward [of 8 t "interval (rd_recur rd)"] a rd_ok_interval [of rd] by auto
  then have "0 \<le> cot_month ?t" "cot_month ?t < 12" by (auto simp: occ_wf_def)
  then show "\<exists>t'. occ_wf 8 t' \<and> cot_months t' = cot_months t + interval (rd_recur rd) \<and>
      cal_obj_monthly_find_next_position t ee rd ie =
      (if past cot_months (cot_months t') ee \<or> past cot_months (cot_months t') ie then None else Some t')"
    using t a(4,5) by (intro exI [of _ ?t]) (simp add: cal_obj_monthly_find_next_position_def after_end_month Let_def)
next
  fix t e assume "occ_wf 8 t" "valid_end e" "cot_year e \<le> 60000" "cot_months t \<le> cot_months e"
  then show "cot_year t \<le> 60500" using valid_end_month [of e] by (auto simp: occ_wf_def cot_months_def)
qed (auto simp: rd_ok_interval)

lemma near_date:
  assumes "occ_valid 8 t" "valid_end e" "cot_year e \<le> 60000" "cot_date t \<le> cot_date e + 365"
  shows "cot_year t \<le> 60500"
  using year_gap [of "norm_end e" t 1] occ_valid_cot [OF assms(1)] assms by (simp add: valid_end_def)

interpretation weekly: recur_position cal_obj_weekly_find_next_position "occ_valid 8"
  "\<lambda>rd t. cot_date t - rd_weekday_offset rd" cot_date "\<lambda>r. interval r * 7"
proof
  fix rd t ee ie
  assume a: "rd_ok rd" "occ_valid 8 t" "cot_year t \<le> 60500" "end_ok ee" "end_ok ie"
  note i = rd_ok_interval [OF a(1)] and o = rd_ok_offset [OF a(1)]
  let ?t = "cal_obj_time_add_days t (interval (rd_recur rd) * 7)"
  let ?w = "cal_obj_time_add_days ?t (- rd_weekday_offset rd)"
  have t: "occ_valid 8 ?t" "cot_date ?t = cot_date t + interval (rd_recur rd) * 7"
    using days_forward [OF a(2,3), of "interval (rd_recur rd) * 7"] i by simp_all
  have "occ_valid 7 ?w" "cot_date ?w = cot_date ?t - rd_weekday_offset rd"
    using occ_valid_add_days [of 7 ?t "- rd_weekday_offset rd"] t o by simp_all
  moreover have "valid_cot ?w" using \<open>occ_valid 7 ?w\<close> by (rule occ_valid_cot)
  ultimately show "\<exists>t'. occ_valid 8 t' \<and>
      cot_date t' - rd_weekday_offset rd = cot_date t - rd_weekday_offset rd + interval (rd_recur rd) * 7 \<and>
      cal_obj_weekly_find_next_position t ee rd ie =
      (if past cot_date (cot_date t' - rd_weekday_offset rd) ee \<or> past cot_date (cot_date t' - rd_weekday_offset rd) ie
       then None else Some t')"
    using t a(4,5) by (intro exI [of _ ?t]) (simp add: cal_obj_weekly_find_next_position_def after_end_iffs Let_def)
next
  fix rd t e
  assume "rd_ok rd" "occ_valid 8 t" "valid_end e" "cot_year e \<le> 60000" "cot_date t - rd_weekday_offset rd \<le> cot_date e"
  then show "cot_year t \<le> 60500" using rd_ok_offset [of rd] by (intro near_date) auto
qed (auto simp: rd_ok_interval)

interpretation daily: recur_position cal_obj_daily_find_next_position "occ_valid 8" "\<lambda>rd. cot_date" cot_date interval
proof
  fix rd t ee ie
  assume a: "rd_ok rd" "occ_valid 8 t" "cot_year t \<le> 60500" "end_ok ee" "end_ok ie"
  let ?t = "cal_obj_time_add_days t (interval (rd_recur rd))"
  have t: "occ_valid 8 ?t" "cot_date ?t = cot_date t + interval (rd_recur rd)"
    using days_forward [OF a(2,3), of "interval (rd_recur rd)"] rd_ok_interval [OF a(1)] by simp_all
  then show "\<exists>t'. occ_valid 8 t' \<and> cot_date t' = cot_date t + interval (rd_recur rd) \<and>
      cal_obj_daily_find_next_position t ee rd ie =
      (if past cot_date (cot_date t') ee \<or> past cot_date (cot_date t') ie then None else Some t')"
    using a(4,5) occ_valid_cot [OF t(1)]
    by (intro exI [of _ ?t]) (simp add: cal_obj_daily_find_next_position_def after_end_iffs Let_def)
next
  fix t e assume "occ_valid 8 t" "valid_end e" "cot_year e \<le> 60000" "cot_date t \<le> cot_date e"
  then show "cot_year t \<le> 60500" by (intro near_date) auto
qed (auto simp: rd_ok_interval)

interpretation hourly: recur_position cal_obj_hourly_find_next_position "occ_valid 8" "\<lambda>rd. cot_hours" cot_hours interval
proof
  fix rd t ee ie
  assume a: "rd_ok rd" "occ_valid 8 t" "cot_year t \<le> 60500" "end_ok ee" "end_ok ie"
  let ?t = "cal_obj_time_add_hours t (interval (rd_recur rd))"
  have t: "occ_valid 8 ?t" "cot_seconds ?t = cot_seconds t + interval (rd_recur rd) * 3600"
    using clock_forward(3) [OF a(2,3), of "interval (rd_recur rd)"] rd_ok_interval [OF a(1)] by simp_all
  note v = occ_valid_cot [OF a(2)] occ_valid_cot [OF t(1)]
  have "cot_hours ?t = cot_hours t + interval (rd_recur rd)" by (simp add: hours_of_seconds v t(2))
  then show "\<exists>t'. occ_valid 8 t' \<and> cot_hours t' = cot_hours t + interval (rd_recur rd) \<and>
      cal_obj_hourly_find_next_position t ee rd ie =
      (if past cot_hours (cot_hours t') ee \<or> past cot_hours (cot_hours t') ie then None else Some t')"
    using a(4,5) v t(1)
    by (intro exI [of _ ?t]) (simp add: cal_obj_hourly_find_next_position_def after_end_iffs Let_def)
next
  fix t e assume "occ_valid 8 t" "valid_end e" "cot_year e \<le> 60000" "cot_hours t \<le> cot_hours e"
  then show "cot_year t \<le> 60500" using near_date [of t e] by (auto simp: cot_hours_def valid_end_def valid_cot_def valid_time_def occ_valid_def occ_wf_def)
qed (auto simp: rd_ok_interval)

interpretation minutely: recur_position cal_obj_minutely_find_next_position "occ_valid 8" "\<lambda>rd. cot_minutes" cot_minutes interval
proof
  fix rd t ee ie
  assume a: "rd_ok rd" "occ_valid 8 t" "cot_year t \<le> 60500" "end_ok ee" "end_ok ie"
  let ?t = "cal_obj_time_add_minutes t (interval (rd_recur rd))"
  have t: "occ_valid 8 ?t" "cot_seconds ?t = cot_seconds t + interval (rd_recur rd) * 60"
    using clock_forward(2) [OF a(2,3), of "interval (rd_recur rd)"] rd_ok_interval [OF a(1)] by simp_all
  note v = occ_valid_cot [OF a(2)] occ_valid_cot [OF t(1)]
  have "cot_minutes ?t = cot_minutes t + interval (rd_recur rd)" by (simp add: minutes_of_seconds v t(2))
  then show "\<exists>t'. occ_valid 8 t' \<and> cot_minutes t' = cot_minutes t + interval (rd_recur rd) \<and>
      cal_obj_minutely_find_next_position t ee rd ie =
      (if past cot_minutes (cot_minutes t') ee \<or> past cot_minutes (cot_minutes t') ie then None else Some t')"
    using a(4,5) v t(1)
    by (intro exI [of _ ?t]) (simp add: cal_obj_minutely_find_next_position_def after_end_iffs Let_def)
next
  fix t e assume "occ_valid 8 t" "valid_end e" "cot_year e \<le> 60000" "cot_minutes t \<le> cot_minutes e"
  then show "cot_year t \<le> 60500" using near_date [of t e]
    by (auto simp: cot_minutes_def cot_hours_def valid_end_def valid_cot_def valid_time_def occ_valid_def occ_wf_def)
qed (auto simp: rd_ok_interval)

interpretation secondly: recur_position cal_obj_secondly_find_next_position "occ_valid 8" "\<lambda>rd. cot_seconds"
  end_limit interval
proof
  fix rd t ee ie
  assume a: "rd_ok rd" "occ_valid 8 t" "cot_year t \<le> 60500" "end_ok ee" "end_ok ie"
  let ?t = "cal_obj_time_add_seconds t (interval (rd_recur rd))"
  have t: "occ_valid 8 ?t" "cot_seconds ?t = cot_seconds t + interval (rd_recur rd)"
    using clock_forward(1) [OF a(2,3), of "interval (rd_recur rd)"] rd_ok_interval [OF a(1)] by simp_all
  note v = occ_valid_cot [OF t(1)]
  show "\<exists>t'. occ_valid 8 t' \<and> cot_seconds t' = cot_seconds t + interval (rd_recur rd) \<and>
      cal_obj_secondly_find_next_position t ee rd ie =
      (if past end_limit (cot_seconds t') ee \<or> past end_limit (cot_seconds t') ie
       then None else Some t')"
    using t unfolding cal_obj_secondly_find_next_position_def Let_def at_end_second [OF v a(4)] at_end_second [OF v a(5)]
    by (intro exI [of _ ?t]) simp
next
  fix t e assume "occ_valid 8 t" "valid_end e" "cot_year e \<le> 60000" "cot_seconds t \<le> end_limit e"
  then show "cot_year t \<le> 60500" using near_date [of t e]
    by (auto simp: end_limit_def cot_seconds_def cot_minutes_def cot_hours_def valid_end_def valid_cot_def valid_time_def occ_valid_def occ_wf_def)
qed (auto simp: rd_ok_interval)

end
