(* ===== verification/Recur_Start_Laws.thy ===== *)
theory Recur_Start_Laws
  imports Recur_Position_Laws
begin

text \<open>
  The first position. \<open>first_position\<close> is what the comments of the code ask for: the first position
  that is a multiple of the recurrence interval away from the start of the event and not before the
  goal, the position of the start of the requested interval. All seven functions find such a
  position; for the MINUTELY and SECONDLY frequencies the goal differs from the start of the interval
  by a multiple of the difference of the hours, which the code weights with 24 and 24 * 60 in place
  of 60 and 60 * 60.
\<close>

definition first_position :: "int \<Rightarrow> int \<Rightarrow> int \<Rightarrow> int \<Rightarrow> bool" where
  "first_position p0 goal s q \<longleftrightarrow> p0 \<le> q \<and> goal \<le> q \<and> s dvd (q - p0) \<and> (q = p0 \<or> q - s < goal)"

text \<open>The early returns: the event starts after the interval, or ends before it.\<close>

definition no_overlap :: "(cal_obj_time \<Rightarrow> int) \<Rightarrow> cal_obj_time \<Rightarrow> cal_obj_time option \<Rightarrow> cal_obj_time \<Rightarrow> cal_obj_time option \<Rightarrow> bool" where
  "no_overlap upos es ee is ie \<longleftrightarrow> past upos (upos es) ie \<or> (case ee of None \<Rightarrow> False | Some e \<Rightarrow> upos e < upos is)"

definition span_ok :: "cal_obj_time \<Rightarrow> cal_obj_time \<Rightarrow> bool" where
  "span_ok es is \<longleftrightarrow> occ_valid 8 es \<and> cot_year es \<le> 60500 \<and> valid_cot is \<and> cot_date is \<le> cot_date es + 20000"

section \<open>Rounding up to the interval\<close>

lemma round_up:
  fixes d s :: int
  assumes "0 < s" "0 \<le> d"
  defines "m \<equiv> d + s - 1 - (d + s - 1) mod s"
  shows "s dvd m" "d \<le> m" "m < d + s" "0 \<le> m"
proof -
  have r: "0 \<le> (d + s - 1) mod s" "(d + s - 1) mod s < s" using assms(1) by auto
  show "s dvd m" unfolding m_def by (simp add: minus_mod_eq_mult_div)
  show d: "d \<le> m" "m < d + s" using r by (auto simp: m_def)
  show "0 \<le> m" using d assms(2) by linarith
qed

lemma first_position_round:
  assumes "0 < s" "p0 \<le> goal"
  shows "first_position p0 goal s (p0 + (goal - p0 + s - 1 - (goal - p0 + s - 1) mod s))"
proof -
  define m where "m = goal - p0 + s - 1 - (goal - p0 + s - 1) mod s"
  have "s dvd m" "goal - p0 \<le> m" "m < goal - p0 + s" "0 \<le> m"
    using round_up [OF assms(1), of "goal - p0"] assms(2) unfolding m_def by simp_all
  then show ?thesis unfolding first_position_def m_def [symmetric] by auto
qed

lemma first_position_same: "goal \<le> p0 \<Longrightarrow> first_position p0 goal s p0"
  by (simp add: first_position_def)

section \<open>The contract\<close>

locale recur_start = recur_position +
  fixes find_start :: "gdate_lib \<Rightarrow> cal_obj_time \<Rightarrow> cal_obj_time option \<Rightarrow> recur_data \<Rightarrow> cal_obj_time \<Rightarrow> cal_obj_time option \<Rightarrow> cal_obj_time option"
    and upos :: "cal_obj_time \<Rightarrow> int"
    and goal :: "recur_data \<Rightarrow> cal_obj_time \<Rightarrow> cal_obj_time \<Rightarrow> int"
  assumes start: "gdate_contract G \<Longrightarrow> rd_ok rd \<Longrightarrow>
      rd_weekday_offset rd = cal_obj_time_weekday_offset G es (week_start_day (rd_recur rd)) \<Longrightarrow>
      span_ok es is \<Longrightarrow> end_ok ee \<Longrightarrow> end_ok ie \<Longrightarrow> (upos es < upos is \<longrightarrow> pos rd es \<le> goal rd es is) \<Longrightarrow>
      \<exists>t. ok t
        \<and> (if upos es < upos is then first_position (pos rd es) (goal rd es is) (stride (rd_recur rd)) (pos rd t) else t = es)
        \<and> find_start G es ee rd is ie =
            (if no_overlap upos es ee is ie \<or> past lim (pos rd t) ee \<or> past lim (pos rd t) ie then None else Some t)"
begin

lemma visited:
  assumes c: "gdate_contract G" "rd_ok rd" "rd_weekday_offset rd = cal_obj_time_weekday_offset G es (week_start_day (rd_recur rd))"
    "span_ok es is" "end_ok ee" "valid_end e" "cot_year e \<le> 60000" "upos es < upos is \<longrightarrow> pos rd es \<le> goal rd es is"
  shows "\<exists>ps. (case find_start G es ee rd is (Some e) of None \<Rightarrow> Some []
                | Some t \<Rightarrow> period_loop (\<lambda>t. find_next t ee rd (Some e)) t) = Some ps
      \<and> (\<forall>p \<in> set ps. ok p \<and> cot_year p \<le> 60500)
      \<and> sorted_wrt (<) (map (pos rd) ps)
      \<and> pos rd ` set ps = {p. \<not> no_overlap upos es ee is (Some e)
           \<and> pos rd es \<le> p \<and> stride (rd_recur rd) dvd (p - pos rd es)
           \<and> (upos es < upos is \<longrightarrow> goal rd es is \<le> p) \<and> p \<le> lim e \<and> \<not> past lim p ee}"
proof -
  let ?s = "stride (rd_recur rd)"
  have s: "0 < ?s" using c(2) by (rule stride_pos)
  have mono: "past lim p x \<Longrightarrow> p \<le> q \<Longrightarrow> past lim q x" for p q x by (auto simp: past_def split: option.splits)
  have ie: "end_ok (Some e)" using c(6) by (simp add: end_ok_def)
  obtain t where t: "ok t"
      "if upos es < upos is then first_position (pos rd es) (goal rd es is) ?s (pos rd t) else t = es"
      "find_start G es ee rd is (Some e) =
        (if no_overlap upos es ee is (Some e) \<or> past lim (pos rd t) ee \<or> past lim (pos rd t) (Some e) then None else Some t)"
    using start [OF c(1-5) ie c(8)] by blast
  have reach: "pos rd es \<le> p \<and> ?s dvd (p - pos rd es) \<and> (upos es < upos is \<longrightarrow> goal rd es is \<le> p)
      \<longleftrightarrow> pos rd t \<le> p \<and> ?s dvd (p - pos rd t)" for p
  proof (cases "upos es < upos is")
    case True
    then have f: "first_position (pos rd es) (goal rd es is) ?s (pos rd t)" using t(2) by simp
    then have d: "?s dvd (p - pos rd es) \<longleftrightarrow> ?s dvd (p - pos rd t)"
      using dvd_add_left_iff [of ?s "pos rd t - pos rd es" "p - pos rd t"] by (simp add: first_position_def)
    have "pos rd t \<le> p" if "pos rd es \<le> p" "?s dvd (p - pos rd t)" "goal rd es is \<le> p"
    proof (rule ccontr)
      assume n: "\<not> pos rd t \<le> p"
      then have "?s dvd (pos rd t - p)" using that(2) by (metis dvd_minus_iff minus_diff_eq)
      then have "?s \<le> pos rd t - p" using n by (intro zdvd_imp_le) auto
      then show False using f n that(1,3) by (auto simp: first_position_def)
    qed
    then show ?thesis using True f d by (auto simp: first_position_def)
  next
    case False
    then show ?thesis using t(2) by auto
  qed
  show ?thesis
  proof (cases "no_overlap upos es ee is (Some e) \<or> past lim (pos rd t) ee \<or> past lim (pos rd t) (Some e)")
    case True
    have "False" if "\<not> no_overlap upos es ee is (Some e)" "pos rd t \<le> p" "p \<le> lim e" "\<not> past lim p ee" for p
      using True that mono [of "pos rd t" ee p] by (auto simp: past_def [of _ _ "Some e"])
    then have "{p. \<not> no_overlap upos es ee is (Some e)
           \<and> pos rd es \<le> p \<and> ?s dvd (p - pos rd es)
           \<and> (upos es < upos is \<longrightarrow> goal rd es is \<le> p) \<and> p \<le> lim e \<and> \<not> past lim p ee} = {}"
      using reach by blast
    then show ?thesis using t(3) True by simp
  next
    case False
    then have n: "pos rd t \<le> lim e" "\<not> past lim (pos rd t) ee" "\<not> no_overlap upos es ee is (Some e)"
      "find_start G es ee rd is (Some e) = Some t" using t(3) by (auto simp: past_def)
    obtain ps k where ps: "period_loop (\<lambda>t. find_next t ee rd (Some e)) t = Some ps"
        "\<forall>p \<in> set ps. ok p \<and> cot_year p \<le> 60500"
        "map (pos rd) ps = map (\<lambda>i. pos rd t + int i * ?s) [0..<Suc k]"
        "\<And>i. i \<le> k \<longleftrightarrow> pos rd t + int i * ?s \<le> lim e \<and> \<not> past lim (pos rd t + int i * ?s) ee"
      using periods [OF c(2,5,6,7) t(1) n(1,2)] by blast
    have sw: "sorted_wrt (<) (map (pos rd) ps)"
      unfolding ps(3) using s by (auto simp: sorted_wrt_iff_nth_less simp del: upt_Suc)
    have im: "pos rd ` set ps = (\<lambda>i. pos rd t + int i * ?s) ` {..k}"
      using arg_cong [OF ps(3), of set] by (simp add: lessThan_Suc_atMost atLeast0LessThan del: upt_Suc)
    have "p \<in> (\<lambda>i. pos rd t + int i * ?s) ` {..k} \<longleftrightarrow> pos rd t \<le> p \<and> ?s dvd (p - pos rd t) \<and> p \<le> lim e \<and> \<not> past lim p ee" for p
    proof
      assume "p \<in> (\<lambda>i. pos rd t + int i * ?s) ` {..k}"
      then show "pos rd t \<le> p \<and> ?s dvd (p - pos rd t) \<and> p \<le> lim e \<and> \<not> past lim p ee" using ps(4) s by auto
    next
      assume a: "pos rd t \<le> p \<and> ?s dvd (p - pos rd t) \<and> p \<le> lim e \<and> \<not> past lim p ee"
      then obtain c where c: "p - pos rd t = ?s * c" by (auto simp: dvd_def)
      then have "0 \<le> c" using a s by (metis diff_ge_0_iff_ge zero_le_mult_iff not_less)
      then have p: "p = pos rd t + int (nat c) * ?s" using c by (simp add: algebra_simps)
      then have "nat c \<le> k" using a ps(4) [of "nat c"] by simp
      then show "p \<in> (\<lambda>i. pos rd t + int i * ?s) ` {..k}" using p by blast
    qed
    then have "pos rd ` set ps = {p. \<not> no_overlap upos es ee is (Some e)
           \<and> pos rd es \<le> p \<and> ?s dvd (p - pos rd es)
           \<and> (upos es < upos is \<longrightarrow> goal rd es is \<le> p) \<and> p \<le> lim e \<and> \<not> past lim p ee}"
      unfolding im using reach n(3) by blast
    then show ?thesis using ps(1,2) sw n(4) by simp
  qed
qed

end

section \<open>The seven frequencies\<close>

lemma overlap_past:
  assumes "upos es \<le> q" "upos is \<le> q" "no_overlap upos es ee is ie"
  shows "past upos q ee \<or> past upos q ie"
  using assms by (auto simp: no_overlap_def past_def split: option.splits)

lemma span_okD:
  assumes "span_ok es is"
  shows "occ_valid 8 es" "occ_wf 8 es" "valid_cot es" "valid_cot is" "cot_year es \<le> 60500" "cot_date is \<le> cot_date es + 20000"
  using assms by (auto simp: span_ok_def occ_valid_wf occ_valid_cot)

interpretation yearly: recur_start cal_obj_yearly_find_next_position "occ_wf 8" "\<lambda>rd. cot_year" cot_year interval
  cal_obj_yearly_find_start_position cot_year "\<lambda>rd es is. cot_year is"
proof
  fix G rd es "is" ee ie
  assume rd: "rd_ok rd" and sp: "span_ok es is"
  note i = rd_ok_interval [OF rd] and s = span_okD [OF sp]
  let ?d = "cot_year is - cot_year es" and ?i = "interval (rd_recur rd)"
  define m where "m = ?d + ?i - 1 - (?d + ?i - 1) mod ?i"
  define t where "t = (if cot_year es < cot_year is then es\<lparr>cot_year := cot_year es + m\<rparr> else es)"
  have yi: "cot_year is \<le> cot_year es + 57" using year_gap [OF s(3,4), of 56] s(6) by simp
  have m: "0 \<le> m" "m < 2000" if "cot_year es < cot_year is"
    using round_up [of ?i ?d] that i yi by (auto simp: m_def)
  have ok: "occ_wf 8 t" using s(2,5) m by (auto simp: t_def occ_wf_def valid_time_def)
  have fp: "if cot_year es < cot_year is then first_position (cot_year es) (cot_year is) ?i (cot_year t) else t = es"
    using first_position_round [of ?i "cot_year es" "cot_year is"] i by (simp add: t_def m_def)
  then have le: "cot_year es \<le> cot_year t" "cot_year is \<le> cot_year t" by (auto simp: first_position_def split: if_splits)
  have y: "0 \<le> cot_year es" using s(2) by (simp add: occ_wf_def)
  have "cal_obj_yearly_find_start_position G es ee rd is ie =
      (if past cot_year (cot_year t) ee \<or> past cot_year (cot_year t) ie then None else Some t)"
    using i s(5) m y
    by (auto simp: cal_obj_yearly_find_start_position_def t_def past_def m_def Let_def split: option.splits)
  then show "\<exists>t. occ_wf 8 t \<and>
      (if cot_year es < cot_year is then first_position (cot_year es) (cot_year is) ?i (cot_year t) else t = es) \<and>
      cal_obj_yearly_find_start_position G es ee rd is ie =
      (if no_overlap cot_year es ee is ie \<or> past cot_year (cot_year t) ee \<or> past cot_year (cot_year t) ie then None else Some t)"
    using ok fp overlap_past [of cot_year es "cot_year t" "is" ee ie] le by auto
qed

lemma months_gap:
  assumes "valid_cot a" "valid_cot b" "cot_date b \<le> cot_date a + 20000"
  shows "cot_months b \<le> cot_months a + 700"
proof -
  have "cot_year b \<le> cot_year a + 55 + 1" using assms by (intro year_gap) auto
  then show ?thesis using assms(1,2) valid_cot_month [of a] valid_cot_month [of b] by (simp add: cot_months_def)
qed

interpretation monthly: recur_start cal_obj_monthly_find_next_position "occ_wf 8" "\<lambda>rd. cot_months" cot_months interval
  cal_obj_monthly_find_start_position cot_months "\<lambda>rd es is. cot_months is"
proof
  fix G rd es "is" ee ie
  assume rd: "rd_ok rd" and sp: "span_ok es is" and e: "end_ok ee" "end_ok ie"
  note i = rd_ok_interval [OF rd] and s = span_okD [OF sp]
  let ?d = "cot_months is - cot_months es" and ?i = "interval (rd_recur rd)"
  define m where "m = ?d + ?i - 1 - (?d + ?i - 1) mod ?i"
  define t where "t = (if cot_months es < cot_months is then cal_obj_time_add_months es m else es)"
  have m: "0 \<le> m" "m < 12000" if "cot_months es < cot_months is"
    using round_up [of ?i ?d] that i months_gap [OF s(3,4,6)] by (auto simp: m_def)
  have ok: "occ_wf 8 t" using months_forward(1) [OF s(2,5), of m] m s(2) by (auto simp: t_def)
  have tm: "cot_months t = cot_months es + m" if "cot_months es < cot_months is"
    using months_forward(2) [OF s(2,5), of m] m [OF that] that by (simp add: t_def)
  have fp: "if cot_months es < cot_months is then first_position (cot_months es) (cot_months is) ?i (cot_months t) else t = es"
  proof (cases "cot_months es < cot_months is")
    case True
    then show ?thesis
      using first_position_round [of ?i "cot_months es" "cot_months is"] i unfolding m_def [symmetric] tm [OF True] by simp
  qed (simp add: t_def)
  then have le: "cot_months es \<le> cot_months t" "cot_months is \<le> cot_months t"
    by (auto simp: first_position_def split: if_splits)
  have mo: "0 \<le> cot_month es" "cot_month es < 12" "0 \<le> cot_month is" "cot_month is < 12" "0 \<le> cot_month t" "cot_month t < 12"
    using s(2) ok valid_cot_month [OF s(4)] by (auto simp: occ_wf_def)
  have d: "(cot_year is - cot_year es) * 12 + cot_month is - cot_month es = ?d" by (simp add: cot_months_def)
  have t: "(if cal_obj_time_compare es is CALOBJ_MONTH < 0
      then let months = (cot_year is - cot_year es) * 12 + cot_month is - cot_month es + ?i - 1;
               months = months - months smod ?i in cal_obj_time_add_months es months
      else es) = t"
    using i unfolding d by (simp add: t_def compare_month_iff mo m_def Let_def)
  have "cal_obj_monthly_find_start_position G es ee rd is ie =
      (if past cot_months (cot_months t) ee \<or> past cot_months (cot_months t) ie then None else Some t)"
    unfolding cal_obj_monthly_find_start_position_def Let_def
    unfolding t [unfolded Let_def] after_end_month [OF mo(5,6) e(1)] after_end_month [OF mo(5,6) e(2)] by simp
  then have "cal_obj_monthly_find_start_position G es ee rd is ie =
      (if no_overlap cot_months es ee is ie \<or> past cot_months (cot_months t) ee \<or> past cot_months (cot_months t) ie then None else Some t)"
    using overlap_past [of cot_months es "cot_months t" "is" ee ie] le by auto
  then show "\<exists>t. occ_wf 8 t \<and>
      (if cot_months es < cot_months is then first_position (cot_months es) (cot_months is) ?i (cot_months t) else t = es) \<and>
      cal_obj_monthly_find_start_position G es ee rd is ie =
      (if no_overlap cot_months es ee is ie \<or> past cot_months (cot_months t) ee \<or> past cot_months (cot_months t) ie then None else Some t)"
    using ok fp by blast
qed

text \<open>The unsigned arithmetic of the other frequencies.\<close>

lemma u32_add [simp]: "u32 (u32 a + b) = u32 (a + b)"
  by (simp add: u32_def mod_simps)

lemma u32_add_diff [simp]: "u32 (u32 a + b - c) = u32 (a + b - c)"
  using u32_add [of a "b - c"] by (simp add: algebra_simps)

lemma u32_round:
  assumes "0 < i" "i < 1000" "0 \<le> d" "d \<le> 2000000000"
  shows "s32 (u32 (u32 (d + i - 1) - u32 (d + i - 1) mod u32 i)) = d + i - 1 - (d + i - 1) mod i"
  using round_up [OF assms(1,3)] assms by simp

lemma julian_of_valid:
  assumes "gdate_contract G" "valid_cot t"
  shows "julian_of G t = cot_date t"
proof -
  have v: "cot_date_ok t" using assms(2) by (simp add: valid_cot_def)
  have "693596 \<le> cot_date t" "cot_date t \<le> 23936166" using valid_date_range [OF v] by (simp_all add: cot_date_def)
  then show ?thesis using gdate_contract.julian [OF assms(1) v] by (simp add: julian_of_def cot_date_def)
qed

lemma no_overlap_iffs:
  assumes "valid_cot es" "valid_cot is" "end_ok ee" "end_ok ie"
  shows "after_end es ie CALOBJ_DAY \<or> (case ee of None \<Rightarrow> False | Some e \<Rightarrow> cal_obj_time_compare e is CALOBJ_DAY < 0) \<longleftrightarrow> no_overlap cot_date es ee is ie"
    and "after_end es ie CALOBJ_HOUR \<or> (case ee of None \<Rightarrow> False | Some e \<Rightarrow> cal_obj_time_compare e is CALOBJ_HOUR < 0) \<longleftrightarrow> no_overlap cot_hours es ee is ie"
    and "after_end es ie CALOBJ_MINUTE \<or> (case ee of None \<Rightarrow> False | Some e \<Rightarrow> cal_obj_time_compare e is CALOBJ_MINUTE < 0) \<longleftrightarrow> no_overlap cot_minutes es ee is ie"
    and "after_end es ie CALOBJ_SECOND \<or> (case ee of None \<Rightarrow> False | Some e \<Rightarrow> cal_obj_time_compare e is CALOBJ_SECOND < 0) \<longleftrightarrow> no_overlap end_seconds es ee is ie"
proof -
  have c: "valid_end e \<Longrightarrow> (cal_obj_time_compare e is CALOBJ_DAY < 0 \<longleftrightarrow> cot_date e < cot_date is)
      \<and> (cal_obj_time_compare e is CALOBJ_HOUR < 0 \<longleftrightarrow> cot_hours e < cot_hours is)
      \<and> (cal_obj_time_compare e is CALOBJ_MINUTE < 0 \<longleftrightarrow> cot_minutes e < cot_minutes is)
      \<and> (cal_obj_time_compare e is CALOBJ_SECOND < 0 \<longleftrightarrow> end_seconds e < end_seconds is)" for e
    using compare_day_iff(1) [OF valid_endD assms(2), of e] compare_hour_iff(1) [OF valid_endD assms(2), of e]
      compare_minute_iff(1) [OF valid_endD assms(2), of e] compare_second_iff(1) [OF valid_endD assms(2), of e] assms(2)
    by (simp add: compare_norm_end compare_norm_end_second end_seconds_def norm_end_valid)
  note a = after_end_iffs [OF assms(1,4)]
  show "after_end es ie CALOBJ_DAY \<or> (case ee of None \<Rightarrow> False | Some e \<Rightarrow> cal_obj_time_compare e is CALOBJ_DAY < 0) \<longleftrightarrow> no_overlap cot_date es ee is ie"
    "after_end es ie CALOBJ_HOUR \<or> (case ee of None \<Rightarrow> False | Some e \<Rightarrow> cal_obj_time_compare e is CALOBJ_HOUR < 0) \<longleftrightarrow> no_overlap cot_hours es ee is ie"
    "after_end es ie CALOBJ_MINUTE \<or> (case ee of None \<Rightarrow> False | Some e \<Rightarrow> cal_obj_time_compare e is CALOBJ_MINUTE < 0) \<longleftrightarrow> no_overlap cot_minutes es ee is ie"
    "after_end es ie CALOBJ_SECOND \<or> (case ee of None \<Rightarrow> False | Some e \<Rightarrow> cal_obj_time_compare e is CALOBJ_SECOND < 0) \<longleftrightarrow> no_overlap end_seconds es ee is ie"
    using assms(1,3) by (auto simp: a c no_overlap_def end_ok_def split: option.splits)
qed

lemma if_or_None: "(if a then None else if b then None else x) = (if a \<or> b then None else x)"
  by simp

interpretation daily: recur_start cal_obj_daily_find_next_position "occ_valid 8" "\<lambda>rd. cot_date" cot_date interval
  cal_obj_daily_find_start_position cot_date "\<lambda>rd es is. cot_date is"
proof
  fix G rd es "is" ee ie
  assume G: "gdate_contract G" and rd: "rd_ok rd" and sp: "span_ok es is" and e: "end_ok ee" "end_ok ie"
  note i = rd_ok_interval [OF rd] and s = span_okD [OF sp]
  let ?d = "cot_date is - cot_date es" and ?i = "interval (rd_recur rd)"
  define m where "m = ?d + ?i - 1 - (?d + ?i - 1) mod ?i"
  define t where "t = (if cot_date es < cot_date is then cal_obj_time_add_days es m else es)"
  have m: "0 \<le> m" "m \<le> 365 * 100" if "cot_date es < cot_date is"
    using round_up [of ?i ?d] that i s(6) by (auto simp: m_def)
  have ok: "occ_valid 8 t" using days_forward(1) [OF s(1,5), of m] m s(1) by (auto simp: t_def)
  note v = occ_valid_cot [OF ok]
  have fp: "if cot_date es < cot_date is then first_position (cot_date es) (cot_date is) ?i (cot_date t) else t = es"
    using first_position_round [of ?i "cot_date es" "cot_date is"] i days_forward(2) [OF s(1,5), of m] m
    by (simp add: t_def m_def [symmetric])
  have w: "s32 (u32 (u32 (?d + ?i - 1) - u32 (?d + ?i - 1) mod u32 ?i)) = m" if "cot_date es < cot_date is"
    unfolding m_def using that i s(6) by (intro u32_round) auto
  have t: "(if cot_date es < cot_date is
      then cal_obj_time_add_days es (s32 (u32 (u32 (?d + ?i - 1) - u32 (?d + ?i - 1) mod u32 ?i))) else es) = t"
    using w by (simp add: t_def)
  have "cal_obj_daily_find_start_position G es ee rd is ie =
      (if no_overlap cot_date es ee is ie \<or> past cot_date (cot_date t) ee \<or> past cot_date (cot_date t) ie then None else Some t)"
    unfolding cal_obj_daily_find_start_position_def Let_def julian_of_valid [OF G s(3)] julian_of_valid [OF G s(4)] t
      if_or_None no_overlap_iffs(1) [OF s(3,4) e, symmetric] after_end_iffs(1) [OF v e(1)] after_end_iffs(1) [OF v e(2)] by simp
  then show "\<exists>t. occ_valid 8 t \<and>
      (if cot_date es < cot_date is then first_position (cot_date es) (cot_date is) ?i (cot_date t) else t = es) \<and>
      cal_obj_daily_find_start_position G es ee rd is ie =
      (if no_overlap cot_date es ee is ie \<or> past cot_date (cot_date t) ee \<or> past cot_date (cot_date t) ie then None else Some t)"
    using ok fp by blast
qed

lemma clock_start:
  assumes i: "0 < i" "i < 1000" and d: "0 \<le> d" "d * c \<le> 86400 * 23000" and c: "0 < c" "c \<le> 3600"
    and add: "\<forall>m. 0 \<le> m \<and> m * c \<le> 86400 * 36000 \<longrightarrow> occ_valid 8 (add es m) \<and> u (add es m) = u es + m"
  defines "m \<equiv> s32 (u32 (u32 (d + i - 1) - u32 (d + i - 1) mod u32 i))"
  shows "occ_valid 8 (add es m) \<and> first_position (u es) (u es + d) i (u (add es m))"
proof -
  have "d \<le> d * c" using d(1) c(1) by (simp add: mult_le_cancel_left1)
  then have m: "m = d + i - 1 - (d + i - 1) mod i" unfolding m_def using i d by (intro u32_round) auto
  note b = round_up [OF i(1) d(1), folded m]
  have "m * c \<le> (d + 999) * c" using b(3) i(2) c(1) by (intro mult_right_mono) auto
  also have "\<dots> \<le> 86400 * 36000" using d(2) c(2) by (simp add: algebra_simps)
  finally have "occ_valid 8 (add es m)" "u (add es m) = u es + m" using add b(4) by auto
  then show ?thesis using b by (auto simp: first_position_def)
qed

lemma hours_forward:
  assumes "occ_valid 8 t" "cot_year t \<le> 60500"
  shows "\<forall>m. 0 \<le> m \<and> m * 3600 \<le> 86400 * 36000 \<longrightarrow>
    occ_valid 8 (cal_obj_time_add_hours t m) \<and> cot_hours (cal_obj_time_add_hours t m) = cot_hours t + m"
  using clock_forward(3) [OF assms] occ_valid_cot [OF assms(1)] occ_valid_cot [of 8] by (auto simp: hours_of_seconds)

lemma minutes_forward:
  assumes "occ_valid 8 t" "cot_year t \<le> 60500"
  shows "\<forall>m. 0 \<le> m \<and> m * 60 \<le> 86400 * 36000 \<longrightarrow>
    occ_valid 8 (cal_obj_time_add_minutes t m) \<and> cot_minutes (cal_obj_time_add_minutes t m) = cot_minutes t + m"
  using clock_forward(2) [OF assms] occ_valid_cot [OF assms(1)] occ_valid_cot [of 8] by (auto simp: minutes_of_seconds)

lemma seconds_forward:
  assumes "occ_valid 8 t" "cot_year t \<le> 60500"
  shows "\<forall>m. 0 \<le> m \<and> m * 1 \<le> 86400 * 36000 \<longrightarrow>
    occ_valid 8 (cal_obj_time_add_seconds t m) \<and> cot_seconds (cal_obj_time_add_seconds t m) = cot_seconds t + m"
  using clock_forward(1) [OF assms] by simp

lemma valid_time_bounds:
  assumes "valid_cot t"
  shows "0 \<le> cot_hour t" "cot_hour t < 24" "0 \<le> cot_minute t" "cot_minute t < 60" "0 \<le> cot_second t" "cot_second t < 60"
  using assms by (auto simp: valid_cot_def valid_time_def)

interpretation hourly: recur_start cal_obj_hourly_find_next_position "occ_valid 8" "\<lambda>rd. cot_hours" cot_hours interval
  cal_obj_hourly_find_start_position cot_hours "\<lambda>rd es is. cot_hours is"
proof
  fix G rd es "is" ee ie
  assume G: "gdate_contract G" and rd: "rd_ok rd" and sp: "span_ok es is" and e: "end_ok ee" "end_ok ie"
  note i = rd_ok_interval [OF rd] and s = span_okD [OF sp]
  let ?d = "cot_hours is - cot_hours es" and ?i = "interval (rd_recur rd)"
  define m where "m = s32 (u32 (u32 (?d + ?i - 1) - u32 (?d + ?i - 1) mod u32 ?i))"
  define t where "t = (if cot_hours es < cot_hours is then cal_obj_time_add_hours es m else es)"
  have fp: "occ_valid 8 t \<and> (if cot_hours es < cot_hours is then first_position (cot_hours es) (cot_hours is) ?i (cot_hours t) else t = es)"
  proof (cases "cot_hours es < cot_hours is")
    case True
    have "?d * 3600 \<le> 86400 * 23000"
      using s(6) valid_time_bounds [OF s(3)] valid_time_bounds [OF s(4)] by (simp add: cot_hours_def)
    moreover have "0 \<le> ?d" using True by simp
    ultimately have "occ_valid 8 (cal_obj_time_add_hours es m)
        \<and> first_position (cot_hours es) (cot_hours es + ?d) ?i (cot_hours (cal_obj_time_add_hours es m))"
      unfolding m_def using i
      by (intro clock_start [where c = 3600 and add = cal_obj_time_add_hours and u = cot_hours and es = es, OF _ _ _ _ _ _ hours_forward [OF s(1,5)]]) auto
    moreover have "cot_hours es + ?d = cot_hours is" by simp
    ultimately show ?thesis using True by (simp only: t_def if_True)
  qed (use s(1) in \<open>simp add: t_def\<close>)
  then have v: "valid_cot t" using occ_valid_cot by blast
  have d: "(cot_date is - cot_date es) * 24 + (cot_hour is - cot_hour es) + ?i - 1 = ?d + ?i - 1" by (simp add: cot_hours_def)
  have u: "u32 (u32 (u32 ((cot_date is - cot_date es) * 24) + (cot_hour is - cot_hour es)) + ?i - 1) = u32 (?d + ?i - 1)"
    unfolding d [symmetric] by (simp only: u32_add u32_add_diff)
  have "cal_obj_hourly_find_start_position G es ee rd is ie =
      (if no_overlap cot_hours es ee is ie \<or> past cot_hours (cot_hours t) ee \<or> past cot_hours (cot_hours t) ie then None else Some t)"
    unfolding cal_obj_hourly_find_start_position_def Let_def julian_of_valid [OF G s(3)] julian_of_valid [OF G s(4)]
      u m_def [symmetric] compare_hour_iff(1) [OF s(3,4)] t_def [symmetric]
      if_or_None no_overlap_iffs(2) [OF s(3,4) e, symmetric] after_end_iffs(2) [OF v e(1)] after_end_iffs(2) [OF v e(2)] by simp
  then show "\<exists>t. occ_valid 8 t \<and>
      (if cot_hours es < cot_hours is then first_position (cot_hours es) (cot_hours is) ?i (cot_hours t) else t = es) \<and>
      cal_obj_hourly_find_start_position G es ee rd is ie =
      (if no_overlap cot_hours es ee is ie \<or> past cot_hours (cot_hours t) ee \<or> past cot_hours (cot_hours t) ie then None else Some t)"
    using fp by blast
qed

interpretation minutely: recur_start cal_obj_minutely_find_next_position "occ_valid 8" "\<lambda>rd. cot_minutes" cot_minutes interval
  cal_obj_minutely_find_start_position cot_minutes "\<lambda>rd es is. cot_minutes is - 36 * (cot_hour is - cot_hour es)"
proof
  fix G rd es "is" ee ie
  assume G: "gdate_contract G" and rd: "rd_ok rd" and sp: "span_ok es is" and e: "end_ok ee" "end_ok ie"
    and pre: "cot_minutes es < cot_minutes is \<longrightarrow> cot_minutes es \<le> cot_minutes is - 36 * (cot_hour is - cot_hour es)"
  note i = rd_ok_interval [OF rd] and s = span_okD [OF sp]
  let ?g = "cot_minutes is - 36 * (cot_hour is - cot_hour es)" and ?i = "interval (rd_recur rd)"
  let ?d = "?g - cot_minutes es"
  define m where "m = s32 (u32 (u32 (?d + ?i - 1) - u32 (?d + ?i - 1) mod u32 ?i))"
  define t where "t = (if cot_minutes es < cot_minutes is then cal_obj_time_add_minutes es m else es)"
  have fp: "occ_valid 8 t \<and> (if cot_minutes es < cot_minutes is then first_position (cot_minutes es) ?g ?i (cot_minutes t) else t = es)"
  proof (cases "cot_minutes es < cot_minutes is")
    case True
    have "?d * 60 \<le> 86400 * 23000"
      using s(6) valid_time_bounds [OF s(3)] valid_time_bounds [OF s(4)] by (simp add: cot_minutes_def cot_hours_def)
    moreover have "0 \<le> ?d" using pre True by simp
    ultimately have "occ_valid 8 (cal_obj_time_add_minutes es m)
        \<and> first_position (cot_minutes es) (cot_minutes es + ?d) ?i (cot_minutes (cal_obj_time_add_minutes es m))"
      unfolding m_def using i
      by (intro clock_start [where c = 60 and add = cal_obj_time_add_minutes and u = cot_minutes and es = es, OF _ _ _ _ _ _ minutes_forward [OF s(1,5)]]) auto
    moreover have "cot_minutes es + ?d = ?g" by simp
    ultimately show ?thesis using True by (simp only: t_def if_True)
  qed (use s(1) in \<open>simp add: t_def\<close>)
  then have v: "valid_cot t" using occ_valid_cot by blast
  have d: "(cot_date is - cot_date es) * 24 * 60 + (cot_hour is - cot_hour es) * 24 + (cot_minute is - cot_minute es) + ?i - 1 = ?d + ?i - 1"
    by (simp add: cot_minutes_def cot_hours_def)
  have u: "u32 (u32 (u32 (u32 ((cot_date is - cot_date es) * 24 * 60) + (cot_hour is - cot_hour es) * 24) + (cot_minute is - cot_minute es)) + ?i - 1) = u32 (?d + ?i - 1)"
    unfolding d [symmetric] by (simp only: u32_add u32_add_diff)
  have "cal_obj_minutely_find_start_position G es ee rd is ie =
      (if no_overlap cot_minutes es ee is ie \<or> past cot_minutes (cot_minutes t) ee \<or> past cot_minutes (cot_minutes t) ie then None else Some t)"
    unfolding cal_obj_minutely_find_start_position_def Let_def julian_of_valid [OF G s(3)] julian_of_valid [OF G s(4)]
      u m_def [symmetric] compare_minute_iff(1) [OF s(3,4)] t_def [symmetric]
      if_or_None no_overlap_iffs(3) [OF s(3,4) e, symmetric] after_end_iffs(3) [OF v e(1)] after_end_iffs(3) [OF v e(2)] by simp
  then show "\<exists>t. occ_valid 8 t \<and>
      (if cot_minutes es < cot_minutes is then first_position (cot_minutes es) ?g ?i (cot_minutes t) else t = es) \<and>
      cal_obj_minutely_find_start_position G es ee rd is ie =
      (if no_overlap cot_minutes es ee is ie \<or> past cot_minutes (cot_minutes t) ee \<or> past cot_minutes (cot_minutes t) ie then None else Some t)"
    using fp by blast
qed

interpretation secondly: recur_start cal_obj_secondly_find_next_position "occ_valid 8" "\<lambda>rd. cot_seconds"
  end_limit interval
  cal_obj_secondly_find_start_position end_seconds "\<lambda>rd es is. cot_seconds is - 2160 * (cot_hour is - cot_hour es)"
proof
  fix G rd es "is" ee ie
  assume G: "gdate_contract G" and rd: "rd_ok rd" and sp: "span_ok es is" and e: "end_ok ee" "end_ok ie"
    and pre: "end_seconds es < end_seconds is \<longrightarrow> cot_seconds es \<le> cot_seconds is - 2160 * (cot_hour is - cot_hour es)"
  note i = rd_ok_interval [OF rd] and s = span_okD [OF sp]
  note es = end_seconds_valid [OF s(3)] end_seconds_valid [OF s(4)]
  let ?g = "cot_seconds is - 2160 * (cot_hour is - cot_hour es)" and ?i = "interval (rd_recur rd)"
  let ?d = "?g - cot_seconds es" and end_limit = end_limit
  define m where "m = s32 (u32 (u32 (?d + ?i - 1) - u32 (?d + ?i - 1) mod u32 ?i))"
  define t where "t = (if cot_seconds es < cot_seconds is then cal_obj_time_add_seconds es m else es)"
  have fp: "occ_valid 8 t \<and> (if cot_seconds es < cot_seconds is then first_position (cot_seconds es) ?g ?i (cot_seconds t) else t = es)"
  proof (cases "cot_seconds es < cot_seconds is")
    case True
    have "?d * 1 \<le> 86400 * 23000"
      using s(6) valid_time_bounds [OF s(3)] valid_time_bounds [OF s(4)] by (simp add: cot_seconds_def)
    moreover have "0 \<le> ?d" using pre True by (simp add: es)
    ultimately have "occ_valid 8 (cal_obj_time_add_seconds es m)
        \<and> first_position (cot_seconds es) (cot_seconds es + ?d) ?i (cot_seconds (cal_obj_time_add_seconds es m))"
      unfolding m_def using i
      by (intro clock_start [where c = 1 and add = cal_obj_time_add_seconds and u = cot_seconds and es = es, OF _ _ _ _ _ _ seconds_forward [OF s(1,5)]]) auto
    moreover have "cot_seconds es + ?d = ?g" by simp
    ultimately show ?thesis using True by (simp only: t_def if_True)
  qed (use s(1) in \<open>simp add: t_def\<close>)
  then have v: "valid_cot t" using occ_valid_cot by blast
  have d: "(cot_date is - cot_date es) * 24 * 60 * 60 + (cot_hour is - cot_hour es) * 24 * 60
      + (cot_minute is - cot_minute es) * 60 + (cot_second is - cot_second es) + ?i - 1 = ?d + ?i - 1"
    by (simp add: cot_seconds_def)
  have u: "u32 (u32 (u32 (u32 (u32 ((cot_date is - cot_date es) * 24 * 60 * 60) + (cot_hour is - cot_hour es) * 24 * 60) + (cot_minute is - cot_minute es) * 60) + (cot_second is - cot_second es)) + ?i - 1) = u32 (?d + ?i - 1)"
    unfolding d [symmetric] by (simp only: u32_add u32_add_diff)
  have "cal_obj_secondly_find_start_position G es ee rd is ie =
      (if no_overlap end_seconds es ee is ie \<or> past end_limit (cot_seconds t) ee \<or> past end_limit (cot_seconds t) ie then None else Some t)"
    unfolding cal_obj_secondly_find_start_position_def Let_def julian_of_valid [OF G s(3)] julian_of_valid [OF G s(4)]
      u m_def [symmetric] compare_second_iff(1) [OF s(3,4)] t_def [symmetric]
      if_or_None no_overlap_iffs(4) [OF s(3,4) e, symmetric] at_end_second [OF v e(1)] at_end_second [OF v e(2)] by simp
  then show "\<exists>t. occ_valid 8 t \<and>
      (if end_seconds es < end_seconds is then first_position (cot_seconds es) ?g ?i (cot_seconds t) else t = es) \<and>
      cal_obj_secondly_find_start_position G es ee rd is ie =
      (if no_overlap end_seconds es ee is ie \<or> past end_limit (cot_seconds t) ee \<or> past end_limit (cot_seconds t) ie then None else Some t)"
    unfolding es using fp by blast
qed

text \<open>Weeks: both positions are first days of a week, so that they differ by whole weeks.\<close>

lemma week_starts:
  fixes a b wk :: int
  defines "p \<equiv> a - (a - 1 - wk) mod 7" and "q \<equiv> b - (b - 1 - wk) mod 7"
  shows "q - p = 7 * ((q - p) div 7)" and "b \<le> a \<Longrightarrow> q \<le> p"
proof -
  have "(p - 1 - wk) mod 7 = 0" "(q - 1 - wk) mod 7 = 0" unfolding p_def q_def by (rule week_start)+
  then have "7 dvd (q - 1 - wk)" "7 dvd (p - 1 - wk)" by (simp_all only: mod_eq_0_iff_dvd)
  from dvd_diff [OF this] have d: "7 dvd q - p" by (simp only: diff_diff_eq2) simp
  then show e: "q - p = 7 * ((q - p) div 7)" by simp
  assume "b \<le> a"
  moreover have "q \<le> b" "a < p + 7" unfolding p_def q_def by (rule week_start)+
  ultimately have "q - p < 7" by linarith
  then have "(q - p) div 7 < 1" using e by linarith
  then show "q \<le> p" using e by linarith
qed

lemma week_round:
  assumes "0 < i" "p \<le> g" "g - p = 7 * d"
  shows "first_position p g (i * 7) (p + (d + i - 1 - (d + i - 1) mod i) * 7)"
proof -
  define m where "m = d + i - 1 - (d + i - 1) mod i"
  have "0 \<le> d" using assms(2,3) by simp
  from round_up [OF assms(1) this] have m: "i dvd m" "d \<le> m" "m < d + i" "0 \<le> m" unfolding m_def by simp_all
  have "i * 7 dvd m * 7" using m(1) by simp
  then show ?thesis using m assms(2,3) unfolding m_def [symmetric] first_position_def by simp
qed

interpretation weekly: recur_start cal_obj_weekly_find_next_position "occ_valid 8"
  "\<lambda>rd t. cot_date t - rd_weekday_offset rd" cot_date "\<lambda>r. interval r * 7"
  cal_obj_weekly_find_start_position cot_date
  "\<lambda>rd es is. cot_date is - (cot_date is - 1 - week_start_day (rd_recur rd)) mod 7"
proof
  fix G rd es "is" ee ie
  assume G: "gdate_contract G" and rd: "rd_ok rd" and sp: "span_ok es is" and e: "end_ok ee" "end_ok ie"
    and off: "rd_weekday_offset rd = cal_obj_time_weekday_offset G es (week_start_day (rd_recur rd))"
  note i = rd_ok_interval [OF rd] and s = span_okD [OF sp] and o = rd_ok_offset [OF rd]
  let ?wk = "week_start_day (rd_recur rd)" and ?i = "interval (rd_recur rd)"
  have wk: "0 \<le> ?wk" "?wk < 7" using rd by (auto simp: rd_ok_def recur_ok_def)
  define p where "p = cot_date es - rd_weekday_offset rd"
  define g where "g = cot_date is - (cot_date is - 1 - ?wk) mod 7"
  have offs: "rd_weekday_offset rd = (cot_date es - 1 - ?wk) mod 7"
    "cal_obj_time_weekday_offset G is ?wk = (cot_date is - 1 - ?wk) mod 7"
    using gdate_contract.weekday_offset_value [OF G _ wk] s(3,4) unfolding off by (auto simp: valid_cot_def)
  have d7: "g - p = 7 * ((g - p) div 7)" "cot_date is \<le> cot_date es \<Longrightarrow> g \<le> p"
    using week_starts [where a = "cot_date es" and b = "cot_date is" and wk = ?wk] unfolding p_def g_def offs by simp_all
  have le: "g \<le> cot_date is" "cot_date es \<le> p + 7" using o by (auto simp: g_def p_def)
  have dv: "cot_date_ok es" "cot_date_ok is" using s(3,4) by (auto simp: valid_cot_def)
  have date: "693596 \<le> cot_date es" "cot_date es \<le> 23936166" "693596 \<le> cot_date is" "cot_date is \<le> 23936166"
    using valid_date_range [OF dv(1)] valid_date_range [OF dv(2)] by (simp_all add: cot_date_def)
  have j: "u32 (cot_date es - rd_weekday_offset rd) = p" "u32 (cot_date is - cal_obj_time_weekday_offset G is ?wk) = g"
    using date o pos_mod_sign [of 7 "cot_date is - 1 - ?wk"] pos_mod_bound [of 7 "cot_date is - 1 - ?wk"]
    by (simp_all add: p_def g_def offs(2))
  define m where "m = ((g - p) div 7 + ?i - 1) - ((g - p) div 7 + ?i - 1) mod ?i"
  define t where "t = (if p < g then cal_obj_time_add_days es (m * 7) else es)"
  have q: "0 \<le> (g - p) div 7" "(g - p) div 7 \<le> 3000" if "p < g" using that le o s(6) by (auto simp: p_def)
  have w: "s32 (u32 (g - p) div 7) = (g - p) div 7" "0 \<le> m" "m < 4000" if "p < g"
  proof -
    have "u32 (g - p) = g - p" using that le s(6) by simp
    then show "s32 (u32 (g - p) div 7) = (g - p) div 7" using q [OF that] by simp
    show "0 \<le> m" "m < 4000" using round_up [of ?i "(g - p) div 7"] q [OF that] i by (auto simp: m_def)
  qed
  have t: "(if p < g then cal_obj_time_add_days es ((s32 (u32 (g - p) div 7) + ?i - 1
        - (s32 (u32 (g - p) div 7) + ?i - 1) smod ?i) * 7) else es) = t"
  proof (cases "p < g")
    case True
    have "((g - p) div 7 + ?i - 1) smod ?i = ((g - p) div 7 + ?i - 1) mod ?i" using q [OF True] i by (intro smod_nonneg) auto
    then show ?thesis using w(1) [OF True] True by (simp add: t_def m_def)
  qed (simp add: t_def)
  have t': "occ_valid 8 t \<and> cot_date t = (if p < g then cot_date es + m * 7 else cot_date es)"
    using days_forward [OF s(1,5), of "m * 7"] w(2,3) s(1) by (cases "p < g") (simp_all add: t_def)
  have fp: "if cot_date es < cot_date is then first_position p g (?i * 7) (cot_date t - rd_weekday_offset rd) else t = es"
  proof (cases "p < g")
    case True
    then have "cot_date es < cot_date is" using d7(2) by linarith
    moreover have "cot_date t - rd_weekday_offset rd = p + m * 7" using t' True by (simp add: p_def)
    moreover have "first_position p g (?i * 7) (p + m * 7)"
      unfolding m_def using i True d7(1) by (intro week_round) auto
    ultimately show ?thesis by simp
  next
    case False
    then show ?thesis by (simp add: t_def p_def first_position_same)
  qed
  define ws where "ws = cal_obj_time_add_days t (- rd_weekday_offset rd)"
  have wsd: "occ_valid 7 ws" "cot_date ws = cot_date t - rd_weekday_offset rd"
    using occ_valid_add_days [of 7 t "- rd_weekday_offset rd"] t' o by (simp_all add: ws_def)
  note v = occ_valid_cot [OF wsd(1)]
  have "cal_obj_weekly_find_start_position G es ee rd is ie =
      (if no_overlap cot_date es ee is ie \<or> past cot_date (cot_date t - rd_weekday_offset rd) ee
          \<or> past cot_date (cot_date t - rd_weekday_offset rd) ie then None else Some t)"
    unfolding cal_obj_weekly_find_start_position_def Let_def julian_of_valid [OF G s(3)] julian_of_valid [OF G s(4)]
      j t ws_def [symmetric] if_or_None after_end_iffs(1) [OF v e(1)] after_end_iffs(1) [OF v e(2)] wsd(2)
      no_overlap_iffs(1) [OF s(3,4) e, symmetric] by auto
  then show "\<exists>t. occ_valid 8 t \<and>
      (if cot_date es < cot_date is
       then first_position (cot_date es - rd_weekday_offset rd) (cot_date is - (cot_date is - 1 - ?wk) mod 7) (?i * 7)
              (cot_date t - rd_weekday_offset rd) else t = es) \<and>
      cal_obj_weekly_find_start_position G es ee rd is ie =
      (if no_overlap cot_date es ee is ie \<or> past cot_date (cot_date t - rd_weekday_offset rd) ee
          \<or> past cot_date (cot_date t - rd_weekday_offset rd) ie then None else Some t)"
    using t' fp unfolding p_def g_def by blast
qed

end
