(* ===== verification/Recur_Expand.thy ===== *)
theory Recur_Expand
  imports Recur_Start_Laws
begin

text \<open>
  The expansion of one recurrence rule: the tables of functions per frequency, the generation of
  the set of occurrences of one period, and \<^verbatim>\<open>cal_obj_expand_recurrence\<close> with its loop over the
  periods. The loop is a partial function into \<open>option\<close>: \<open>None\<close> is a loop that does not end, which is
  what happens when neither the rule nor the interval has an end; the theorems show that it ends
  when the interval has one, as it has in every call.
\<close>

type_synonym occ_fn = "gdate_lib \<Rightarrow> recur_data \<Rightarrow> cal_obj_time list \<Rightarrow> cal_obj_time list"

record e_cal_recur_vtable =
  find_start_position :: "gdate_lib \<Rightarrow> cal_obj_time \<Rightarrow> cal_obj_time option \<Rightarrow> recur_data \<Rightarrow> cal_obj_time \<Rightarrow> cal_obj_time option \<Rightarrow> cal_obj_time option"
  find_next_position :: "cal_obj_time \<Rightarrow> cal_obj_time option \<Rightarrow> recur_data \<Rightarrow> cal_obj_time option \<Rightarrow> cal_obj_time option"
  vt_bymonth :: occ_fn
  vt_byweekno :: "occ_fn option"
  vt_byyearday :: "occ_fn option"
  vt_bymonthday :: "occ_fn option"
  vt_byday :: occ_fn
  vt_byhour :: occ_fn
  vt_byminute :: occ_fn
  vt_bysecond :: occ_fn

definition cal_obj_yearly_vtable :: e_cal_recur_vtable where
  "cal_obj_yearly_vtable =
     \<lparr>find_start_position = cal_obj_yearly_find_start_position,
      find_next_position = cal_obj_yearly_find_next_position,
      vt_bymonth = cal_obj_bymonth_expand, vt_byweekno = Some cal_obj_byweekno_expand,
      vt_byyearday = Some cal_obj_byyearday_expand, vt_bymonthday = Some cal_obj_bymonthday_expand,
      vt_byday = cal_obj_byday_expand_yearly, vt_byhour = cal_obj_byhour_expand,
      vt_byminute = cal_obj_byminute_expand, vt_bysecond = cal_obj_bysecond_expand\<rparr>"

definition cal_obj_monthly_vtable :: e_cal_recur_vtable where
  "cal_obj_monthly_vtable =
     \<lparr>find_start_position = cal_obj_monthly_find_start_position,
      find_next_position = cal_obj_monthly_find_next_position,
      vt_bymonth = cal_obj_bymonth_filter, vt_byweekno = None,
      vt_byyearday = None, vt_bymonthday = Some cal_obj_bymonthday_expand,
      vt_byday = cal_obj_byday_expand_monthly, vt_byhour = cal_obj_byhour_expand,
      vt_byminute = cal_obj_byminute_expand, vt_bysecond = cal_obj_bysecond_expand\<rparr>"

definition cal_obj_weekly_vtable :: e_cal_recur_vtable where
  "cal_obj_weekly_vtable =
     \<lparr>find_start_position = cal_obj_weekly_find_start_position,
      find_next_position = cal_obj_weekly_find_next_position,
      vt_bymonth = cal_obj_bymonth_filter, vt_byweekno = None,
      vt_byyearday = None, vt_bymonthday = None,
      vt_byday = cal_obj_byday_expand_weekly, vt_byhour = cal_obj_byhour_expand,
      vt_byminute = cal_obj_byminute_expand, vt_bysecond = cal_obj_bysecond_expand\<rparr>"

definition cal_obj_daily_vtable :: e_cal_recur_vtable where
  "cal_obj_daily_vtable =
     \<lparr>find_start_position = cal_obj_daily_find_start_position,
      find_next_position = cal_obj_daily_find_next_position,
      vt_bymonth = cal_obj_bymonth_filter, vt_byweekno = None,
      vt_byyearday = Some cal_obj_byyearday_filter, vt_bymonthday = Some cal_obj_bymonthday_filter,
      vt_byday = cal_obj_byday_filter, vt_byhour = cal_obj_byhour_expand,
      vt_byminute = cal_obj_byminute_expand, vt_bysecond = cal_obj_bysecond_expand\<rparr>"

definition cal_obj_hourly_vtable :: e_cal_recur_vtable where
  "cal_obj_hourly_vtable =
     \<lparr>find_start_position = cal_obj_hourly_find_start_position,
      find_next_position = cal_obj_hourly_find_next_position,
      vt_bymonth = cal_obj_bymonth_filter, vt_byweekno = None,
      vt_byyearday = Some cal_obj_byyearday_filter, vt_bymonthday = Some cal_obj_bymonthday_filter,
      vt_byday = cal_obj_byday_filter, vt_byhour = cal_obj_byhour_filter,
      vt_byminute = cal_obj_byminute_expand, vt_bysecond = cal_obj_bysecond_expand\<rparr>"

definition cal_obj_minutely_vtable :: e_cal_recur_vtable where
  "cal_obj_minutely_vtable =
     \<lparr>find_start_position = cal_obj_minutely_find_start_position,
      find_next_position = cal_obj_minutely_find_next_position,
      vt_bymonth = cal_obj_bymonth_filter, vt_byweekno = None,
      vt_byyearday = Some cal_obj_byyearday_filter, vt_bymonthday = Some cal_obj_bymonthday_filter,
      vt_byday = cal_obj_byday_filter, vt_byhour = cal_obj_byhour_filter,
      vt_byminute = cal_obj_byminute_filter, vt_bysecond = cal_obj_bysecond_expand\<rparr>"

definition cal_obj_secondly_vtable :: e_cal_recur_vtable where
  "cal_obj_secondly_vtable =
     \<lparr>find_start_position = cal_obj_secondly_find_start_position,
      find_next_position = cal_obj_secondly_find_next_position,
      vt_bymonth = cal_obj_bymonth_filter, vt_byweekno = None,
      vt_byyearday = Some cal_obj_byyearday_filter, vt_bymonthday = Some cal_obj_bymonthday_filter,
      vt_byday = cal_obj_byday_filter, vt_byhour = cal_obj_byhour_filter,
      vt_byminute = cal_obj_byminute_filter, vt_bysecond = cal_obj_bysecond_filter\<rparr>"

fun cal_obj_get_vtable :: "icalrecurrencetype_frequency \<Rightarrow> e_cal_recur_vtable option" where
  "cal_obj_get_vtable ICAL_YEARLY_RECURRENCE = Some cal_obj_yearly_vtable"
| "cal_obj_get_vtable ICAL_MONTHLY_RECURRENCE = Some cal_obj_monthly_vtable"
| "cal_obj_get_vtable ICAL_WEEKLY_RECURRENCE = Some cal_obj_weekly_vtable"
| "cal_obj_get_vtable ICAL_DAILY_RECURRENCE = Some cal_obj_daily_vtable"
| "cal_obj_get_vtable ICAL_HOURLY_RECURRENCE = Some cal_obj_hourly_vtable"
| "cal_obj_get_vtable ICAL_MINUTELY_RECURRENCE = Some cal_obj_minutely_vtable"
| "cal_obj_get_vtable ICAL_SECONDLY_RECURRENCE = Some cal_obj_secondly_vtable"
| "cal_obj_get_vtable ICAL_NO_RECURRENCE = None"

text \<open>
  A call through a function pointer of the table. The yearly and monthly generators call
  without a test; the pointers they call are not NULL in the tables they are given.
\<close>

fun call_fn :: "occ_fn option \<Rightarrow> occ_fn" where
  "call_fn None G rd occs = occs"
| "call_fn (Some f) G rd occs = f G rd occs"

definition cal_obj_generate_set_yearly ::
    "gdate_lib \<Rightarrow> recur_data \<Rightarrow> e_cal_recur_vtable \<Rightarrow> cal_obj_time \<Rightarrow> cal_obj_time list" where
  "cal_obj_generate_set_yearly G rd vt occ =
     (let recur = rd_recur rd;
          by_month =
            (if bymonth recur \<noteq> []
             then (let occs = vt_bymonth vt G rd [occ]
                   in [if bymonthday recur \<noteq> [] \<and> byday recur \<noteq> []
                       then call_fn (vt_bymonthday vt) G rd occs @ cal_obj_byday_expand_monthly G rd occs
                       else cal_obj_byday_expand_monthly G rd (call_fn (vt_bymonthday vt) G rd occs)])
             else []);
          by_weekno =
            (if byweekno recur \<noteq> []
             then [cal_obj_byday_expand_weekly G rd (call_fn (vt_byweekno vt) G rd [occ])] else []);
          by_yearday =
            (if byyearday recur \<noteq> [] then [call_fn (vt_byyearday vt) G rd [occ]] else []);
          by_monthday =
            (if bymonthday recur \<noteq> [] \<and> bymonth recur = [] then [call_fn (vt_bymonthday vt) G rd [occ]] else []);
          by_day =
            (if byday recur \<noteq> [] \<and> bymonth recur = [] \<and> byweekno recur = [] then [vt_byday vt G rd [occ]] else []);
          occs_arrays = by_month @ by_weekno @ by_yearday @ by_monthday @ by_day;
          occs = (if occs_arrays \<noteq> [] then concat occs_arrays else [occ])
      in vt_bysecond vt G rd (vt_byminute vt G rd (vt_byhour vt G rd occs)))"

definition cal_obj_generate_set_monthly ::
    "gdate_lib \<Rightarrow> recur_data \<Rightarrow> e_cal_recur_vtable \<Rightarrow> cal_obj_time \<Rightarrow> cal_obj_time list" where
  "cal_obj_generate_set_monthly G rd vt occ =
     (let occs = vt_bymonth vt G rd [occ];
          occs =
            (if bymonthday (rd_recur rd) \<noteq> [] \<and> byday (rd_recur rd) \<noteq> []
             then call_fn (vt_bymonthday vt) G rd occs @ vt_byday vt G rd occs
             else vt_byday vt G rd (call_fn (vt_bymonthday vt) G rd occs))
      in vt_bysecond vt G rd (vt_byminute vt G rd (vt_byhour vt G rd occs)))"

definition cal_obj_generate_set_default ::
    "gdate_lib \<Rightarrow> recur_data \<Rightarrow> e_cal_recur_vtable \<Rightarrow> cal_obj_time \<Rightarrow> cal_obj_time list" where
  "cal_obj_generate_set_default G rd vt occ =
     (let occs = vt_bymonth vt G rd [occ];
          occs = call_fn (vt_byweekno vt) G rd occs;
          occs = call_fn (vt_byyearday vt) G rd occs;
          occs = call_fn (vt_bymonthday vt) G rd occs;
          occs = vt_byday vt G rd occs
      in vt_bysecond vt G rd (vt_byminute vt G rd (vt_byhour vt G rd occs)))"

text \<open>The loop over the array from its end: drops the occurrences after the end of the event.\<close>

definition trim_after_end :: "cal_obj_time option \<Rightarrow> cal_obj_time list \<Rightarrow> cal_obj_time list" where
  "trim_after_end event_end occs =
     (case event_end of None \<Rightarrow> occs
      | Some e \<Rightarrow> rev (dropWhile (\<lambda>t. \<not> cal_obj_time_compare_func t e \<le> 0) (rev occs)))"

text \<open>The body of the loop: the occurrences of one period.\<close>

definition period_set :: "gdate_lib \<Rightarrow> recur_data \<Rightarrow> e_cal_recur_vtable \<Rightarrow> cal_obj_time option \<Rightarrow> cal_obj_time \<Rightarrow> cal_obj_time list" where
  "period_set G rd vt event_end occ =
     (let occs = (case freq (rd_recur rd) of
                    ICAL_YEARLY_RECURRENCE \<Rightarrow> cal_obj_generate_set_yearly G rd vt occ
                  | ICAL_MONTHLY_RECURRENCE \<Rightarrow> cal_obj_generate_set_monthly G rd vt occ
                  | _ \<Rightarrow> cal_obj_generate_set_default G rd vt occ);
          occs = cal_obj_sort_occurrences occs;
          occs = cal_obj_remove_duplicates_and_invalid_dates occs;
          occs = cal_obj_bysetpos_filter (rd_recur rd) occs
      in trim_after_end event_end occs)"

partial_function (option) expand_loop ::
    "(cal_obj_time \<Rightarrow> cal_obj_time list) \<Rightarrow> (cal_obj_time \<Rightarrow> cal_obj_time option) \<Rightarrow> cal_obj_time \<Rightarrow>
     cal_obj_time list \<Rightarrow> cal_obj_time list option" where
  "expand_loop gen next occ all_occs =
     (case next occ of None \<Rightarrow> Some (all_occs @ gen occ)
      | Some occ' \<Rightarrow> expand_loop gen next occ' (all_occs @ gen occ))"

text \<open>
  The broken-down time of libical and its conversion from \<^verbatim>\<open>time_t\<close> in the zone of the event
  (\<^verbatim>\<open>icaltime_from_timet_with_zone\<close>), which is a parameter.
\<close>

record icaltimetype =
  tt_year :: int
  tt_month :: int
  tt_day :: int
  tt_hour :: int
  tt_minute :: int
  tt_second :: int
  tt_is_date :: bool

definition cal_object_time_from_time :: "(int \<Rightarrow> icaltimetype) \<Rightarrow> int \<Rightarrow> cal_obj_time" where
  "cal_object_time_from_time from_timet t =
     (let tt = from_timet t
      in \<lparr>cot_year = u16 (tt_year tt), cot_month = u8 (tt_month tt - 1), cot_day = u8 (tt_day tt),
          cot_hour = u8 (tt_hour tt), cot_minute = u8 (tt_minute tt), cot_second = u8 (tt_second tt),
          cot_flags = False\<rparr>)"

text \<open>The result is the array of occurrences and the \<^verbatim>\<open>finished\<close> flag.\<close>

definition cal_obj_expand_recurrence ::
    "gdate_lib \<Rightarrow> (int \<Rightarrow> icaltimetype) \<Rightarrow> cal_obj_time \<Rightarrow> e_cal_recurrence \<Rightarrow> cal_obj_time \<Rightarrow> cal_obj_time option \<Rightarrow>
     (cal_obj_time list \<times> bool) option" where
  "cal_obj_expand_recurrence G from_timet event_start recur interval_start interval_end =
     (case cal_obj_get_vtable (freq recur) of
        None \<Rightarrow> Some ([], True)
      | Some vt \<Rightarrow>
          (let rd = cal_obj_initialize_recur_data G recur event_start;
               event_end = (if enddate recur > 0 then Some (cal_object_time_from_time from_timet (enddate recur)) else None)
           in if (case event_end of None \<Rightarrow> False | Some e \<Rightarrow> cal_obj_time_compare_func e interval_start < 0)
              then Some ([], True)
              else (let finished = (case (interval_end, event_end) of
                                      (Some ie, Some ee) \<Rightarrow> \<not> cal_obj_time_compare_func ee ie > 0
                                    | _ \<Rightarrow> False)
                    in case find_start_position vt G event_start event_end rd interval_start interval_end of
                         None \<Rightarrow> Some ([], finished)
                       | Some occ \<Rightarrow>
                           map_option (\<lambda>all_occs. (all_occs, finished))
                             (expand_loop (period_set G rd vt event_end)
                                (\<lambda>t. find_next_position vt t event_end rd interval_end) occ []))))"

end
