(* ===== verification/Recur_Expand_Laws.thy ===== *)
theory Recur_Expand_Laws
  imports Recur_Expand
begin

text \<open>
  What the expansion of a rule produces: every occurrence is a valid time, the loop over the
  periods ends, and the periods it visits are exactly those the rule and the interval ask for.
\<close>

section \<open>The sets of one period\<close>

context occ_modifier
begin

lemma modifier_all:
  assumes "gdate_contract G" "rd_ok rd" "\<forall>x \<in> set xs. pre (Suc k) x"
  shows "\<forall>y \<in> set (modifier G rd xs). post k y"
  using modifier_keeps_all [OF assms(1,2)] assms(3) by blast

end

lemma wf_all_mono: "\<forall>x \<in> set xs. occ_wf k x \<Longrightarrow> j \<le> k \<Longrightarrow> \<forall>x \<in> set xs. occ_wf j x"
  using occ_wf_mono by blast

lemma valid_all_wf: "\<forall>x \<in> set xs. occ_valid k x \<Longrightarrow> \<forall>x \<in> set xs. occ_wf k x"
  using occ_valid_wf by blast

lemma byweekno_valid:
  assumes "gdate_contract G" "rd_ok rd" "occ_wf (Suc k) occ" "byweekno (rd_recur rd) \<noteq> []"
  shows "\<forall>y \<in> set (cal_obj_byweekno_expand G rd [occ]). occ_valid k y"
  using assms byweekno_expand_one_valid by (auto simp: cal_obj_byweekno_expand_def)

lemma clock_expand_wf:
  assumes "gdate_contract G" "rd_ok rd" "\<forall>x \<in> set xs. occ_wf 3 x"
  shows "\<forall>y \<in> set (cal_obj_bysecond_expand G rd (cal_obj_byminute_expand G rd (cal_obj_byhour_expand G rd xs))). occ_wf 0 y"
proof -
  have "\<forall>x \<in> set (cal_obj_byhour_expand G rd xs). occ_wf 2 x"
    using assms(3) by (intro byhour_expand_wf.modifier_all [OF assms(1,2)]) (simp add: numeral_eq_Suc)
  then have "\<forall>x \<in> set (cal_obj_byminute_expand G rd (cal_obj_byhour_expand G rd xs)). occ_wf 1 x"
    by (intro byminute_expand_wf.modifier_all [OF assms(1,2)]) (simp add: numeral_eq_Suc)
  then show ?thesis by (intro bysecond_expand_wf.modifier_all [OF assms(1,2)]) simp
qed

lemma generate_set_yearly_wf:
  assumes G: "gdate_contract G" and rd: "rd_ok rd" and occ: "occ_wf 8 occ"
  shows "\<forall>y \<in> set (cal_obj_generate_set_yearly G rd cal_obj_yearly_vtable occ). occ_wf 0 y"
proof -
  have o: "\<forall>x \<in> set [occ]. occ_wf (Suc 7) x" using occ by simp
  let ?m = "cal_obj_bymonth_expand G rd [occ]"
  have m: "\<forall>x \<in> set ?m. occ_wf (Suc 6) x"
    using bymonth_expand.modifier_all [OF G rd o] by simp
  have md: "\<forall>x \<in> set (cal_obj_bymonthday_expand G rd ?m). occ_wf 6 x"
    by (rule bymonthday_expand.modifier_all [OF G rd m])
  have d: "\<forall>x \<in> set (cal_obj_byday_expand_monthly G rd ?m). occ_wf 6 x"
    by (rule byday_expand_monthly.modifier_all [OF G rd m])
  have mdd: "\<forall>x \<in> set (cal_obj_byday_expand_monthly G rd (cal_obj_bymonthday_expand G rd ?m)). occ_wf 5 x"
    using md by (intro byday_expand_monthly.modifier_all [OF G rd]) simp
  have w: "\<forall>x \<in> set (cal_obj_byday_expand_weekly G rd (cal_obj_byweekno_expand G rd [occ])). occ_wf 6 x"
    if "byweekno (rd_recur rd) \<noteq> []"
    using byweekno_valid [OF G rd, of 7 occ] occ that
    by (intro valid_all_wf byday_expand_weekly.modifier_all [OF G rd]) (simp add: numeral_eq_Suc)
  have yd: "\<forall>x \<in> set (cal_obj_byyearday_expand G rd [occ]). occ_wf 7 x"
    by (rule byyearday_expand.modifier_all [OF G rd o])
  have mo: "\<forall>x \<in> set (cal_obj_bymonthday_expand G rd [occ]). occ_wf 7 x"
    by (rule bymonthday_expand.modifier_all [OF G rd o])
  have dy: "\<forall>x \<in> set (cal_obj_byday_expand_yearly G rd [occ]). occ_wf 7 x"
    by (rule byday_expand_yearly.modifier_all [OF G rd o])
  note all = wf_all_mono [OF md, of 3] wf_all_mono [OF d, of 3] wf_all_mono [OF mdd, of 3] wf_all_mono [OF w, of 3]
    wf_all_mono [OF yd, of 3] wf_all_mono [OF mo, of 3] wf_all_mono [OF dy, of 3] wf_all_mono [OF o, of 3]
  show ?thesis
    unfolding cal_obj_generate_set_yearly_def Let_def
    by (simp only: cal_obj_yearly_vtable_def e_cal_recur_vtable.simps call_fn.simps)
      (rule clock_expand_wf [OF G rd], use all in \<open>auto split: if_splits\<close>)
qed

lemma generate_set_monthly_wf:
  assumes G: "gdate_contract G" and rd: "rd_ok rd" and occ: "occ_wf 8 occ"
  shows "\<forall>y \<in> set (cal_obj_generate_set_monthly G rd cal_obj_monthly_vtable occ). occ_wf 0 y"
proof -
  let ?m = "cal_obj_bymonth_filter G rd [occ]"
  have m: "\<forall>x \<in> set ?m. occ_wf (Suc 6) x"
    using bymonth_filter_wf.modifier_all [OF G rd, of "[occ]" 7] occ by simp
  have md: "\<forall>x \<in> set (cal_obj_bymonthday_expand G rd ?m). occ_wf 6 x"
    by (rule bymonthday_expand.modifier_all [OF G rd m])
  have d: "\<forall>x \<in> set (cal_obj_byday_expand_monthly G rd ?m). occ_wf 6 x"
    by (rule byday_expand_monthly.modifier_all [OF G rd m])
  have mdd: "\<forall>x \<in> set (cal_obj_byday_expand_monthly G rd (cal_obj_bymonthday_expand G rd ?m)). occ_wf 5 x"
    using md by (intro byday_expand_monthly.modifier_all [OF G rd]) simp
  note all = wf_all_mono [OF md, of 3] wf_all_mono [OF d, of 3] wf_all_mono [OF mdd, of 3]
  show ?thesis
    unfolding cal_obj_generate_set_monthly_def Let_def
    by (simp only: cal_obj_monthly_vtable_def e_cal_recur_vtable.simps call_fn.simps)
      (rule clock_expand_wf [OF G rd], use all in \<open>auto split: if_splits\<close>)
qed

text \<open>The table entries of the other frequencies keep occurrences valid.\<close>

definition keeps_valid :: "occ_fn \<Rightarrow> bool" where
  "keeps_valid f \<longleftrightarrow> (\<forall>G rd k xs. gdate_contract G \<longrightarrow> rd_ok rd \<longrightarrow> (\<forall>x \<in> set xs. occ_valid (Suc k) x)
     \<longrightarrow> (\<forall>y \<in> set (f G rd xs). occ_valid k y))"

lemma keeps_validI:
  assumes "occ_modifier f occ_valid occ_valid"
  shows "keeps_valid f"
  using occ_modifier.modifier_all [OF assms] by (simp add: keeps_valid_def)

lemmas keeps_valid_entries =
  keeps_validI [OF bymonth_filter.occ_modifier_axioms] keeps_validI [OF byyearday_filter.occ_modifier_axioms]
  keeps_validI [OF bymonthday_filter.occ_modifier_axioms] keeps_validI [OF byday_filter.occ_modifier_axioms]
  keeps_validI [OF byhour_filter.occ_modifier_axioms] keeps_validI [OF byminute_filter.occ_modifier_axioms]
  keeps_validI [OF bysecond_filter.occ_modifier_axioms] keeps_validI [OF byhour_expand.occ_modifier_axioms]
  keeps_validI [OF byminute_expand.occ_modifier_axioms] keeps_validI [OF bysecond_expand.occ_modifier_axioms]
  keeps_validI [OF byday_expand_weekly.occ_modifier_axioms]

lemma keeps_valid_call_None: "keeps_valid (call_fn None)"
  by (auto simp: keeps_valid_def intro: occ_valid_mono [OF _ le_SucI [OF order_refl]])

lemma keeps_valid_call_Some: "keeps_valid g \<Longrightarrow> keeps_valid (call_fn (Some g))"
  by (simp add: keeps_valid_def)

lemma keeps_validD:
  "keeps_valid f \<Longrightarrow> gdate_contract G \<Longrightarrow> rd_ok rd \<Longrightarrow> \<forall>x \<in> set xs. occ_valid (Suc k) x \<Longrightarrow> \<forall>y \<in> set (f G rd xs). occ_valid k y"
  by (simp add: keeps_valid_def)

definition keeps_valid_table :: "e_cal_recur_vtable \<Rightarrow> bool" where
  "keeps_valid_table vt \<longleftrightarrow> keeps_valid (vt_bymonth vt) \<and> keeps_valid (call_fn (vt_byweekno vt))
     \<and> keeps_valid (call_fn (vt_byyearday vt)) \<and> keeps_valid (call_fn (vt_bymonthday vt)) \<and> keeps_valid (vt_byday vt)
     \<and> keeps_valid (vt_byhour vt) \<and> keeps_valid (vt_byminute vt) \<and> keeps_valid (vt_bysecond vt)"

lemma keeps_valid_tables:
  "keeps_valid_table cal_obj_weekly_vtable" "keeps_valid_table cal_obj_daily_vtable"
  "keeps_valid_table cal_obj_hourly_vtable" "keeps_valid_table cal_obj_minutely_vtable"
  "keeps_valid_table cal_obj_secondly_vtable"
  by (simp_all add: keeps_valid_table_def cal_obj_weekly_vtable_def cal_obj_daily_vtable_def cal_obj_hourly_vtable_def
      cal_obj_minutely_vtable_def cal_obj_secondly_vtable_def keeps_valid_entries
      keeps_valid_call_None keeps_valid_call_Some)

lemma generate_set_default_valid:
  assumes vt: "keeps_valid_table vt" and G: "gdate_contract G" and rd: "rd_ok rd" and occ: "occ_valid 8 occ"
  shows "\<forall>y \<in> set (cal_obj_generate_set_default G rd vt occ). occ_valid 0 y"
proof -
  note k = vt [unfolded keeps_valid_table_def]
  have 0: "\<forall>x \<in> set [occ]. occ_valid (Suc (Suc (Suc (Suc (Suc (Suc (Suc (Suc 0)))))))) x"
    using occ by (simp add: numeral_eq_Suc)
  note 1 = keeps_validD [OF conjunct1 [OF k] G rd 0]
  have 2: "keeps_valid (call_fn (vt_byweekno vt))" "keeps_valid (call_fn (vt_byyearday vt))"
    "keeps_valid (call_fn (vt_bymonthday vt))" "keeps_valid (vt_byday vt)" "keeps_valid (vt_byhour vt)"
    "keeps_valid (vt_byminute vt)" "keeps_valid (vt_bysecond vt)" using k by auto
  note 3 = keeps_validD [OF 2(4) G rd keeps_validD [OF 2(3) G rd keeps_validD [OF 2(2) G rd keeps_validD [OF 2(1) G rd 1]]]]
  show ?thesis
    unfolding cal_obj_generate_set_default_def Let_def
    by (rule keeps_validD [OF 2(7) G rd keeps_validD [OF 2(6) G rd keeps_validD [OF 2(5) G rd 3]]])
qed

section \<open>Positions by frequency\<close>

text \<open>The five parameters of the position contracts, as functions of the frequency.\<close>

fun freq_ok :: "icalrecurrencetype_frequency \<Rightarrow> cal_obj_time \<Rightarrow> bool" where
  "freq_ok ICAL_YEARLY_RECURRENCE = occ_wf 8"
| "freq_ok ICAL_MONTHLY_RECURRENCE = occ_wf 8"
| "freq_ok _ = occ_valid 8"

fun freq_pos :: "icalrecurrencetype_frequency \<Rightarrow> recur_data \<Rightarrow> cal_obj_time \<Rightarrow> int" where
  "freq_pos ICAL_YEARLY_RECURRENCE rd t = cot_year t"
| "freq_pos ICAL_MONTHLY_RECURRENCE rd t = cot_months t"
| "freq_pos ICAL_WEEKLY_RECURRENCE rd t = cot_date t - rd_weekday_offset rd"
| "freq_pos ICAL_DAILY_RECURRENCE rd t = cot_date t"
| "freq_pos ICAL_HOURLY_RECURRENCE rd t = cot_hours t"
| "freq_pos ICAL_MINUTELY_RECURRENCE rd t = cot_minutes t"
| "freq_pos _ rd t = cot_seconds t"

fun freq_unit :: "icalrecurrencetype_frequency \<Rightarrow> cal_obj_time \<Rightarrow> int" where
  "freq_unit ICAL_YEARLY_RECURRENCE t = cot_year t"
| "freq_unit ICAL_MONTHLY_RECURRENCE t = cot_months t"
| "freq_unit ICAL_WEEKLY_RECURRENCE t = cot_date t"
| "freq_unit ICAL_DAILY_RECURRENCE t = cot_date t"
| "freq_unit ICAL_HOURLY_RECURRENCE t = cot_hours t"
| "freq_unit ICAL_MINUTELY_RECURRENCE t = cot_minutes t"
| "freq_unit _ t = end_seconds t"

fun freq_limit :: "icalrecurrencetype_frequency \<Rightarrow> cal_obj_time \<Rightarrow> int" where
  "freq_limit ICAL_SECONDLY_RECURRENCE e = end_limit e"
| "freq_limit f e = freq_unit f e"

fun freq_stride :: "icalrecurrencetype_frequency \<Rightarrow> e_cal_recurrence \<Rightarrow> int" where
  "freq_stride ICAL_WEEKLY_RECURRENCE r = interval r * 7"
| "freq_stride _ r = interval r"

text \<open>Where the interval starts, in the position number; with the hours as the code weights them.\<close>

fun freq_goal :: "icalrecurrencetype_frequency \<Rightarrow> recur_data \<Rightarrow> cal_obj_time \<Rightarrow> cal_obj_time \<Rightarrow> int" where
  "freq_goal ICAL_WEEKLY_RECURRENCE rd es is = cot_date is - (cot_date is - 1 - week_start_day (rd_recur rd)) mod 7"
| "freq_goal ICAL_MINUTELY_RECURRENCE rd es is = cot_minutes is - 36 * (cot_hour is - cot_hour es)"
| "freq_goal ICAL_SECONDLY_RECURRENCE rd es is = cot_seconds is - 2160 * (cot_hour is - cot_hour es)"
| "freq_goal f rd es is = freq_unit f is"

text \<open>The positions of the periods that the rule, the event and the interval ask for.\<close>

definition due_positions ::
    "recur_data \<Rightarrow> cal_obj_time \<Rightarrow> cal_obj_time option \<Rightarrow> cal_obj_time \<Rightarrow> cal_obj_time \<Rightarrow> int set" where
  "due_positions rd es ee is e =
     (let f = freq (rd_recur rd)
      in {p. \<not> no_overlap (freq_unit f) es ee is (Some e)
           \<and> freq_pos f rd es \<le> p \<and> freq_stride f (rd_recur rd) dvd (p - freq_pos f rd es)
           \<and> (freq_unit f es < freq_unit f is \<longrightarrow> freq_goal f rd es is \<le> p)
           \<and> p \<le> freq_limit f e \<and> \<not> past (freq_limit f) p ee})"

lemma freq_functions:
  "freq_pos ICAL_YEARLY_RECURRENCE = (\<lambda>rd. cot_year)"
  "freq_unit ICAL_YEARLY_RECURRENCE = cot_year"
  "freq_limit ICAL_YEARLY_RECURRENCE = cot_year"
  "freq_stride ICAL_YEARLY_RECURRENCE = interval"
  "freq_goal ICAL_YEARLY_RECURRENCE = (\<lambda>rd es is. cot_year is)"
  "freq_pos ICAL_MONTHLY_RECURRENCE = (\<lambda>rd. cot_months)"
  "freq_unit ICAL_MONTHLY_RECURRENCE = cot_months"
  "freq_limit ICAL_MONTHLY_RECURRENCE = cot_months"
  "freq_stride ICAL_MONTHLY_RECURRENCE = interval"
  "freq_goal ICAL_MONTHLY_RECURRENCE = (\<lambda>rd es is. cot_months is)"
  "freq_pos ICAL_WEEKLY_RECURRENCE = (\<lambda>rd t. cot_date t - rd_weekday_offset rd)"
  "freq_unit ICAL_WEEKLY_RECURRENCE = cot_date"
  "freq_limit ICAL_WEEKLY_RECURRENCE = cot_date"
  "freq_stride ICAL_WEEKLY_RECURRENCE = (\<lambda>r. interval r * 7)"
  "freq_goal ICAL_WEEKLY_RECURRENCE = (\<lambda>rd es is. cot_date is - (cot_date is - 1 - week_start_day (rd_recur rd)) mod 7)"
  "freq_pos ICAL_DAILY_RECURRENCE = (\<lambda>rd. cot_date)"
  "freq_unit ICAL_DAILY_RECURRENCE = cot_date"
  "freq_limit ICAL_DAILY_RECURRENCE = cot_date"
  "freq_stride ICAL_DAILY_RECURRENCE = interval"
  "freq_goal ICAL_DAILY_RECURRENCE = (\<lambda>rd es is. cot_date is)"
  "freq_pos ICAL_HOURLY_RECURRENCE = (\<lambda>rd. cot_hours)"
  "freq_unit ICAL_HOURLY_RECURRENCE = cot_hours"
  "freq_limit ICAL_HOURLY_RECURRENCE = cot_hours"
  "freq_stride ICAL_HOURLY_RECURRENCE = interval"
  "freq_goal ICAL_HOURLY_RECURRENCE = (\<lambda>rd es is. cot_hours is)"
  "freq_pos ICAL_MINUTELY_RECURRENCE = (\<lambda>rd. cot_minutes)"
  "freq_unit ICAL_MINUTELY_RECURRENCE = cot_minutes"
  "freq_limit ICAL_MINUTELY_RECURRENCE = cot_minutes"
  "freq_stride ICAL_MINUTELY_RECURRENCE = interval"
  "freq_goal ICAL_MINUTELY_RECURRENCE = (\<lambda>rd es is. cot_minutes is - 36 * (cot_hour is - cot_hour es))"
  "freq_pos ICAL_SECONDLY_RECURRENCE = (\<lambda>rd. cot_seconds)"
  "freq_unit ICAL_SECONDLY_RECURRENCE = end_seconds"
  "freq_limit ICAL_SECONDLY_RECURRENCE = end_limit"
  "freq_stride ICAL_SECONDLY_RECURRENCE = interval"
  "freq_goal ICAL_SECONDLY_RECURRENCE = (\<lambda>rd es is. cot_seconds is - 2160 * (cot_hour is - cot_hour es))"
  by (simp_all add: fun_eq_iff)

lemma freq_start:
  assumes "cal_obj_get_vtable f = Some vt"
  shows "recur_start (find_next_position vt) (freq_ok f) (freq_pos f) (freq_limit f) (freq_stride f)
    (find_start_position vt) (freq_unit f) (freq_goal f)"
proof (cases f)
  case ICAL_SECONDLY_RECURRENCE
  then have "vt = cal_obj_secondly_vtable" using assms by simp
  then show ?thesis unfolding ICAL_SECONDLY_RECURRENCE freq_functions freq_ok.simps
    using secondly.recur_start_axioms by (simp only: cal_obj_secondly_vtable_def e_cal_recur_vtable.simps)
next
  case ICAL_MINUTELY_RECURRENCE
  then have "vt = cal_obj_minutely_vtable" using assms by simp
  then show ?thesis unfolding ICAL_MINUTELY_RECURRENCE freq_functions freq_ok.simps
    using minutely.recur_start_axioms by (simp only: cal_obj_minutely_vtable_def e_cal_recur_vtable.simps)
next
  case ICAL_HOURLY_RECURRENCE
  then have "vt = cal_obj_hourly_vtable" using assms by simp
  then show ?thesis unfolding ICAL_HOURLY_RECURRENCE freq_functions freq_ok.simps
    using hourly.recur_start_axioms by (simp only: cal_obj_hourly_vtable_def e_cal_recur_vtable.simps)
next
  case ICAL_DAILY_RECURRENCE
  then have "vt = cal_obj_daily_vtable" using assms by simp
  then show ?thesis unfolding ICAL_DAILY_RECURRENCE freq_functions freq_ok.simps
    using daily.recur_start_axioms by (simp only: cal_obj_daily_vtable_def e_cal_recur_vtable.simps)
next
  case ICAL_WEEKLY_RECURRENCE
  then have "vt = cal_obj_weekly_vtable" using assms by simp
  then show ?thesis unfolding ICAL_WEEKLY_RECURRENCE freq_functions freq_ok.simps
    using weekly.recur_start_axioms by (simp only: cal_obj_weekly_vtable_def e_cal_recur_vtable.simps)
next
  case ICAL_MONTHLY_RECURRENCE
  then have "vt = cal_obj_monthly_vtable" using assms by simp
  then show ?thesis unfolding ICAL_MONTHLY_RECURRENCE freq_functions freq_ok.simps
    using monthly.recur_start_axioms by (simp only: cal_obj_monthly_vtable_def e_cal_recur_vtable.simps)
next
  case ICAL_YEARLY_RECURRENCE
  then have "vt = cal_obj_yearly_vtable" using assms by simp
  then show ?thesis unfolding ICAL_YEARLY_RECURRENCE freq_functions freq_ok.simps
    using yearly.recur_start_axioms by (simp only: cal_obj_yearly_vtable_def e_cal_recur_vtable.simps)
qed (use assms in simp)

section \<open>The loop\<close>

lemma expand_loop_periods:
  assumes "period_loop next t = Some ps"
  shows "expand_loop gen next t acc = Some (acc @ concat (map gen ps))"
proof -
  have "\<forall>acc. expand_loop gen next t acc = Some (acc @ concat (map gen ps))"
  proof (rule period_loop.raw_induct [OF _ assms])
    fix loop nxt t ps
    assume IH: "\<And>nxt t ps. loop nxt t = Some ps \<Longrightarrow> \<forall>acc. expand_loop gen nxt t acc = Some (acc @ concat (map gen ps))"
      and l: "(case nxt t of None \<Rightarrow> Some [t] | Some t' \<Rightarrow> Option.bind (loop nxt t') (\<lambda>ts. Some (t # ts))) = Some ps"
    show "\<forall>acc. expand_loop gen nxt t acc = Some (acc @ concat (map gen ps))"
    proof (cases "nxt t")
      case None
      then have "expand_loop gen nxt t acc = Some (acc @ gen t)" for acc by (subst expand_loop.simps) simp
      moreover have "ps = [t]" using None l by simp
      ultimately show ?thesis by simp
    next
      case (Some t')
      then obtain ts where ts: "loop nxt t' = Some ts" "ps = t # ts"
        using l by (auto simp: bind_eq_Some_conv)
      have "expand_loop gen nxt t acc = expand_loop gen nxt t' (acc @ gen t)" for acc
        using Some by (subst expand_loop.simps) simp
      then show ?thesis using IH [OF ts(1)] ts(2) by simp
    qed
  qed
  then show ?thesis ..
qed

lemma trim_subset: "set (trim_after_end ee occs) \<subseteq> set occs"
  by (auto simp: trim_after_end_def dest: set_dropWhileD split: option.splits)

lemma bysetpos_subset: "set (cal_obj_bysetpos_filter r occs) \<subseteq> set occs"
proof -
  have "set (bysetpos_loop occs xs) \<subseteq> set occs" for xs
    by (induction xs) (auto simp: Let_def split: if_splits)
  then show ?thesis by (auto simp: cal_obj_bysetpos_filter_def)
qed

lemma period_set_valid:
  assumes "gdate_contract G" "rd_ok rd" "cal_obj_get_vtable (freq (rd_recur rd)) = Some vt"
    "freq_ok (freq (rd_recur rd)) occ" "t \<in> set (period_set G rd vt ee occ)"
  shows "valid_cot t"
proof -
  define gen where "gen = (case freq (rd_recur rd) of
                    ICAL_YEARLY_RECURRENCE \<Rightarrow> cal_obj_generate_set_yearly G rd vt occ
                  | ICAL_MONTHLY_RECURRENCE \<Rightarrow> cal_obj_generate_set_monthly G rd vt occ
                  | _ \<Rightarrow> cal_obj_generate_set_default G rd vt occ)"
  have "\<forall>x \<in> set gen. occ_wf 0 x"
    using assms(3,4) generate_set_yearly_wf [OF assms(1,2), of occ] generate_set_monthly_wf [OF assms(1,2), of occ]
      valid_all_wf [OF generate_set_default_valid [OF _ assms(1,2), of _ occ]] keeps_valid_tables
    by (cases "freq (rd_recur rd)") (simp_all add: gen_def)
  then have w: "\<forall>x \<in> set (cal_obj_sort_occurrences gen). occ_wf 0 x" by simp
  have "t \<in> set (cal_obj_remove_duplicates_and_invalid_dates (cal_obj_sort_occurrences gen))"
    using assms(5) trim_subset bysetpos_subset unfolding period_set_def Let_def gen_def by blast
  then show ?thesis using remove_duplicates_valid [OF w] occ_valid_cot by blast
qed

lemma rd_ok_init:
  assumes "gdate_contract G" "recur_ok recur" "valid_cot es"
  shows "rd_ok (cal_obj_initialize_recur_data G recur es)"
  using assms gdate_contract.weekday_offset_bounds [OF assms(1), of es "week_start_day recur"]
  by (simp add: rd_ok_def recur_ok_def valid_cot_def)

text \<open>The condition on the two frequencies whose start is computed with the wrong weights.\<close>

definition goal_ok :: "recur_data \<Rightarrow> cal_obj_time \<Rightarrow> cal_obj_time \<Rightarrow> bool" where
  "goal_ok rd es is \<longleftrightarrow> (let f = freq (rd_recur rd)
     in freq_unit f es < freq_unit f is \<longrightarrow> freq_pos f rd es \<le> freq_goal f rd es is)"

definition rule_end :: "(int \<Rightarrow> icaltimetype) \<Rightarrow> e_cal_recurrence \<Rightarrow> cal_obj_time option" where
  "rule_end from_timet recur =
     (if enddate recur > 0 then Some (cal_object_time_from_time from_timet (enddate recur)) else None)"

lemma expand_periods:
  assumes G: "gdate_contract G" and r: "recur_ok recur" and vt: "cal_obj_get_vtable (freq recur) = Some vt"
    and sp: "span_ok es is" and ee: "end_ok (rule_end I recur)" and e: "valid_end e" "cot_year e \<le> 60000"
    and g: "goal_ok (cal_obj_initialize_recur_data G recur es) es is"
    and n: "\<not> (case rule_end I recur of None \<Rightarrow> False | Some x \<Rightarrow> cal_obj_time_compare_func x is < 0)"
  defines "rd \<equiv> cal_obj_initialize_recur_data G recur es"
  shows "\<exists>ps fin. cal_obj_expand_recurrence G I es recur is (Some e)
      = Some (concat (map (period_set G rd vt (rule_end I recur)) ps), fin)
    \<and> (\<forall>p \<in> set ps. freq_ok (freq recur) p)
    \<and> sorted_wrt (<) (map (freq_pos (freq recur) rd) ps)
    \<and> freq_pos (freq recur) rd ` set ps = due_positions rd es (rule_end I recur) is e"
proof -
  note st = freq_start [OF vt]
  have v: "valid_cot es" using span_okD [OF sp] by simp
  have rd: "rd_ok rd" unfolding rd_def by (rule rd_ok_init [OF G r v])
  have rr: "rd_recur rd = recur" by (simp add: rd_def)
  have off: "rd_weekday_offset rd = cal_obj_time_weekday_offset G es (week_start_day (rd_recur rd))" by (simp add: rd_def)
  have gp: "freq_unit (freq recur) es < freq_unit (freq recur) is \<longrightarrow> freq_pos (freq recur) rd es \<le> freq_goal (freq recur) rd es is"
    using g by (simp add: goal_ok_def rd_def Let_def)
  obtain ps where ps: "(case find_start_position vt G es (rule_end I recur) rd is (Some e) of None \<Rightarrow> Some []
        | Some t \<Rightarrow> period_loop (\<lambda>t. find_next_position vt t (rule_end I recur) rd (Some e)) t) = Some ps"
      "\<forall>p \<in> set ps. freq_ok (freq recur) p" "sorted_wrt (<) (map (freq_pos (freq recur) rd) ps)"
      "freq_pos (freq recur) rd ` set ps = due_positions rd es (rule_end I recur) is e"
    using recur_start.visited [OF st G rd off sp ee e gp] unfolding due_positions_def Let_def rr by blast
  have "\<exists>fin. cal_obj_expand_recurrence G I es recur is (Some e)
      = Some (concat (map (period_set G rd vt (rule_end I recur)) ps), fin)"
  proof (cases "find_start_position vt G es (rule_end I recur) rd is (Some e)")
    case None
    then show ?thesis using ps(1) n vt
      unfolding cal_obj_expand_recurrence_def Let_def rd_def [symmetric] rule_end_def [symmetric] by simp
  next
    case (Some t)
    then have "period_loop (\<lambda>t. find_next_position vt t (rule_end I recur) rd (Some e)) t = Some ps" using ps(1) by simp
    note l = expand_loop_periods [OF this, of "period_set G rd vt (rule_end I recur)" "[]"]
    show ?thesis using Some n vt l
      unfolding cal_obj_expand_recurrence_def Let_def rd_def [symmetric] rule_end_def [symmetric] by simp
  qed
  then show ?thesis using ps(2-4) by blast
qed

lemma expand_total:
  assumes "gdate_contract G" "recur_ok recur" "span_ok es is" "end_ok (rule_end I recur)" "valid_end e" "cot_year e \<le> 60000"
    "goal_ok (cal_obj_initialize_recur_data G recur es) es is"
  shows "\<exists>occs fin. cal_obj_expand_recurrence G I es recur is (Some e) = Some (occs, fin) \<and> (\<forall>t \<in> set occs. valid_cot t)"
proof (cases "cal_obj_get_vtable (freq recur)")
  case None
  then show ?thesis by (auto simp: cal_obj_expand_recurrence_def)
next
  case (Some vt)
  show ?thesis
  proof (cases "case rule_end I recur of None \<Rightarrow> False | Some x \<Rightarrow> cal_obj_time_compare_func x is < 0")
    case True
    then show ?thesis using Some unfolding cal_obj_expand_recurrence_def Let_def rule_end_def [symmetric] by auto
  next
    case False
    define rd where "rd = cal_obj_initialize_recur_data G recur es"
    obtain ps fin where ps: "cal_obj_expand_recurrence G I es recur is (Some e)
          = Some (concat (map (period_set G rd vt (rule_end I recur)) ps), fin)" "\<forall>p \<in> set ps. freq_ok (freq recur) p"
      using expand_periods [OF assms(1,2) Some assms(3-7) False] unfolding rd_def by blast
    have rd: "rd_ok rd" "rd_recur rd = recur"
      using rd_ok_init [OF assms(1,2)] span_okD [OF assms(3)] by (simp_all add: rd_def)
    have "valid_cot t" if t: "p \<in> set ps" "t \<in> set (period_set G rd vt (rule_end I recur) p)" for t p
      by (rule period_set_valid [OF assms(1) rd(1), of vt p t]) (use Some ps(2) t rd(2) in auto)
    then show ?thesis using ps(1) by auto
  qed
qed

section \<open>Properties\<close>


definition sample_start :: cal_obj_time where
  "sample_start = \<lparr>cot_year = 2004, cot_month = 2, cot_day = 1, cot_hour = 23, cot_minute = 0,
     cot_second = 0, cot_flags = False\<rparr>"

definition sample_from :: cal_obj_time where
  "sample_from = \<lparr>cot_year = 2005, cot_month = 0, cot_day = 1, cot_hour = 0, cot_minute = 0,
     cot_second = 0, cot_flags = False\<rparr>"

definition sample_end :: cal_obj_time where
  "sample_end = \<lparr>cot_year = 2005, cot_month = 11, cot_day = 31, cot_hour = 23, cot_minute = 59,
     cot_second = 61, cot_flags = False\<rparr>"

lemma sample_span: "span_ok sample_start sample_from" "valid_end sample_end" "cot_year sample_end \<le> 60000"
  by (simp_all add: span_ok_def occ_valid_def occ_wf_def valid_cot_def valid_end_def norm_end_def valid_date_def valid_time_def
      sample_start_def sample_from_def sample_end_def time_days_in_month_cases cot_date_def rata_die_def year_start_def
      month_start_def time_is_leap_year_def)

lemma sample_recur_ok: "recur_ok sample_rule"
  by (simp add: recur_ok_def sample_rule_def)

lemma sample_goal: "goal_ok (cal_obj_initialize_recur_data libecal_gdate sample_rule sample_start) sample_start sample_from"
  by (simp add: goal_ok_def sample_rule_def Let_def)




text \<open>
  C25. The start positions of MINUTELY and SECONDLY rules are late when the interval starts at an
  earlier hour than the event: with interval 1 the first minute is 36 minutes per hour of the
  difference after the start of the interval, the first second 36 times 60 seconds per hour, so that
  the occurrences in between are lost. The code weights the hours with 24 and 24 * 60.
\<close>

theorem subday_start_too_late:
  assumes "gdate_contract G" "recur_ok recur" "interval recur = 1" "span_ok es is"
    "cot_date es < cot_date is" "cot_hour is < cot_hour es"
  shows "let rd = cal_obj_initialize_recur_data G recur es; late = cot_hour es - cot_hour is
    in (\<exists>t. cal_obj_minutely_find_start_position G es None rd is None = Some t \<and> cot_minutes t = cot_minutes is + 36 * late)
     \<and> (\<exists>t. cal_obj_secondly_find_start_position G es None rd is None = Some t \<and> cot_seconds t = cot_seconds is + 2160 * late)"
proof -
  define rd where "rd = cal_obj_initialize_recur_data G recur es"
  note s = span_okD [OF assms(4)] and b = valid_time_bounds [OF span_okD(3) [OF assms(4)]] valid_time_bounds [OF span_okD(4) [OF assms(4)]]
  have rd: "rd_ok rd" "rd_recur rd = recur" "rd_weekday_offset rd = cal_obj_time_weekday_offset G es (week_start_day (rd_recur rd))"
    using rd_ok_init [OF assms(1,2) s(3)] by (simp_all add: rd_def)
  have m: "cot_minutes es < cot_minutes is" "cot_minutes es \<le> cot_minutes is - 36 * (cot_hour is - cot_hour es)"
    using assms(5,6) b by (auto simp: cot_minutes_def cot_hours_def)
  have c: "end_seconds es < end_seconds is" "cot_seconds es \<le> cot_seconds is - 2160 * (cot_hour is - cot_hour es)"
    using assms(5,6) b s(3,4) by (auto simp: cot_seconds_def)
  have e: "end_ok None" by (simp add: end_ok_def)
  have "first_position p g 1 q \<Longrightarrow> p \<le> g \<Longrightarrow> q = g" for p g q by (auto simp: first_position_def)
  note fp = this [OF _ m(2)] this [OF _ c(2)]
  have "\<exists>t. cal_obj_minutely_find_start_position G es None rd is None = Some t \<and> cot_minutes t = cot_minutes is + 36 * (cot_hour es - cot_hour is)"
    using minutely.start [OF assms(1) rd(1,3) assms(4) e e] m fp(1)
    by (auto simp: rd(2) assms(3) no_overlap_def past_def algebra_simps)
  moreover have "\<exists>t. cal_obj_secondly_find_start_position G es None rd is None = Some t \<and> cot_seconds t = cot_seconds is + 2160 * (cot_hour es - cot_hour is)"
    using secondly.start [OF assms(1) rd(1,3) assms(4) e e] c fp(2)
    by (auto simp: rd(2) assms(3) no_overlap_def past_def algebra_simps)
  ultimately show ?thesis unfolding Let_def rd_def by blast
qed

theorem subday_start_too_late_witness:
  "\<exists>t. cal_obj_minutely_find_start_position libecal_gdate sample_start None
         (cal_obj_initialize_recur_data libecal_gdate sample_rule sample_start) sample_from None = Some t
     \<and> cot_minutes t = cot_minutes sample_from + 828"
proof -
  have "interval sample_rule = 1" "cot_date sample_start < cot_date sample_from" "cot_hour sample_from < cot_hour sample_start"
    "cot_hour sample_start - cot_hour sample_from = 23"
    by (simp_all add: sample_rule_def sample_start_def sample_from_def cot_date_def rata_die_def year_start_def month_start_def)
  with subday_start_too_late [OF libecal.gdate_contract_axioms sample_recur_ok _ sample_span(1)] show ?thesis by (simp add: Let_def)
qed

end
