(* ===== verification/Recur_Instances.thy ===== *)
theory Recur_Instances
  imports Recur_Expand_Laws
begin

text \<open>
  The instances of a component: the conversion of RRULE and EXRULE properties, one year's chunk of
  instances, the loop over the years, and the end dates of rules with a COUNT. libical is the
  parameter \<open>ical_lib\<close> (time zones have an abstract type), properties carry the rule and their X
  parameters, and the callback is a function on a state that returns whether to go on.
\<close>

datatype icalrecurrencetype_weekday =
    ICAL_NO_WEEKDAY | ICAL_SUNDAY_WEEKDAY | ICAL_MONDAY_WEEKDAY | ICAL_TUESDAY_WEEKDAY
  | ICAL_WEDNESDAY_WEEKDAY | ICAL_THURSDAY_WEEKDAY | ICAL_FRIDAY_WEEKDAY | ICAL_SATURDAY_WEEKDAY

record icalrecurrencetype =
  ir_freq :: icalrecurrencetype_frequency
  ir_until :: icaltimetype
  ir_count :: int
  ir_interval :: int
  ir_week_start :: icalrecurrencetype_weekday
  ir_by_second :: "int list"
  ir_by_minute :: "int list"
  ir_by_hour :: "int list"
  ir_by_day :: "int list"
  ir_by_month_day :: "int list"
  ir_by_year_day :: "int list"
  ir_by_week_no :: "int list"
  ir_by_month :: "int list"
  ir_by_set_pos :: "int list"

record icaldurationtype =
  dur_weeks :: int
  dur_days :: int
  dur_hours :: int
  dur_minutes :: int
  dur_seconds :: int

record 'z ical_lib =
  icaltime_as_timet_with_zone :: "icaltimetype \<Rightarrow> 'z \<Rightarrow> int"
  icaltime_from_timet_with_zone :: "int \<Rightarrow> 'z \<Rightarrow> icaltimetype"
  icaltime_is_null_time :: "icaltimetype \<Rightarrow> bool"
  icaltime_adjust_days :: "icaltimetype \<Rightarrow> int \<Rightarrow> icaltimetype"
  icaltime_compare_date_only :: "icaltimetype \<Rightarrow> icaltimetype \<Rightarrow> int"
  icalrecurrencetype_day_day_of_week :: "int \<Rightarrow> icalrecurrencetype_weekday"
  icalrecurrencetype_day_position :: "int \<Rightarrow> int"
  icalvalue_new_from_string :: "string \<Rightarrow> icaltimetype option"
  icalvalue_as_ical_string :: "icaltimetype \<Rightarrow> string"
  utc_timezone :: 'z

text \<open>An RRULE or EXRULE property: its rule and its X parameters with name (may be NULL) and value.\<close>

record icalproperty =
  prop_rule :: icalrecurrencetype
  prop_xparams :: "(string option \<times> string) list"

definition evolution_end_date_parameter :: string where
  "evolution_end_date_parameter = ''X-EVOLUTION-ENDDATE''"

section \<open>The end date parameter\<close>

fun find_end_date :: "'z ical_lib \<Rightarrow> (string option \<times> string) list \<Rightarrow> 'z \<Rightarrow> int" where
  "find_end_date L [] zone = -1"
| "find_end_date L ((xname, xvalue) # params) zone =
     (if xname = Some evolution_end_date_parameter
      then (case icalvalue_new_from_string L xvalue of
              Some icaltime \<Rightarrow> icaltime_as_timet_with_zone L icaltime zone
            | None \<Rightarrow> find_end_date L params zone)
      else find_end_date L params zone)"

definition e_cal_recur_get_rule_end_date :: "'z ical_lib \<Rightarrow> icalproperty \<Rightarrow> 'z option \<Rightarrow> int" where
  "e_cal_recur_get_rule_end_date L prop default_timezone =
     find_end_date L (prop_xparams prop) (case default_timezone of Some z \<Rightarrow> z | None \<Rightarrow> utc_timezone L)"

fun replace_end_date :: "(string option \<times> string) list \<Rightarrow> string \<Rightarrow> (string option \<times> string) list" where
  "replace_end_date [] str = [(Some evolution_end_date_parameter, str)]"
| "replace_end_date ((xname, xvalue) # params) str =
     (if xname = Some evolution_end_date_parameter then (xname, str) # params
      else (xname, xvalue) # replace_end_date params str)"

definition e_cal_recur_set_rule_end_date :: "'z ical_lib \<Rightarrow> icalproperty \<Rightarrow> int \<Rightarrow> icalproperty" where
  "e_cal_recur_set_rule_end_date L prop end_date =
     (let icaltime = icaltime_from_timet_with_zone L end_date (utc_timezone L);
          end_date_string = icalvalue_as_ical_string L icaltime
      in prop\<lparr>prop_xparams := replace_end_date (prop_xparams prop) end_date_string\<rparr>)"

section \<open>Conversion of a rule\<close>

text \<open>\<^verbatim>\<open>ICAL_RECURRENCE_ARRAY_MAX\<close> ends a list in an array of shorts.\<close>

definition ical_recurrence_array_max :: int where
  "ical_recurrence_array_max = 32639"

definition array_to_list :: "int list \<Rightarrow> int list" where
  "array_to_list array = takeWhile (\<lambda>x. x \<noteq> ical_recurrence_array_max) array"

fun e_cal_recur_ical_weekday_to_weekday :: "icalrecurrencetype_weekday \<Rightarrow> int" where
  "e_cal_recur_ical_weekday_to_weekday ICAL_NO_WEEKDAY = 0"
| "e_cal_recur_ical_weekday_to_weekday ICAL_MONDAY_WEEKDAY = 0"
| "e_cal_recur_ical_weekday_to_weekday ICAL_TUESDAY_WEEKDAY = 1"
| "e_cal_recur_ical_weekday_to_weekday ICAL_WEDNESDAY_WEEKDAY = 2"
| "e_cal_recur_ical_weekday_to_weekday ICAL_THURSDAY_WEEKDAY = 3"
| "e_cal_recur_ical_weekday_to_weekday ICAL_FRIDAY_WEEKDAY = 4"
| "e_cal_recur_ical_weekday_to_weekday ICAL_SATURDAY_WEEKDAY = 5"
| "e_cal_recur_ical_weekday_to_weekday ICAL_SUNDAY_WEEKDAY = 6"

text \<open>The loop over \<^verbatim>\<open>by_day\<close> prepends each pair, so the list is in reverse order.\<close>

fun byday_list :: "'z ical_lib \<Rightarrow> int list \<Rightarrow> (int \<times> int) list \<Rightarrow> (int \<times> int) list" where
  "byday_list L [] acc = acc"
| "byday_list L (d # ds) acc =
     (if d = ical_recurrence_array_max then acc
      else byday_list L ds
             ((e_cal_recur_ical_weekday_to_weekday (icalrecurrencetype_day_day_of_week L d),
               icalrecurrencetype_day_position L d) # acc))"

definition e_cal_recur_from_icalproperty :: "'z ical_lib \<Rightarrow> icalproperty \<Rightarrow> 'z \<Rightarrow> bool \<Rightarrow> e_cal_recurrence" where
  "e_cal_recur_from_icalproperty L prop zone convert_end_date =
     (let ir = prop_rule prop
      in \<lparr>freq = ir_freq ir,
          interval = ir_interval ir,
          enddate =
            (if ir_count ir \<noteq> 0
             then e_cal_recur_get_rule_end_date L prop (if convert_end_date then Some zone else None)
             else if icaltime_is_null_time L (ir_until ir) then 0
             else if tt_is_date (ir_until ir)
             then icaltime_as_timet_with_zone L
                    ((ir_until ir)\<lparr>tt_hour := 23, tt_minute := 59, tt_second := 59, tt_is_date := False\<rparr>) zone
             else icaltime_as_timet_with_zone L (ir_until ir) (utc_timezone L)),
          week_start_day = e_cal_recur_ical_weekday_to_weekday (ir_week_start ir),
          bymonth = map (\<lambda>month. month - 1) (array_to_list (ir_by_month ir)),
          byweekno = array_to_list (ir_by_week_no ir),
          byyearday = array_to_list (ir_by_year_day ir),
          bymonthday = array_to_list (ir_by_month_day ir),
          byday = byday_list L (ir_by_day ir) [],
          byhour = array_to_list (ir_by_hour ir),
          byminute = array_to_list (ir_by_minute ir),
          bysecond = array_to_list (ir_by_second ir),
          bysetpos = array_to_list (ir_by_set_pos ir)\<rparr>)"

section \<open>RDATE periods\<close>

datatype period_end = PERIOD_DATETIME icaltimetype | PERIOD_DURATION icaldurationtype

record e_cal_component_period =
  p_start :: icaltimetype
  p_end :: period_end

record cal_obj_recurrence_date =
  rdate_start :: cal_obj_time
  rdate_period :: e_cal_component_period

text \<open>The binary search: the last element looked at and the last comparison.\<close>

function rdate_search ::
    "cal_obj_recurrence_date list \<Rightarrow> cal_obj_time \<Rightarrow> nat \<Rightarrow> nat \<Rightarrow> cal_obj_recurrence_date option \<Rightarrow> int \<Rightarrow>
     cal_obj_recurrence_date option \<times> int" where
  "rdate_search rdate_periods occ lower upper rdate cmp =
     (if lower < upper
      then (let middle = (lower + upper) div 2;
                rdate = rdate_periods ! middle;
                cmp = cal_obj_time_compare_func occ (rdate_start rdate)
            in if cmp = 0 then (Some rdate, cmp)
               else if cmp < 0 then rdate_search rdate_periods occ lower middle (Some rdate) cmp
               else rdate_search rdate_periods occ (middle + 1) upper (Some rdate) cmp)
      else (rdate, cmp))"
  by pat_completeness auto
termination
  by (relation "measure (\<lambda>(ps, occ, lower, upper, r, c). upper - lower)") auto

declare rdate_search.simps [simp del]

definition apply_period_end :: "cal_obj_time \<Rightarrow> e_cal_component_period \<Rightarrow> cal_obj_time" where
  "apply_period_end occ p =
     (case p_end p of
        PERIOD_DATETIME tt \<Rightarrow>
          \<lparr>cot_year = u16 (tt_year tt), cot_month = u8 (tt_month tt - 1), cot_day = u8 (tt_day tt),
           cot_hour = u8 (tt_hour tt), cot_minute = u8 (tt_minute tt), cot_second = u8 (tt_second tt),
           cot_flags = False\<rparr>
      | PERIOD_DURATION d \<Rightarrow>
          cal_obj_time_add_seconds
            (cal_obj_time_add_minutes
              (cal_obj_time_add_hours
                (cal_obj_time_add_days occ (dur_weeks d * 7 + dur_days d)) (dur_hours d)) (dur_minutes d)) (dur_seconds d))"

definition cal_object_get_rdate_end :: "cal_obj_time \<Rightarrow> cal_obj_recurrence_date list \<Rightarrow> bool \<times> cal_obj_time" where
  "cal_object_get_rdate_end occ rdate_periods =
     (case rdate_search rdate_periods occ 0 (length rdate_periods) None 0 of
        (rdate, cmp) \<Rightarrow>
          if cmp = 0 then (False, occ)
          else (case rdate of None \<Rightarrow> (False, occ)
                | Some r \<Rightarrow> (True, apply_period_end occ (rdate_period r))))"

section \<open>One chunk\<close>

text \<open>The RDATE loop: occurrences, periods and the \<^verbatim>\<open>finished\<close> flag.\<close>

definition rdate_time :: "icaltimetype \<Rightarrow> cal_obj_time" where
  "rdate_time tt =
     \<lparr>cot_year = u16 (tt_year tt), cot_month = u8 (tt_month tt - 1), cot_day = u8 (tt_day tt),
      cot_hour = u8 (tt_hour tt), cot_minute = u8 (tt_minute tt), cot_second = u8 (tt_second tt),
      cot_flags = False\<rparr>"

fun add_rdates ::
    "cal_obj_time \<Rightarrow> e_cal_component_period list \<Rightarrow> cal_obj_time list \<Rightarrow> cal_obj_recurrence_date list \<Rightarrow> bool \<Rightarrow>
     cal_obj_time list \<times> cal_obj_recurrence_date list \<times> bool" where
  "add_rdates chunk_end [] occs rdate_periods finished = (occs, rdate_periods, finished)"
| "add_rdates chunk_end (p # rdates) occs rdate_periods finished =
     (let cotime = rdate_time (p_start p)
      in if cal_obj_time_compare_func cotime chunk_end \<ge> 0
         then add_rdates chunk_end rdates occs rdate_periods False
         else if (case p_end p of PERIOD_DATETIME tt \<Rightarrow> tt_second tt \<noteq> -1 | PERIOD_DURATION d \<Rightarrow> True)
         then (let cotime = cotime\<lparr>cot_flags := True\<rparr>
               in add_rdates chunk_end rdates (occs @ [cotime])
                    (rdate_periods @ [\<lparr>rdate_start = cotime, rdate_period = p\<rparr>]) finished)
         else add_rdates chunk_end rdates (occs @ [cotime]) rdate_periods finished)"

definition exdate_time :: "icaltimetype \<Rightarrow> cal_obj_time" where
  "exdate_time tt =
     (if tt_is_date tt
      then \<lparr>cot_year = u16 (tt_year tt), cot_month = u8 (tt_month tt - 1), cot_day = u8 (tt_day tt),
            cot_hour = 0, cot_minute = 0, cot_second = 0, cot_flags = True\<rparr>
      else \<lparr>cot_year = u16 (tt_year tt), cot_month = u8 (tt_month tt - 1), cot_day = u8 (tt_day tt),
            cot_hour = u8 (tt_hour tt), cot_minute = u8 (tt_minute tt), cot_second = u8 (tt_second tt),
            cot_flags = False\<rparr>)"

text \<open>The loops over the rules: the occurrences in order, and whether all the rules are finished.\<close>

fun expand_rules ::
    "gdate_lib \<Rightarrow> 'z ical_lib \<Rightarrow> 'z \<Rightarrow> cal_obj_time \<Rightarrow> cal_obj_time \<Rightarrow> cal_obj_time \<Rightarrow> bool \<Rightarrow> icalproperty list \<Rightarrow>
     (cal_obj_time list \<times> bool) option" where
  "expand_rules G L zone event_start chunk_start chunk_end convert [] = Some ([], True)"
| "expand_rules G L zone event_start chunk_start chunk_end convert (prop # props) =
     Option.bind
       (cal_obj_expand_recurrence G (\<lambda>t. icaltime_from_timet_with_zone L t zone) event_start
          (e_cal_recur_from_icalproperty L prop zone convert) chunk_start (Some chunk_end))
       (\<lambda>(occs, rule_finished).
          map_option (\<lambda>(occs', finished). (occs @ occs', rule_finished \<and> finished))
            (expand_rules G L zone event_start chunk_start chunk_end convert props))"

definition occ_icaltime :: "cal_obj_time \<Rightarrow> icaltimetype" where
  "occ_icaltime occ =
     \<lparr>tt_year = cot_year occ, tt_month = cot_month occ + 1, tt_day = cot_day occ, tt_hour = cot_hour occ,
      tt_minute = cot_minute occ, tt_second = cot_second occ, tt_is_date = False\<rparr>"

definition rdate_qsort_cmp :: "cal_obj_recurrence_date \<Rightarrow> cal_obj_recurrence_date \<Rightarrow> int" where
  "rdate_qsort_cmp a b = cal_obj_time_compare_func (rdate_start a) (rdate_start b)"

text \<open>
  The loop that calls back. It carries the state of the callback and returns it with
  \<^verbatim>\<open>cb_status\<close> and \<^verbatim>\<open>finished\<close>.
\<close>

fun chunk_loop ::
    "(icaltimetype \<Rightarrow> int) \<Rightarrow> int \<Rightarrow> int \<Rightarrow> cal_obj_time \<Rightarrow> cal_obj_time \<Rightarrow> cal_obj_recurrence_date list \<Rightarrow> int \<Rightarrow> int \<Rightarrow>
     ('s \<Rightarrow> int \<Rightarrow> int \<Rightarrow> 's \<times> bool) \<Rightarrow> 's \<Rightarrow> bool \<Rightarrow> cal_obj_time list \<Rightarrow> 's \<times> bool \<times> bool" where
  "chunk_loop timet comp_dtstart interval_start chunk_start chunk_end rdates days seconds cb s finished [] = (s, True, finished)"
| "chunk_loop timet comp_dtstart interval_start chunk_start chunk_end rdates days seconds cb s finished (occ # occs) =
     (let start_time = timet (occ_icaltime occ)
      in if start_time = -1 then (s, True, True)
         else if start_time < comp_dtstart \<or> cal_obj_time_compare_func occ chunk_start < 0
                 \<or> cal_obj_time_compare_func occ chunk_end > 0
         then chunk_loop timet comp_dtstart interval_start chunk_start chunk_end rdates days seconds cb s finished occs
         else (let (found, occ') = (if cot_flags occ then cal_object_get_rdate_end occ rdates else (False, occ));
                   occ' = (if found then occ' else cal_obj_time_add_seconds (cal_obj_time_add_days occ' days) seconds);
                   end_time = timet (occ_icaltime occ')
               in if end_time = -1 then (s, True, True)
                  else if end_time \<le> interval_start
                  then chunk_loop timet comp_dtstart interval_start chunk_start chunk_end rdates days seconds cb s finished occs
                  else (let (s', cb_status) = cb s start_time end_time
                        in if \<not> cb_status then (s', False, finished)
                           else chunk_loop timet comp_dtstart interval_start chunk_start chunk_end rdates days seconds
                                  cb s' finished occs)))"

text \<open>The recurrence properties of a component.\<close>

record recur_props =
  rp_rrules :: "icalproperty list"
  rp_rdates :: "e_cal_component_period list"
  rp_exrules :: "icalproperty list"
  rp_exdates :: "icaltimetype list"

definition chunk_occurrences ::
    "gdate_lib \<Rightarrow> 'z ical_lib \<Rightarrow> 'z \<Rightarrow> recur_props \<Rightarrow> bool \<Rightarrow> cal_obj_time \<Rightarrow> cal_obj_time \<Rightarrow> cal_obj_time \<Rightarrow> bool \<Rightarrow>
     (cal_obj_time list \<times> cal_obj_recurrence_date list \<times> bool) option" where
  "chunk_occurrences G L zone rp single_rule event_start chunk_start chunk_end convert =
     (let (occs, finished) =
            (if \<not> single_rule
             then (if cal_obj_time_compare_func event_start chunk_end \<ge> 0 then ([], False)
                   else if cal_obj_time_compare_func event_start chunk_start \<ge> 0 then ([event_start], True)
                   else ([], True))
             else ([], True))
      in Option.bind (expand_rules G L zone event_start chunk_start chunk_end convert (rp_rrules rp))
           (\<lambda>(rocc, rfin).
              let (occs, rdate_periods, finished) =
                    add_rdates chunk_end (rp_rdates rp) (occs @ rocc) [] (finished \<and> rfin)
              in map_option
                   (\<lambda>(ex_occs, exfin).
                      let ex_occs = ex_occs @ map exdate_time (rp_exdates rp)
                      in (cal_obj_remove_exceptions (cal_obj_sort_occurrences occs) (cal_obj_sort_occurrences ex_occs),
                          qsort rdate_qsort_cmp rdate_periods, finished))
                   (expand_rules G L zone event_start chunk_start chunk_end convert (rp_exrules rp))))"

text \<open>Returns the callback's state and whether to carry on with the next chunk.\<close>

definition generate_instances_for_chunk ::
    "gdate_lib \<Rightarrow> 'z ical_lib \<Rightarrow> int \<Rightarrow> 'z \<Rightarrow> recur_props \<Rightarrow> bool \<Rightarrow> cal_obj_time \<Rightarrow> int \<Rightarrow> cal_obj_time \<Rightarrow> cal_obj_time \<Rightarrow>
     int \<Rightarrow> int \<Rightarrow> bool \<Rightarrow> ('s \<Rightarrow> int \<Rightarrow> int \<Rightarrow> 's \<times> bool) \<Rightarrow> 's \<Rightarrow> ('s \<times> bool) option" where
  "generate_instances_for_chunk G L comp_dtstart zone rp single_rule event_start interval_start
       chunk_start chunk_end duration_days duration_seconds convert cb s =
     map_option
       (\<lambda>(occs, rdate_periods, finished).
          case chunk_loop (\<lambda>tt. icaltime_as_timet_with_zone L tt zone) comp_dtstart interval_start chunk_start chunk_end
                 rdate_periods duration_days duration_seconds cb s finished occs of
            (s, cb_status, finished) \<Rightarrow> (s, cb_status \<and> \<not> finished))
       (chunk_occurrences G L zone rp single_rule event_start chunk_start chunk_end convert)"

end
