(* ===== verification/Recur_Driver.thy ===== *)
theory Recur_Driver
  imports Recur_Instances
begin

text \<open>
  The loop over the years, \<^verbatim>\<open>e_cal_recur_generate_instances_of_rule\<close> with its set-up, and the end
  dates of rules with a COUNT. The component is reduced to the properties that the code reads; the
  default time zone is not NULL.
\<close>

definition max_year :: int where
  "max_year = 2037"

text \<open>The first and the last time of the chunk of one year.\<close>

definition year_chunk :: "cal_obj_time \<Rightarrow> cal_obj_time option \<Rightarrow> int \<Rightarrow> cal_obj_time \<times> cal_obj_time" where
  "year_chunk interval_start interval_end year =
     (let chunk_start = interval_start\<lparr>cot_year := u16 year\<rparr>;
          chunk_start =
            (if year \<noteq> cot_year interval_start
             then chunk_start\<lparr>cot_month := 0, cot_day := 1, cot_hour := 0, cot_minute := 0, cot_second := 0\<rparr>
             else chunk_start);
          last = \<lparr>cot_year = u16 year, cot_month = 11, cot_day = 31, cot_hour = 23, cot_minute = 59,
                  cot_second = 61, cot_flags = False\<rparr>;
          chunk_end =
            (case interval_end of None \<Rightarrow> last
             | Some ie \<Rightarrow> (if year \<noteq> cot_year ie then last else ie\<lparr>cot_year := u16 year\<rparr>))
      in (chunk_start, chunk_end))"

function year_loop ::
    "(cal_obj_time \<Rightarrow> cal_obj_time \<Rightarrow> 's \<Rightarrow> ('s \<times> bool) option) \<Rightarrow> cal_obj_time \<Rightarrow> cal_obj_time option \<Rightarrow> int \<Rightarrow> 's \<Rightarrow> 's option" where
  "year_loop chunk interval_start interval_end year s =
     (if (case interval_end of None \<Rightarrow> True | Some ie \<Rightarrow> year \<le> cot_year ie) \<and> year \<le> max_year
      then (case chunk (fst (year_chunk interval_start interval_end year)) (snd (year_chunk interval_start interval_end year)) s of
              None \<Rightarrow> None
            | Some (s', go) \<Rightarrow> (if go then year_loop chunk interval_start interval_end (year + 1) s' else Some s'))
      else Some s)"
  by pat_completeness auto
termination
  by (relation "measure (\<lambda>(c, i, e, year, s). nat (max_year + 1 - year))") auto

declare year_loop.simps [simp del]

record ecal_datetime =
  edt_value :: "icaltimetype option"
  edt_tzid :: "string option"

record recur_comp =
  rc_dtstart :: ecal_datetime
  rc_dtend :: ecal_datetime
  rc_is_journal :: bool
  rc_is_instance :: bool
  rc_props :: recur_props

definition e_cal_component_has_recurrences :: "recur_comp \<Rightarrow> bool" where
  "e_cal_component_has_recurrences ecomp = (rp_rdates (rc_props ecomp) \<noteq> [] \<or> rp_rrules (rc_props ecomp) \<noteq> [])"

definition e_cal_component_has_exceptions :: "recur_comp \<Rightarrow> bool" where
  "e_cal_component_has_exceptions ecomp = (rp_exdates (rc_props ecomp) \<noteq> [] \<or> rp_exrules (rc_props ecomp) \<noteq> [])"

text \<open>The zone of a DTSTART or DTEND.\<close>

definition resolve_zone :: "(string \<Rightarrow> 'z option) \<Rightarrow> 'z \<Rightarrow> ecal_datetime \<Rightarrow> bool \<Rightarrow> 'z" where
  "resolve_zone tz_cb default_timezone dt is_date =
     (case edt_tzid dt of
        None \<Rightarrow> default_timezone
      | Some tzid \<Rightarrow> (if is_date then default_timezone
                      else (case tz_cb tzid of None \<Rightarrow> default_timezone | Some z \<Rightarrow> z)))"

definition effective_dtend :: "'z ical_lib \<Rightarrow> icaltimetype \<Rightarrow> icaltimetype option \<Rightarrow> icaltimetype" where
  "effective_dtend L dtstart dtend =
     (case dtend of
        Some e \<Rightarrow> (if tt_is_date dtstart \<and> tt_is_date e \<and> icaltime_compare_date_only L dtstart e = 0
                   then icaltime_adjust_days L e 1 else e)
      | None \<Rightarrow> (if tt_is_date dtstart then icaltime_adjust_days L dtstart 1 else dtstart))"

text \<open>
  The body of \<^verbatim>\<open>e_cal_recur_generate_instances_of_rule\<close>. The argument \<open>rules\<close> is the result of
  the branch that chooses the rules (\<^verbatim>\<open>single_rule\<close> and the lists), computed only when the code
  gets there. The result is the state of the callback, \<open>None\<close> if the expansion does not end.
\<close>

definition generate_instances_with ::
    "gdate_lib \<Rightarrow> 'z ical_lib \<Rightarrow> (string \<Rightarrow> 'z option) \<Rightarrow> 'z \<Rightarrow> recur_comp \<Rightarrow> (bool \<times> recur_props) option \<Rightarrow> int \<Rightarrow> int \<Rightarrow>
     ('s \<Rightarrow> int \<Rightarrow> int \<Rightarrow> 's \<times> bool) \<Rightarrow> 's \<Rightarrow> 's option" where
  "generate_instances_with G L tz_cb default_timezone ecomp rules start end_time cb s =
     (if start < -1 \<or> end_time < -1 then Some s
      else case edt_value (rc_dtstart ecomp) of
        None \<Rightarrow> Some s
      | Some dtstart \<Rightarrow>
          (let start_zone = resolve_zone tz_cb default_timezone (rc_dtstart ecomp) (tt_is_date dtstart);
               convert_end_date = \<not> (edt_tzid (rc_dtstart ecomp) \<noteq> None \<and> \<not> tt_is_date dtstart);
               dtstart_time = icaltime_as_timet_with_zone L dtstart start_zone;
               start = (if start = -1 then dtstart_time else start);
               dtend = effective_dtend L dtstart (edt_value (rc_dtend ecomp));
               end_zone = resolve_zone tz_cb default_timezone (rc_dtend ecomp) (tt_is_date dtend);
               dtend_time = icaltime_as_timet_with_zone L dtend end_zone
           in if \<not> (e_cal_component_has_recurrences ecomp \<or> e_cal_component_has_exceptions ecomp)
              then (if rc_is_journal ecomp
                    then (if icaltime_compare_date_only L dtstart (icaltime_from_timet_with_zone L start default_timezone) \<ge> 0
                             \<and> icaltime_compare_date_only L dtstart (icaltime_from_timet_with_zone L end_time default_timezone) < 0
                          then Some (fst (cb s dtstart_time dtend_time)) else Some s)
                    else if (end_time = -1 \<or> dtstart_time < end_time) \<and> dtend_time > start
                    then Some (fst (cb s dtstart_time dtend_time)) else Some s)
              else case rules of
                None \<Rightarrow> None
              | Some (single_rule, rp) \<Rightarrow>
                  (let from_time = cal_object_time_from_time (\<lambda>t. icaltime_from_timet_with_zone L t start_zone);
                       interval_start = from_time start;
                       interval_end = (if end_time \<noteq> -1 then Some (from_time (end_time - 1)) else None);
                       event_start = from_time dtstart_time;
                       event_end = from_time dtend_time;
                       (days, seconds) = cal_object_compute_duration G event_start event_end;
                       interval_start =
                         (if start > dtstart_time
                          then cal_obj_time_add_seconds (cal_obj_time_add_days interval_start (- days)) (- seconds)
                          else interval_start)
                   in year_loop
                        (\<lambda>chunk_start chunk_end s.
                           generate_instances_for_chunk G L dtstart_time start_zone rp single_rule event_start start
                             chunk_start chunk_end days seconds convert_end_date cb s)
                        interval_start interval_end (cot_year interval_start) s)))"

definition no_props :: recur_props where
  "no_props = \<lparr>rp_rrules = [], rp_rdates = [], rp_exrules = [], rp_exdates = []\<rparr>"

text \<open>The counting callback and the end date of a rule with COUNT.\<close>

record ensure_end_date_data =
  ed_count :: int
  ed_instances :: int
  ed_end_date :: int

definition e_cal_recur_ensure_rule_end_date_cb ::
    "ensure_end_date_data \<Rightarrow> int \<Rightarrow> int \<Rightarrow> ensure_end_date_data \<times> bool" where
  "e_cal_recur_ensure_rule_end_date_cb cb_data instance_start instance_end =
     (let cb_data = cb_data\<lparr>ed_instances := ed_instances cb_data + 1\<rparr>
      in if ed_instances cb_data = ed_count cb_data
         then (cb_data\<lparr>ed_end_date := instance_start\<rparr>, False)
         else (cb_data, True))"

text \<open>The property after the call, and whether it was changed.\<close>

definition e_cal_recur_ensure_rule_end_date ::
    "gdate_lib \<Rightarrow> 'z ical_lib \<Rightarrow> (string \<Rightarrow> 'z option) \<Rightarrow> recur_comp \<Rightarrow> bool \<Rightarrow> icalproperty \<Rightarrow> (icalproperty \<times> bool) option" where
  "e_cal_recur_ensure_rule_end_date G L tz_cb ecomp refresh prop =
     (if ir_count (prop_rule prop) = 0 then Some (prop, False)
      else if \<not> refresh \<and> e_cal_recur_get_rule_end_date L prop None \<noteq> -1 then Some (prop, False)
      else map_option (\<lambda>cb_data. (e_cal_recur_set_rule_end_date L prop (ed_end_date cb_data), True))
             (generate_instances_with G L tz_cb (utc_timezone L) ecomp
                (Some (True, no_props\<lparr>rp_rrules := [prop]\<rparr>)) (-1) (-1)
                e_cal_recur_ensure_rule_end_date_cb
                \<lparr>ed_count = ir_count (prop_rule prop), ed_instances = 0, ed_end_date = 0\<rparr>))"

fun ensure_rules ::
    "(icalproperty \<Rightarrow> (icalproperty \<times> bool) option) \<Rightarrow> icalproperty list \<Rightarrow> (icalproperty list \<times> bool) option" where
  "ensure_rules ensure [] = Some ([], False)"
| "ensure_rules ensure (prop # props) =
     Option.bind (ensure prop)
       (\<lambda>(prop', changed). map_option (\<lambda>(props', changed'). (prop' # props', changed \<or> changed')) (ensure_rules ensure props))"

definition e_cal_recur_ensure_end_dates ::
    "gdate_lib \<Rightarrow> 'z ical_lib \<Rightarrow> (string \<Rightarrow> 'z option) \<Rightarrow> recur_comp \<Rightarrow> bool \<Rightarrow> (recur_comp \<times> bool) option" where
  "e_cal_recur_ensure_end_dates G L tz_cb ecomp refresh =
     Option.bind (ensure_rules (e_cal_recur_ensure_rule_end_date G L tz_cb ecomp refresh) (rp_rrules (rc_props ecomp)))
       (\<lambda>(rrules, changed).
          let ecomp = ecomp\<lparr>rc_props := (rc_props ecomp)\<lparr>rp_rrules := rrules\<rparr>\<rparr>
          in map_option (\<lambda>(exrules, changed').
                 (ecomp\<lparr>rc_props := (rc_props ecomp)\<lparr>rp_exrules := exrules\<rparr>\<rparr>, changed \<or> changed'))
               (ensure_rules (e_cal_recur_ensure_rule_end_date G L tz_cb ecomp refresh) (rp_exrules (rc_props ecomp))))"

definition e_cal_recur_generate_instances_of_rule ::
    "gdate_lib \<Rightarrow> 'z ical_lib \<Rightarrow> (string \<Rightarrow> 'z option) \<Rightarrow> 'z \<Rightarrow> recur_comp \<Rightarrow> icalproperty option \<Rightarrow> int \<Rightarrow> int \<Rightarrow>
     ('s \<Rightarrow> int \<Rightarrow> int \<Rightarrow> 's \<times> bool) \<Rightarrow> 's \<Rightarrow> 's option" where
  "e_cal_recur_generate_instances_of_rule G L tz_cb default_timezone ecomp prop start end_time cb s =
     generate_instances_with G L tz_cb default_timezone ecomp
       (case prop of
          Some p \<Rightarrow> Some (True, no_props\<lparr>rp_rrules := [p]\<rparr>)
        | None \<Rightarrow>
            (if rc_is_instance ecomp then Some (False, no_props)
             else map_option (\<lambda>(ecomp', changed). (False, rc_props ecomp'))
                    (e_cal_recur_ensure_end_dates G L tz_cb ecomp False)))
       start end_time cb s"

definition e_cal_recur_generate_instances ::
    "gdate_lib \<Rightarrow> 'z ical_lib \<Rightarrow> (string \<Rightarrow> 'z option) \<Rightarrow> 'z \<Rightarrow> recur_comp \<Rightarrow> int \<Rightarrow> int \<Rightarrow>
     ('s \<Rightarrow> int \<Rightarrow> int \<Rightarrow> 's \<times> bool) \<Rightarrow> 's \<Rightarrow> 's option" where
  "e_cal_recur_generate_instances G L tz_cb default_timezone ecomp start end_time cb s =
     e_cal_recur_generate_instances_of_rule G L tz_cb default_timezone ecomp None start end_time cb s"

end
