(* ===== verification/Recur_Instance_Laws.thy ===== *)
theory Recur_Instance_Laws
  imports Recur_Driver
begin

text \<open>
  The instances: the calls of the callback within a chunk, the partition of the interval into
  chunks, the end dates of rules with COUNT, and that the generation of instances returns.
\<close>

section \<open>The merged occurrences of a chunk\<close>

definition kept_inv :: "cal_obj_time option \<Rightarrow> cal_obj_time list \<Rightarrow> cal_obj_time list \<Rightarrow> bool" where
  "kept_inv prev kept occs \<longleftrightarrow> sorted (map cot_key occs) \<and> sorted_wrt (>) (map cot_key kept)
     \<and> (case prev of None \<Rightarrow> kept = []
        | Some p \<Rightarrow> (\<forall>t \<in> set kept. cot_key t \<le> cot_key p) \<and> (\<forall>t \<in> set occs. cot_key p \<le> cot_key t))"

lemma kept_inv_duplicate:
  assumes "kept_inv (Some p) kept (occ # occs)" "cot_key occ = cot_key p"
  shows "kept_inv (Some occ) kept occs" "kept_inv (Some occ) (flag_last_kept kept) occs"
proof -
  show k: "kept_inv (Some occ) kept occs" using assms by (auto simp: kept_inv_def)
  then show "kept_inv (Some occ) (flag_last_kept kept) occs"
    by (cases kept) (auto simp: kept_inv_def)
qed

lemma kept_inv_new:
  assumes inv: "kept_inv prev kept (occ # occs)" and new: "\<forall>p. prev = Some p \<longrightarrow> cot_key occ \<noteq> cot_key p"
  shows "kept_inv (Some occ) kept occs" "kept_inv (Some occ) (occ # kept) occs"
proof -
  have "\<forall>t \<in> set kept. cot_key t < cot_key occ"
  proof (cases prev)
    case (Some p)
    then have "cot_key p \<le> cot_key occ" "cot_key occ \<noteq> cot_key p" "\<forall>t \<in> set kept. cot_key t \<le> cot_key p"
      using inv new by (auto simp: kept_inv_def)
    then show ?thesis by force
  qed (use inv in \<open>simp add: kept_inv_def\<close>)
  then show "kept_inv (Some occ) kept occs" "kept_inv (Some occ) (occ # kept) occs"
    using inv by (auto simp: kept_inv_def less_imp_le)
qed

lemma remove_exceptions_loop_sorted:
  assumes "kept_inv prev kept occs"
  shows "sorted_wrt (<) (map cot_key (remove_exceptions_loop prev is_ex exs kept occs))
    \<and> cot_key ` set (remove_exceptions_loop prev is_ex exs kept occs) \<subseteq> cot_key ` set kept \<union> cot_key ` set occs"
  using assms
proof (induction occs arbitrary: prev is_ex exs kept)
  case Nil
  then show ?case by (simp add: kept_inv_def sorted_wrt_rev flip: rev_map)
next
  case (Cons occ occs)
  show ?case
  proof (cases "\<exists>p. prev = Some p \<and> cot_key occ = cot_key p")
    case True
    then obtain p where p: "prev = Some p" "cot_key occ = cot_key p" by blast
    let ?kept = "if cot_flags occ \<and> \<not> is_ex then flag_last_kept kept else kept"
    have "map cot_key ?kept = map cot_key kept" by simp
    from arg_cong [OF this, of set] have k: "cot_key ` set ?kept = cot_key ` set kept" by (simp only: list.set_map)
    have "kept_inv (Some occ) ?kept occs" using kept_inv_duplicate [OF Cons.prems [unfolded p(1)] p(2)] by simp
    from Cons.IH [OF this, of is_ex exs]
    have "sorted_wrt (<) (map cot_key (remove_exceptions_loop (Some occ) is_ex exs ?kept occs))
      \<and> cot_key ` set (remove_exceptions_loop (Some occ) is_ex exs ?kept occs) \<subseteq> cot_key ` set kept \<union> cot_key ` set occs"
      unfolding k .
    moreover have "remove_exceptions_loop prev is_ex exs kept (occ # occs) = remove_exceptions_loop (Some occ) is_ex exs ?kept occs"
      using p by simp
    ultimately show ?thesis by (simp only: list.set image_insert) blast
  next
    case False
    then have new: "\<forall>p. prev = Some p \<longrightarrow> cot_key occ \<noteq> cot_key p" by auto
    obtain exs' found where s: "skip_exceptions occ exs = (exs', found)" by (cases "skip_exceptions occ exs")
    have "kept_inv (Some occ) (if found then kept else occ # kept) occs"
      using kept_inv_new [OF Cons.prems new] by simp
    note IH = Cons.IH [OF this, of found exs']
    have "remove_exceptions_loop prev is_ex exs kept (occ # occs)
        = remove_exceptions_loop (Some occ) found exs' (if found then kept else occ # kept) occs"
      using new s by (cases prev) auto
    moreover have "cot_key ` set (if found then kept else occ # kept) \<union> cot_key ` set occs
        \<subseteq> cot_key ` set kept \<union> cot_key ` set (occ # occs)" by auto
    ultimately show ?thesis using IH by (simp only:) blast
  qed
qed

lemma remove_exceptions_sorted:
  assumes "sorted (map cot_key occs)"
  shows "sorted_wrt (<) (map cot_key (cal_obj_remove_exceptions occs exs))"
    and "cot_key ` set (cal_obj_remove_exceptions occs exs) \<subseteq> cot_key ` set occs"
  using remove_exceptions_loop_sorted [of None "[]" occs False exs] assms
  by (auto simp: cal_obj_remove_exceptions_def kept_inv_def)

lemma chunk_occurrences_sorted:
  assumes "chunk_occurrences G L zone rp single es cs ce convert = Some (occs, rdates, fin)"
  shows "sorted_wrt (<) (map cot_key occs)" "sorted (map (cot_key \<circ> rdate_start) rdates)"
proof -
  have r: "sort_comparator rdate_qsort_cmp (cot_key \<circ> rdate_start)"
    by unfold_locales (simp add: rdate_qsort_cmp_def)
  show "sorted_wrt (<) (map cot_key occs)" "sorted (map (cot_key \<circ> rdate_start) rdates)"
    using assms remove_exceptions_sorted(1) sort_comparator.qsort_sorted [OF r]
    by (auto simp: chunk_occurrences_def bind_eq_Some_conv Let_def case_prod_unfold)
qed

section \<open>RDATE ends\<close>

lemma rdate_search_found:
  assumes "sorted (map (cot_key \<circ> rdate_start) rs)" "upper \<le> length rs"
    "\<exists>i. lower \<le> i \<and> i < upper \<and> cot_key (rdate_start (rs ! i)) = cot_key occ"
  shows "snd (rdate_search rs occ lower upper r c) = 0"
  using assms
proof (induction rs occ lower upper r c rule: rdate_search.induct)
  case (1 rs occ lower upper r c)
  then obtain i where i: "lower \<le> i" "i < upper" "cot_key (rdate_start (rs ! i)) = cot_key occ" by blast
  let ?m = "(lower + upper) div 2"
  have m: "lower \<le> ?m" "?m < upper" using i by auto
  have mono: "cot_key (rdate_start (rs ! a)) \<le> cot_key (rdate_start (rs ! b))" if "a \<le> b" "b < upper" for a b
  proof -
    have "b < length rs" using that 1(4) by linarith
    then show ?thesis using sorted_nth_mono [OF 1(3), of a b] that(1) by simp
  qed
  show ?case
  proof (cases "cot_key occ = cot_key (rdate_start (rs ! ?m))")
    case True
    then show ?thesis using i by (subst rdate_search.simps) (simp add: Let_def)
  next
    case False
    show ?thesis
    proof (cases "cot_key occ < cot_key (rdate_start (rs ! ?m))")
      case True
      then have "i < ?m" using mono [of ?m i] i by (metis not_less leD)
      then have "snd (rdate_search rs occ lower ?m (Some (rs ! ?m)) (cal_obj_time_compare_func occ (rdate_start (rs ! ?m)))) = 0"
        using i m 1(3,4) False True by (intro 1(1)) auto
      then show ?thesis using i m False True by (subst rdate_search.simps) (simp add: Let_def)
    next
      case greater: False
      then have "?m < i" using mono [of i ?m] i m False by (metis not_less order_antisym)
      then have "snd (rdate_search rs occ (?m + 1) upper (Some (rs ! ?m)) (cal_obj_time_compare_func occ (rdate_start (rs ! ?m)))) = 0"
        using i m 1(3,4) False greater by (intro 1(2)) (auto intro!: exI [of _ i])
      then show ?thesis using i m False greater by (subst rdate_search.simps) (simp add: Let_def)
    qed
  qed
qed

section \<open>The calls of a chunk\<close>

text \<open>A run of the callback over a list of instances, until it returns FALSE.\<close>

fun run_calls :: "('s \<Rightarrow> int \<Rightarrow> int \<Rightarrow> 's \<times> bool) \<Rightarrow> 's \<Rightarrow> (int \<times> int) list \<Rightarrow> 's \<times> bool" where
  "run_calls cb s [] = (s, True)"
| "run_calls cb s ((a, b) # calls) = (case cb s a b of (s', ok) \<Rightarrow> if ok then run_calls cb s' calls else (s', False))"

definition occ_end :: "cal_obj_recurrence_date list \<Rightarrow> int \<Rightarrow> int \<Rightarrow> cal_obj_time \<Rightarrow> cal_obj_time" where
  "occ_end rdates days seconds occ =
     (case (if cot_flags occ then cal_object_get_rdate_end occ rdates else (False, occ)) of
        (found, occ') \<Rightarrow> if found then occ' else cal_obj_time_add_seconds (cal_obj_time_add_days occ' days) seconds)"

text \<open>The instances of a chunk: those in the chunk, not before the event, that reach into the interval.\<close>

definition chunk_calls ::
    "(icaltimetype \<Rightarrow> int) \<Rightarrow> int \<Rightarrow> int \<Rightarrow> cal_obj_time \<Rightarrow> cal_obj_time \<Rightarrow> cal_obj_recurrence_date list \<Rightarrow> int \<Rightarrow> int \<Rightarrow>
     cal_obj_time list \<Rightarrow> (int \<times> int) list" where
  "chunk_calls timet dtstart from cs ce rdates days seconds occs =
     map (\<lambda>occ. (timet (occ_icaltime occ), timet (occ_icaltime (occ_end rdates days seconds occ))))
       [occ \<leftarrow> occs. dtstart \<le> timet (occ_icaltime occ) \<and> cot_key cs \<le> cot_key occ \<and> cot_key occ \<le> cot_key ce
                   \<and> from < timet (occ_icaltime (occ_end rdates days seconds occ))]"

lemma chunk_loop_step:
  assumes "\<forall>tt. timet tt \<noteq> -1"
  shows "chunk_loop timet dtstart from cs ce rdates days seconds cb s fin (occ # occs) =
    (let st = timet (occ_icaltime occ); en = timet (occ_icaltime (occ_end rdates days seconds occ))
     in if st < dtstart \<or> cot_key occ < cot_key cs \<or> cot_key ce < cot_key occ \<or> en \<le> from
        then chunk_loop timet dtstart from cs ce rdates days seconds cb s fin occs
        else (case cb s st en of (s', ok) \<Rightarrow>
          if ok then chunk_loop timet dtstart from cs ce rdates days seconds cb s' fin occs else (s', False, fin)))"
  using assms by (auto simp: occ_end_def case_prod_unfold Let_def)

lemma chunk_loop_calls:
  assumes "\<forall>tt. timet tt \<noteq> -1"
  shows "chunk_loop timet dtstart from cs ce rdates days seconds cb s fin occs =
    (case run_calls cb s (chunk_calls timet dtstart from cs ce rdates days seconds occs) of (s', ok) \<Rightarrow> (s', ok, fin))"
proof (induction occs arbitrary: s)
  case Nil
  then show ?case by (simp add: chunk_calls_def)
next
  case (Cons occ occs)
  let ?st = "timet (occ_icaltime occ)" and ?en = "timet (occ_icaltime (occ_end rdates days seconds occ))"
  show ?case
  proof (cases "?st < dtstart \<or> cot_key occ < cot_key cs \<or> cot_key ce < cot_key occ \<or> ?en \<le> from")
    case True
    then have "chunk_calls timet dtstart from cs ce rdates days seconds (occ # occs) = chunk_calls timet dtstart from cs ce rdates days seconds occs"
      by (auto simp: chunk_calls_def not_less [symmetric])
    then show ?thesis using Cons.IH [of s] True by (simp add: chunk_loop_step [OF assms] Let_def del: chunk_loop.simps)
  next
    case False
    then have c: "chunk_calls timet dtstart from cs ce rdates days seconds (occ # occs)
        = (?st, ?en) # chunk_calls timet dtstart from cs ce rdates days seconds occs"
      by (auto simp: chunk_calls_def not_less)
    obtain s' ok where s': "cb s ?st ?en = (s', ok)" by (cases "cb s ?st ?en")
    show ?thesis unfolding c using Cons.IH [of s'] False s'
      by (simp add: chunk_loop_step [OF assms] Let_def del: chunk_loop.simps)
  qed
qed

section \<open>Counting instances\<close>

lemma ensure_cb_step:
  "e_cal_recur_ensure_rule_end_date_cb \<lparr>ed_count = n, ed_instances = i, ed_end_date = d\<rparr> a b =
     (if i + 1 = n then (\<lparr>ed_count = n, ed_instances = i + 1, ed_end_date = a\<rparr>, False)
      else (\<lparr>ed_count = n, ed_instances = i + 1, ed_end_date = d\<rparr>, True))"
  by (simp add: e_cal_recur_ensure_rule_end_date_cb_def Let_def)

lemma count_calls:
  assumes "i < n"
  shows "ed_end_date (fst (run_calls e_cal_recur_ensure_rule_end_date_cb
      \<lparr>ed_count = n, ed_instances = i, ed_end_date = 0\<rparr> calls)) =
    (if n - i \<le> int (length calls) then fst (calls ! nat (n - i - 1)) else 0)"
  using assms
proof (induction calls arbitrary: i)
  case Nil
  then show ?case by simp
next
  case (Cons c calls)
  obtain a b where c: "c = (a, b)" by (cases c)
  show ?case
  proof (cases "i + 1 = n")
    case True
    then show ?thesis by (simp add: c ensure_cb_step)
  next
    case False
    with Cons.prems have "i + 1 < n" by simp
    from Cons.IH [OF this] have "ed_end_date (fst (run_calls e_cal_recur_ensure_rule_end_date_cb
        \<lparr>ed_count = n, ed_instances = i + 1, ed_end_date = 0\<rparr> calls)) =
      (if n - (i + 1) \<le> int (length calls) then fst (calls ! nat (n - (i + 1) - 1)) else 0)" .
    moreover have "nat (n - i - 1) = Suc (nat (n - (i + 1) - 1))" using \<open>i + 1 < n\<close> by simp
    ultimately show ?thesis using False by (auto simp: c ensure_cb_step)
  qed
qed

section \<open>Chunks\<close>

lemma year_loop_total:
  assumes "\<forall>y s. cot_year is \<le> y \<and> y \<le> max_year \<and> (\<forall>e \<in> set_option ie. y \<le> cot_year e) \<longrightarrow>
      chunk (fst (year_chunk is ie y)) (snd (year_chunk is ie y)) s \<noteq> None" "cot_year is \<le> year"
  shows "\<exists>s'. year_loop chunk is ie year s = Some s'"
  using assms
proof (induction chunk "is" ie year s rule: year_loop.induct)
  case (1 chunk "is" ie year s)
  show ?case
  proof (cases "(case ie of None \<Rightarrow> True | Some e \<Rightarrow> year \<le> cot_year e) \<and> year \<le> max_year")
    case True
    then have "chunk (fst (year_chunk is ie year)) (snd (year_chunk is ie year)) s \<noteq> None"
      using 1(2,3) by (auto split: option.splits)
    then obtain s' go where c: "chunk (fst (year_chunk is ie year)) (snd (year_chunk is ie year)) s = Some (s', go)"
      by auto
    show ?thesis
    proof (cases go)
      case go: True
      have "\<exists>s''. year_loop chunk is ie (year + 1) s' = Some s''"
        using 1(1) [OF True c refl go 1(2)] 1(3) by simp
      then show ?thesis using True c go by (subst year_loop.simps) simp
    next
      case False
      then show ?thesis using True c by (subst year_loop.simps) simp
    qed
  next
    case False
    then show ?thesis by (subst year_loop.simps) auto
  qed
qed

text \<open>The chunks of the years are within the bounds the expansion needs.\<close>

lemma year_chunk_bounds:
  assumes "valid_cot is" "\<forall>e \<in> set_option ie. valid_cot e" "cot_year is \<le> y" "y \<le> max_year" "\<forall>e \<in> set_option ie. y \<le> cot_year e"
  shows "valid_cot (fst (year_chunk is ie y))" "cot_year (fst (year_chunk is ie y)) = y"
    "valid_end (snd (year_chunk is ie y))" "cot_year (snd (year_chunk is ie y)) = y"
proof -
  have y: "1900 \<le> y" "y < 65536" using assms(1,3,4) by (auto simp: valid_cot_def valid_date_def max_year_def)
  have u: "u16 y = y" using y by simp
  have l: "valid_end \<lparr>cot_year = y, cot_month = 11, cot_day = 31, cot_hour = 23, cot_minute = 59, cot_second = 61, cot_flags = False\<rparr>"
    using y by (simp add: valid_end_def norm_end_def valid_cot_def valid_date_def valid_time_def time_days_in_month_cases)
  show "valid_cot (fst (year_chunk is ie y))"
    using assms(1) y by (auto simp: year_chunk_def Let_def u valid_cot_def valid_date_def valid_time_def time_days_in_month_cases)
  show "cot_year (fst (year_chunk is ie y)) = y" by (simp add: year_chunk_def Let_def u)
  show "valid_end (snd (year_chunk is ie y))" "cot_year (snd (year_chunk is ie y)) = y"
    using assms(2) l u by (auto simp: year_chunk_def Let_def intro: valid_cot_end split: option.splits)
qed

section \<open>The expansion of all the rules\<close>

definition rule_prop_ok :: "gdate_lib \<Rightarrow> 'z ical_lib \<Rightarrow> 'z \<Rightarrow> bool \<Rightarrow> icalproperty \<Rightarrow> bool" where
  "rule_prop_ok G L zone convert prop \<longleftrightarrow>
     (let recur = e_cal_recur_from_icalproperty L prop zone convert
      in recur_ok recur \<and> end_ok (rule_end (\<lambda>t. icaltime_from_timet_with_zone L t zone) recur)
         \<and> freq recur \<notin> {ICAL_MINUTELY_RECURRENCE, ICAL_SECONDLY_RECURRENCE})"

lemma goal_ok_simple:
  assumes "gdate_contract G" "recur_ok recur" "valid_cot es"
    "freq recur \<notin> {ICAL_MINUTELY_RECURRENCE, ICAL_SECONDLY_RECURRENCE}"
  shows "goal_ok (cal_obj_initialize_recur_data G recur es) es is"
proof (cases "freq recur = ICAL_WEEKLY_RECURRENCE")
  case True
  have wk: "0 \<le> week_start_day recur" "week_start_day recur < 7" using assms(2) by (auto simp: recur_ok_def)
  have "cal_obj_time_weekday_offset G es (week_start_day recur) = (cot_date es - 1 - week_start_day recur) mod 7"
    using gdate_contract.weekday_offset_value [OF assms(1) _ wk] assms(3) by (simp add: valid_cot_def)
  then show ?thesis
    using week_starts(2) [of "cot_date es" "cot_date is" "week_start_day recur"] True
    by (simp add: goal_ok_def Let_def)
next
  case False
  then show ?thesis using assms(3,4) by (cases "freq recur") (auto simp: goal_ok_def Let_def)
qed

lemma expand_rules_returns:
  assumes "gdate_contract G" "\<forall>prop \<in> set props. rule_prop_ok G L zone convert prop" "span_ok es cs" "valid_end ce" "cot_year ce \<le> 60000"
  shows "\<exists>occs fin. expand_rules G L zone es cs ce convert props = Some (occs, fin) \<and> (\<forall>t \<in> set occs. valid_cot t)"
  using assms(2)
proof (induction props)
  case (Cons p ps)
  let ?r = "e_cal_recur_from_icalproperty L p zone convert" and ?I = "\<lambda>t. icaltime_from_timet_with_zone L t zone"
  have r: "recur_ok ?r" "end_ok (rule_end ?I ?r)" "freq ?r \<notin> {ICAL_MINUTELY_RECURRENCE, ICAL_SECONDLY_RECURRENCE}"
    using Cons.prems by (auto simp: rule_prop_ok_def Let_def)
  note g = goal_ok_simple [OF assms(1) r(1) span_okD(3) [OF assms(3)] r(3), of cs]
  obtain occs fin where o: "cal_obj_expand_recurrence G ?I es ?r cs (Some ce) = Some (occs, fin)" "\<forall>t \<in> set occs. valid_cot t"
    using expand_total [OF assms(1) r(1) assms(3) r(2) assms(4,5) g] by blast
  obtain occs' fin' where "expand_rules G L zone es cs ce convert ps = Some (occs', fin')" "\<forall>t \<in> set occs'. valid_cot t"
    using Cons by auto
  then show ?case using o by auto
qed auto

lemma chunk_returns:
  assumes "gdate_contract G" "\<forall>p \<in> set (rp_rrules rp) \<union> set (rp_exrules rp). rule_prop_ok G L zone convert p"
    "span_ok es cs" "valid_end ce" "cot_year ce \<le> 60000"
  shows "generate_instances_for_chunk G L dtstart zone rp single es from cs ce days seconds convert cb s \<noteq> None"
proof -
  have r: "\<forall>p \<in> set (rp_rrules rp). rule_prop_ok G L zone convert p" "\<forall>p \<in> set (rp_exrules rp). rule_prop_ok G L zone convert p"
    using assms(2) by auto
  show ?thesis
    using expand_rules_returns [OF assms(1) r(1) assms(3-5)] expand_rules_returns [OF assms(1) r(2) assms(3-5)]
    by (auto simp: generate_instances_for_chunk_def chunk_occurrences_def Let_def case_prod_unfold)
qed

section \<open>Properties\<close>


definition sample_lib :: "unit ical_lib" where
  "sample_lib = \<lparr>icaltime_as_timet_with_zone = (\<lambda>tt z. cot_seconds (rdate_time tt) - 62168428800),
     icaltime_from_timet_with_zone = (\<lambda>t z. occ_icaltime (cal_obj_time_add_seconds
        \<lparr>cot_year = 1970, cot_month = 0, cot_day = 1, cot_hour = 0, cot_minute = 0, cot_second = 0, cot_flags = False\<rparr> t)),
     icaltime_is_null_time = (\<lambda>tt. tt_year tt = 0), icaltime_adjust_days = (\<lambda>tt n. occ_icaltime (cal_obj_time_add_days (rdate_time tt) n)),
     icaltime_compare_date_only = (\<lambda>a b. cal_obj_date_only_compare_func (rdate_time a) (rdate_time b)),
     icalrecurrencetype_day_day_of_week = (\<lambda>d. ICAL_MONDAY_WEEKDAY), icalrecurrencetype_day_position = (\<lambda>d. 0),
     icalvalue_new_from_string = (\<lambda>str. None), icalvalue_as_ical_string = (\<lambda>tt. []), utc_timezone = ()\<rparr>"

definition clock_lib :: "unit ical_lib" where
  "clock_lib = sample_lib\<lparr>icaltime_as_timet_with_zone := (\<lambda>tt z. \<bar>tt_year tt\<bar>),
     icalvalue_new_from_string := (\<lambda>str. Some (occ_icaltime sample_start))\<rparr>"




text \<open>
  C28. The chunks of the years partition the interval: a valid time is in the interval exactly if it
  is in the chunk of one and only one of its years, so that no instance is lost or generated twice.
\<close>

theorem chunks_partition_interval:
  assumes "valid_cot is" "valid_cot ie" "cot_year ie \<le> max_year" "valid_cot t"
  shows "cot_key is \<le> cot_key t \<and> cot_key t \<le> cot_key ie \<longleftrightarrow>
    (\<exists>!y. cot_year is \<le> y \<and> y \<le> cot_year ie \<and> cot_key (fst (year_chunk is (Some ie) y)) \<le> cot_key t
       \<and> cot_key t \<le> cot_key (snd (year_chunk is (Some ie) y)))"
proof -
  have in_year: "cot_key (fst (year_chunk is (Some ie) y)) \<le> cot_key t \<and> cot_key t \<le> cot_key (snd (year_chunk is (Some ie) y))
      \<longleftrightarrow> y = cot_year t \<and> (y = cot_year is \<longrightarrow> cot_key is \<le> cot_key t) \<and> (y = cot_year ie \<longrightarrow> cot_key t \<le> cot_key ie)"
    if "cot_year is \<le> y" "y \<le> cot_year ie" for y
  proof -
    have u: "u16 y = y" using that assms(1,3) by (auto simp: valid_cot_def valid_date_def max_year_def)
    have "cot_day t \<le> 31" using assms(4) time_days_in_month_le [of "cot_year t" "cot_month t"]
      by (auto simp: valid_cot_def valid_date_def)
    then show ?thesis using assms(4) u
      by (auto simp: year_chunk_def cot_key_def Let_def valid_cot_def valid_date_def valid_time_def)
  qed
  have key: "cot_key a \<le> cot_key b \<Longrightarrow> cot_year a \<le> cot_year b" "cot_year a < cot_year b \<Longrightarrow> cot_key a \<le> cot_key b" for a b
    by (auto simp: cot_key_def)
  show ?thesis
  proof
    assume a: "cot_key is \<le> cot_key t \<and> cot_key t \<le> cot_key ie"
    then have y: "cot_year is \<le> cot_year t" "cot_year t \<le> cot_year ie" using key(1) by auto
    show "\<exists>!y. cot_year is \<le> y \<and> y \<le> cot_year ie \<and> cot_key (fst (year_chunk is (Some ie) y)) \<le> cot_key t
       \<and> cot_key t \<le> cot_key (snd (year_chunk is (Some ie) y))"
      using in_year [OF y] in_year y a by (intro ex1I [of _ "cot_year t"]) auto
  next
    assume "\<exists>!y. cot_year is \<le> y \<and> y \<le> cot_year ie \<and> cot_key (fst (year_chunk is (Some ie) y)) \<le> cot_key t
       \<and> cot_key t \<le> cot_key (snd (year_chunk is (Some ie) y))"
    then obtain y where "cot_year is \<le> y" "y \<le> cot_year ie" "y = cot_year t"
        "y = cot_year is \<longrightarrow> cot_key is \<le> cot_key t" "y = cot_year ie \<longrightarrow> cot_key t \<le> cot_key ie"
      using in_year by blast
    then show "cot_key is \<le> cot_key t \<and> cot_key t \<le> cot_key ie"
      using key(2) [of "is" t] key(2) [of t ie] by (cases "cot_year is = cot_year t"; cases "cot_year t = cot_year ie") auto
  qed
qed

theorem chunks_partition_interval_witness:
  "\<exists>!y. 2004 \<le> y \<and> y \<le> 2005 \<and> cot_key (fst (year_chunk sample_start (Some sample_from) y)) \<le> cot_key sample_from
     \<and> cot_key sample_from \<le> cot_key (snd (year_chunk sample_start (Some sample_from) y))"
proof -
  have "valid_cot sample_start" "valid_cot sample_from" "cot_year sample_from \<le> max_year" "cot_year sample_start = 2004"
      "cot_year sample_from = 2005" "cot_key sample_start \<le> cot_key sample_from"
    by (simp_all add: valid_cot_def valid_date_def valid_time_def sample_start_def sample_from_def max_year_def
        time_days_in_month_cases cot_key_def)
  with chunks_partition_interval [of sample_start sample_from sample_from] show ?thesis by simp
qed

text \<open>
  C29. The end of an RDATE period is never used: when the occurrence is in the sorted array of
  periods, as it always is, the lookup reports that it was not found and leaves the occurrence as it
  is, so that the duration of the event is used. The test after the search is inverted.
\<close>

theorem rdate_end_never_used:
  assumes "sorted (map (cot_key \<circ> rdate_start) rdates)" "r \<in> set rdates" "cot_key (rdate_start r) = cot_key occ"
  shows "cal_object_get_rdate_end occ rdates = (False, occ)"
proof -
  obtain i where "i < length rdates" "rdates ! i = r" using assms(2) by (auto simp: in_set_conv_nth)
  then have "snd (rdate_search rdates occ 0 (length rdates) None 0) = 0"
    using assms(3) by (intro rdate_search_found [OF assms(1)]) auto
  then show ?thesis by (simp add: cal_object_get_rdate_end_def case_prod_unfold)
qed

definition sample_rdate :: cal_obj_recurrence_date where
  "sample_rdate = \<lparr>rdate_start = sample_start, rdate_period = \<lparr>p_start = occ_icaltime sample_start,
     p_end = PERIOD_DURATION \<lparr>dur_weeks = 0, dur_days = 2, dur_hours = 0, dur_minutes = 0, dur_seconds = 0\<rparr>\<rparr>\<rparr>"

theorem rdate_end_never_used_witness:
  "cal_object_get_rdate_end sample_start [sample_rdate] = (False, sample_start)"
  using rdate_end_never_used [of "[sample_rdate]" sample_rdate sample_start] by (simp add: sample_rdate_def)

text \<open>
  C30. Counting gives the end date of a rule with COUNT n: after the instances have been passed to
  the counting callback, the end date is the start of the n-th instance, and 0 if there are fewer.
\<close>

theorem count_end_date:
  assumes "0 < n"
  shows "ed_end_date (fst (run_calls e_cal_recur_ensure_rule_end_date_cb
      \<lparr>ed_count = n, ed_instances = 0, ed_end_date = 0\<rparr> calls)) =
    (if n \<le> int (length calls) then fst (calls ! nat (n - 1)) else 0)"
  using count_calls [OF assms, of calls] by simp

theorem count_end_date_witness:
  "ed_end_date (fst (run_calls e_cal_recur_ensure_rule_end_date_cb
      \<lparr>ed_count = 2, ed_instances = 0, ed_end_date = 0\<rparr> [(10, 20), (30, 40), (50, 60)])) = 30"
  using count_end_date [of 2 "[(10, 20), (30, 40), (50, 60)]"] by simp

lemma find_replace_end_date:
  assumes "icalvalue_new_from_string L str = Some tt"
  shows "find_end_date L (replace_end_date ps str) z = icaltime_as_timet_with_zone L tt z"
    and "filter (\<lambda>(x, v). x \<noteq> Some evolution_end_date_parameter) (replace_end_date ps str)
      = filter (\<lambda>(x, v). x \<noteq> Some evolution_end_date_parameter) ps"
  using assms by (induction ps) auto

text \<open>
  The end date that is stored in the X-EVOLUTION-ENDDATE parameter is read back: if libical
  parses what it prints for the UTC time and converts it back to the same \<^verbatim>\<open>time_t\<close>, reading after
  writing gives the date, whether or not the property had the parameter; the rule and the other
  parameters are kept.
\<close>

theorem end_date_round_trip:
  assumes "icaltime_from_timet_with_zone L t (utc_timezone L) = tt"
    "icalvalue_new_from_string L (icalvalue_as_ical_string L tt) = Some tt"
    "icaltime_as_timet_with_zone L tt (utc_timezone L) = t"
  shows "e_cal_recur_get_rule_end_date L (e_cal_recur_set_rule_end_date L prop t) None = t
    \<and> prop_rule (e_cal_recur_set_rule_end_date L prop t) = prop_rule prop
    \<and> filter (\<lambda>(x, v). x \<noteq> Some evolution_end_date_parameter) (prop_xparams (e_cal_recur_set_rule_end_date L prop t))
      = filter (\<lambda>(x, v). x \<noteq> Some evolution_end_date_parameter) (prop_xparams prop)"
  using find_replace_end_date [OF assms(2)] assms
  by (simp add: e_cal_recur_get_rule_end_date_def e_cal_recur_set_rule_end_date_def Let_def)

theorem end_date_round_trip_witness:
  "let L = sample_lib\<lparr>icaltime_as_timet_with_zone := (\<lambda>tt z. tt_second tt), icaltime_from_timet_with_zone := (\<lambda>t z. occ_icaltime (sample_start\<lparr>cot_second := t\<rparr>)),
       icalvalue_new_from_string := (\<lambda>str. Some (occ_icaltime (sample_start\<lparr>cot_second := int (length str)\<rparr>))),
       icalvalue_as_ical_string := (\<lambda>tt. replicate (nat (tt_second tt)) CHR ''1'')\<rparr>
   in e_cal_recur_get_rule_end_date L (e_cal_recur_set_rule_end_date L
        \<lparr>prop_rule = undefined, prop_xparams = [(None, ''x''), (Some ''X-EVOLUTION-ENDDATE'', ''old'')]\<rparr> 5) None = 5"
proof -
  let ?L = "sample_lib\<lparr>icaltime_as_timet_with_zone := (\<lambda>tt z. tt_second tt), icaltime_from_timet_with_zone := (\<lambda>t z. occ_icaltime (sample_start\<lparr>cot_second := t\<rparr>)),
       icalvalue_new_from_string := (\<lambda>str. Some (occ_icaltime (sample_start\<lparr>cot_second := int (length str)\<rparr>))),
       icalvalue_as_ical_string := (\<lambda>tt. replicate (nat (tt_second tt)) CHR ''1'')\<rparr>"
  show ?thesis unfolding Let_def
    by (rule conjunct1 [OF end_date_round_trip [of ?L 5 "occ_icaltime (sample_start\<lparr>cot_second := 5\<rparr>)"]])
      (simp_all add: occ_icaltime_def)
qed

end
