(* ===== verification/Camel_Bytes.thy ===== *)
theory Camel_Bytes
  imports Main "HOL-Library.Word"
begin

text \<open>
  Shared vocabulary of the Camel components, which work on octets. An \<^verbatim>\<open>unsigned char\<close> is an
  \<^typ>\<open>8 word\<close>, a \<^verbatim>\<open>guint32\<close> a \<^typ>\<open>32 word\<close>; shifts and masks are the bit operations of words, so
  that a shift drops what leaves the width. A buffer from a pointer on is a list of octets: reading
  \<^verbatim>\<open>*p++\<close> takes the first element, and reading from the empty list is a read outside the buffer, which
  the definitions report as \<^const>\<open>None\<close>. A C string is the list of its octets without the NUL; the
  definitions append the NUL where the code reads it.
\<close>

unbundle bit_operations_syntax

type_synonym byte = "8 word"
type_synonym guint32 = "32 word"

named_theorems mask_numerals \<open>the bit masks of the code as masks of a length\<close>

lemma word_mask_numerals [mask_numerals]:
  "(0x3 :: 'a::len word) = mask 2" "(0xf :: 'a::len word) = mask 4" "(0x3f :: 'a::len word) = mask 6"
  "(0x7f :: 'a::len word) = mask 7" "(0xff :: 'a::len word) = mask 8" "(0xffff :: 'a::len word) = mask 16"
  by (simp_all add: mask_eq_exp_minus_1)

text \<open>A word is below a power of two exactly if its upper bits are clear.\<close>

lemma word_less_bits:
  assumes "(w :: 'a::len word) < 2 ^ k" "k \<le> n"
  shows "\<not> bit w n"
proof -
  have "w AND mask k = w" using assms(1) by (rule less_mask_eq)
  then have "bit w n = (bit w n \<and> n < k)" by (metis bit_and_iff bit_mask_iff)
  then show ?thesis using assms(2) by simp
qed

lemma word_bit_less: "(w :: 'a::len word) < 2 ^ k \<Longrightarrow> bit w n \<Longrightarrow> n < k"
  using word_less_bits [of w k n] by (meson not_less)

text \<open>The bits of the other constants of the code, as a shifted mask.\<close>

lemma bit_shifted_mask: "bit (push_bit k (mask l) :: int) n \<longleftrightarrow> k \<le> n \<and> n < k + l"
  by (auto simp: bit_simps)

lemma int_bit_numerals [simp]:
  "bit (0x80 :: int) n \<longleftrightarrow> n = 7"
  "bit (0xc0 :: int) n \<longleftrightarrow> n = 6 \<or> n = 7"
  "bit (0xe0 :: int) n \<longleftrightarrow> 5 \<le> n \<and> n < 8"
  "bit (0xf0 :: int) n \<longleftrightarrow> 4 \<le> n \<and> n < 8"
  "bit (0x7f80 :: int) n \<longleftrightarrow> 7 \<le> n \<and> n < 15"
  "bit (0xff000 :: int) n \<longleftrightarrow> 12 \<le> n \<and> n < 20"
  "bit (0x1fe0000 :: int) n \<longleftrightarrow> 17 \<le> n \<and> n < 25"
  "bit (0x3fc00000 :: int) n \<longleftrightarrow> 22 \<le> n \<and> n < 30"
proof -
  show "bit (0x80 :: int) n \<longleftrightarrow> n = 7" using bit_shifted_mask [of 7 1 n] by (simp add: mask_eq_exp_minus_1 push_bit_eq_mult) arith
  show "bit (0xc0 :: int) n \<longleftrightarrow> n = 6 \<or> n = 7" using bit_shifted_mask [of 6 2 n] by (simp add: mask_eq_exp_minus_1 push_bit_eq_mult) arith
  show "bit (0xe0 :: int) n \<longleftrightarrow> 5 \<le> n \<and> n < 8" using bit_shifted_mask [of 5 3 n] by (simp add: mask_eq_exp_minus_1 push_bit_eq_mult)
  show "bit (0xf0 :: int) n \<longleftrightarrow> 4 \<le> n \<and> n < 8" using bit_shifted_mask [of 4 4 n] by (simp add: mask_eq_exp_minus_1 push_bit_eq_mult)
  show "bit (0x7f80 :: int) n \<longleftrightarrow> 7 \<le> n \<and> n < 15" using bit_shifted_mask [of 7 8 n] by (simp add: mask_eq_exp_minus_1 push_bit_eq_mult)
  show "bit (0xff000 :: int) n \<longleftrightarrow> 12 \<le> n \<and> n < 20" using bit_shifted_mask [of 12 8 n] by (simp add: mask_eq_exp_minus_1 push_bit_eq_mult)
  show "bit (0x1fe0000 :: int) n \<longleftrightarrow> 17 \<le> n \<and> n < 25" using bit_shifted_mask [of 17 8 n] by (simp add: mask_eq_exp_minus_1 push_bit_eq_mult)
  show "bit (0x3fc00000 :: int) n \<longleftrightarrow> 22 \<le> n \<and> n < 30" using bit_shifted_mask [of 22 8 n] by (simp add: mask_eq_exp_minus_1 push_bit_eq_mult)
qed

text \<open>A property of all octets is decided by going through the 256 of them.\<close>

lemma all_bytes: "(\<forall>b::byte. P b) \<longleftrightarrow> list_all (\<lambda>n. P (word_of_nat n)) [0..<256]"
proof
  assume l: "list_all (\<lambda>n. P (word_of_nat n)) [0..<256]"
  show "\<forall>b. P b"
  proof
    fix b :: byte
    have "unat b < 256" using unsigned_less [of b] by simp
    then have "P (word_of_nat (unat b))" using l unfolding list_all_iff by (metis atLeastLessThan_iff set_upt zero_le)
    then show "P b" by simp
  qed
qed (simp add: list_all_iff)

text \<open>The octets of a character string literal.\<close>

definition octets :: "string \<Rightarrow> byte list" where
  "octets s = map (\<lambda>ch. of_nat (of_char ch)) s"

end
