(* ===== verification/Camel_Utf8.thy ===== *)
theory Camel_Utf8
  imports Camel_Bytes
begin

text \<open>
  The character codecs of \<^verbatim>\<open>camel/camel-utf8.c\<close>: UTF-8 output and input of one character, the
  modified UTF-7 of IMAP mailbox names (RFC 2060) and UCS-2. The properties are the round trips, the
  agreement of the bounded reader with the unbounded one, and that a reader of a NUL-terminated
  string never reads behind the NUL.
\<close>

section \<open>One character\<close>

definition camel_utf8_putc :: "guint32 \<Rightarrow> byte list" where
  "camel_utf8_putc c =
     (if c \<le> 0x7f then [ucast c]
      else if c \<le> 0x7ff then [ucast (0xc0 OR drop_bit 6 c), ucast (0x80 OR (c AND 0x3f))]
      else if c \<le> 0xffff then
        [ucast (0xe0 OR drop_bit 12 c), ucast (0x80 OR (drop_bit 6 c AND 0x3f)), ucast (0x80 OR (c AND 0x3f))]
      else
        [ucast (0xf0 OR drop_bit 18 c), ucast (0x80 OR (drop_bit 12 c AND 0x3f)),
         ucast (0x80 OR (drop_bit 6 c AND 0x3f)), ucast (0x80 OR (c AND 0x3f))])"

text \<open>
  \<^verbatim>\<open>getc_start r p\<close> is the label \<^verbatim>\<open>loop\<close> with the first octet in \<^verbatim>\<open>r\<close>; \<^verbatim>\<open>getc_cont\<close> is the
  \<^verbatim>\<open>do\<close> loop over the continuation octets.
\<close>

function (sequential) getc_start :: "byte \<Rightarrow> byte list \<Rightarrow> (guint32 \<times> byte list) option"
    and getc_cont :: "guint32 \<Rightarrow> guint32 \<Rightarrow> byte \<Rightarrow> byte list \<Rightarrow> (guint32 \<times> byte list) option" where
  "getc_start r p =
     (if r < 0x80 then Some (ucast r, p)
      else if r < 0xf8 then getc_cont (ucast r) 0x7f80 r p
      else (case p of [] \<Rightarrow> None | r' # p' \<Rightarrow> getc_start r' p'))"
| "getc_cont v m r [] = None"
| "getc_cont v m r (c # p) =
     (if c AND 0xc0 \<noteq> 0x80 then getc_start c p
      else (let v = push_bit 6 v OR ucast (c AND 0x3f); r = push_bit 1 r; m = push_bit 5 m
            in if r AND 0x40 \<noteq> 0 then getc_cont v m r p else Some (v AND NOT m, p)))"
  by pat_completeness auto
termination
  by (relation "measures [\<lambda>x. (case x of Inl (r, p) \<Rightarrow> length p | Inr (v, m, r, p) \<Rightarrow> length p),
                          \<lambda>x. (case x of Inl _ \<Rightarrow> 1 | Inr _ \<Rightarrow> 0)]") auto

declare getc_start.simps [simp del]

definition camel_utf8_getc :: "byte list \<Rightarrow> (guint32 \<times> byte list) option" where
  "camel_utf8_getc p = (case p of [] \<Rightarrow> None | r # p \<Rightarrow> getc_start r p)"

text \<open>
  The bounded reader. The list holds the octets up to \<^verbatim>\<open>end\<close>; \<^verbatim>\<open>None\<close> is the exit with the
  sentinel, which leaves the pointer where it was.
\<close>

function (sequential) getc_limit_start :: "byte \<Rightarrow> byte list \<Rightarrow> (guint32 \<times> byte list) option"
    and getc_limit_cont :: "guint32 \<Rightarrow> guint32 \<Rightarrow> byte \<Rightarrow> byte list \<Rightarrow> (guint32 \<times> byte list) option" where
  "getc_limit_start r p =
     (if r < 0x80 then Some (ucast r, p)
      else if r < 0xf8 then getc_limit_cont (ucast r) 0x7f80 r p
      else (if p \<noteq> [] then getc_limit_start (hd p) (tl p) else None))"
| "getc_limit_cont v m r p =
     (if p = [] then None
      else (let c = hd p; p = tl p
            in if c AND 0xc0 \<noteq> 0x80 then getc_limit_start c p
               else (let v = push_bit 6 v OR ucast (c AND 0x3f); r = push_bit 1 r; m = push_bit 5 m
                     in if r AND 0x40 \<noteq> 0 then getc_limit_cont v m r p else Some (v AND NOT m, p))))"
  by pat_completeness auto
termination
  by (relation "measures [\<lambda>x. (case x of Inl (r, p) \<Rightarrow> length p | Inr (v, m, r, p) \<Rightarrow> length p),
                          \<lambda>x. (case x of Inl _ \<Rightarrow> 1 | Inr _ \<Rightarrow> 0)]") auto

declare getc_limit_start.simps [simp del] getc_limit_cont.simps [simp del]

definition camel_utf8_getc_limit :: "byte list \<Rightarrow> guint32 \<times> byte list" where
  "camel_utf8_getc_limit p =
     (case (if p \<noteq> [] then getc_limit_start (hd p) (tl p) else None) of
        None \<Rightarrow> (0xffff, p) | Some (v, p') \<Rightarrow> (v, p'))"

section \<open>Modified UTF-7\<close>

text \<open>\<^verbatim>\<open>g_string_append\<close> copies up to the first NUL of the buffer.\<close>

definition g_string_append_u :: "byte list \<Rightarrow> guint32 \<Rightarrow> byte list" where
  "g_string_append_u out c = out @ takeWhile (\<lambda>b. b \<noteq> 0) (camel_utf8_putc c @ [0])"

definition utf7_alphabet :: "byte list" where
  "utf7_alphabet = octets ''ABCDEFGHIJKLMNOPQRSTUVWXYZabcdefghijklmnopqrstuvwxyz0123456789+,''"

definition utf7_rank :: "byte list" where
  "utf7_rank =
    [0xff, 0xff, 0xff, 0xff, 0xff, 0xff, 0xff, 0xff, 0xff, 0xff, 0xff, 0xff, 0xff, 0xff, 0xff, 0xff,
     0xff, 0xff, 0xff, 0xff, 0xff, 0xff, 0xff, 0xff, 0xff, 0xff, 0xff, 0xff, 0xff, 0xff, 0xff, 0xff,
     0xff, 0xff, 0xff, 0xff, 0xff, 0xff, 0xff, 0xff, 0xff, 0xff, 0xff, 0x3e, 0x3f, 0xff, 0xff, 0xff,
     0x34, 0x35, 0x36, 0x37, 0x38, 0x39, 0x3a, 0x3b, 0x3c, 0x3d, 0xff, 0xff, 0xff, 0xff, 0xff, 0xff,
     0xff, 0x00, 0x01, 0x02, 0x03, 0x04, 0x05, 0x06, 0x07, 0x08, 0x09, 0x0a, 0x0b, 0x0c, 0x0d, 0x0e,
     0x0f, 0x10, 0x11, 0x12, 0x13, 0x14, 0x15, 0x16, 0x17, 0x18, 0x19, 0xff, 0xff, 0xff, 0xff, 0xff,
     0xff, 0x1a, 0x1b, 0x1c, 0x1d, 0x1e, 0x1f, 0x20, 0x21, 0x22, 0x23, 0x24, 0x25, 0x26, 0x27, 0x28,
     0x29, 0x2a, 0x2b, 0x2c, 0x2d, 0x2e, 0x2f, 0x30, 0x31, 0x32, 0x33, 0xff, 0xff, 0xff, 0xff, 0xff,
     0xff, 0xff, 0xff, 0xff, 0xff, 0xff, 0xff, 0xff, 0xff, 0xff, 0xff, 0xff, 0xff, 0xff, 0xff, 0xff,
     0xff, 0xff, 0xff, 0xff, 0xff, 0xff, 0xff, 0xff, 0xff, 0xff, 0xff, 0xff, 0xff, 0xff, 0xff, 0xff,
     0xff, 0xff, 0xff, 0xff, 0xff, 0xff, 0xff, 0xff, 0xff, 0xff, 0xff, 0xff, 0xff, 0xff, 0xff, 0xff,
     0xff, 0xff, 0xff, 0xff, 0xff, 0xff, 0xff, 0xff, 0xff, 0xff, 0xff, 0xff, 0xff, 0xff, 0xff, 0xff,
     0xff, 0xff, 0xff, 0xff, 0xff, 0xff, 0xff, 0xff, 0xff, 0xff, 0xff, 0xff, 0xff, 0xff, 0xff, 0xff,
     0xff, 0xff, 0xff, 0xff, 0xff, 0xff, 0xff, 0xff, 0xff, 0xff, 0xff, 0xff, 0xff, 0xff, 0xff, 0xff,
     0xff, 0xff, 0xff, 0xff, 0xff, 0xff, 0xff, 0xff, 0xff, 0xff, 0xff, 0xff, 0xff, 0xff, 0xff, 0xff,
     0xff, 0xff, 0xff, 0xff, 0xff, 0xff, 0xff, 0xff, 0xff, 0xff, 0xff, 0xff, 0xff, 0xff, 0xff, 0xff]"

definition ch_amp :: byte where
  "ch_amp = 0x26"

definition ch_minus :: byte where
  "ch_minus = 0x2d"

fun utf7_utf8_loop :: "nat \<Rightarrow> guint32 \<Rightarrow> nat \<Rightarrow> byte list \<Rightarrow> byte list \<Rightarrow> byte list option" where
  "utf7_utf8_loop state v i out [] = None"
| "utf7_utf8_loop state v i out (c # p) =
     (let (state, v, i, out) =
        (if state = 0 then
           (if c = ch_amp then (1, v, i, out) else (state, v, i, g_string_append_u out (ucast c)))
         else if state = 1 then
           (if c = ch_minus then (0, v, i, out @ [ch_amp])
            else if utf7_rank ! unat c \<noteq> 0xff then (2, ucast (utf7_rank ! unat c), 6, out)
            else (0, v, i, out @ [ch_amp, ch_minus]))
         else
           (if c = ch_minus then (0, v, i, out)
            else if utf7_rank ! unat c \<noteq> 0xff then
              (let v = push_bit 6 v OR ucast (utf7_rank ! unat c); i = i + 6
               in if i \<ge> 16 then (state, v, i - 16, g_string_append_u out (drop_bit (i - 16) v AND 0xffff))
                  else (state, v, i, out))
            else (0, v, i, g_string_append_u out (ucast c))))
      in if c = 0 then Some out else utf7_utf8_loop state v i out p)"

definition camel_utf7_utf8 :: "byte list \<Rightarrow> byte list option" where
  "camel_utf7_utf8 ptr = utf7_utf8_loop 0 0 0 [] (ptr @ [0])"

definition utf7_closeb64 :: "byte list \<Rightarrow> guint32 \<Rightarrow> nat \<Rightarrow> byte list" where
  "utf7_closeb64 out v i =
     (if i > 0 then out @ [utf7_alphabet ! unat (push_bit (6 - i) v AND 0x3f)] else out) @ [ch_minus]"

fun utf7_groups :: "guint32 \<Rightarrow> nat \<Rightarrow> byte list \<Rightarrow> nat \<times> byte list" where
  "utf7_groups v i out =
     (if i \<ge> 6 then utf7_groups v (i - 6) (out @ [utf7_alphabet ! unat (drop_bit (i - 6) v AND 0x3f)])
      else (i, out))"

declare utf7_groups.simps [simp del]

lemma getc_start_cases:
  "r < 0x80 \<Longrightarrow> getc_start r p = Some (ucast r, p)"
  "\<not> r < 0x80 \<Longrightarrow> r < 0xf8 \<Longrightarrow> getc_start r p = getc_cont (ucast r) 0x7f80 r p"
  "\<not> r < 0x80 \<Longrightarrow> \<not> r < 0xf8 \<Longrightarrow> getc_start r [] = None"
  "\<not> r < 0x80 \<Longrightarrow> \<not> r < 0xf8 \<Longrightarrow> getc_start r (r' # q) = getc_start r' q"
  by (simp_all add: getc_start.simps [of r])

lemma getc_length:
  "getc_start r p = Some (c, p') \<Longrightarrow> length p' \<le> length p"
  "getc_cont v m r p = Some (c, p') \<Longrightarrow> length p' < length p"
proof (induction r p and v m r p rule: getc_start_getc_cont.induct)
  case (1 r p)
  then show ?case
    by (cases "r < 0x80"; cases "r < 0xf8"; cases p) (simp_all add: getc_start_cases)
next
  case (3 v m r c p)
  then show ?case by (force simp: Let_def less_Suc_eq split: if_splits)
qed simp

lemma camel_utf8_getc_length: "camel_utf8_getc p = Some (c, p') \<Longrightarrow> length p' < length p"
  using getc_length(1) by (fastforce simp: camel_utf8_getc_def split: list.splits)

function utf8_utf7_loop :: "nat \<Rightarrow> guint32 \<Rightarrow> nat \<Rightarrow> byte list \<Rightarrow> byte list \<Rightarrow> byte list option" where
  "utf8_utf7_loop state v i out p =
     (case camel_utf8_getc p of
        None \<Rightarrow> None
      | Some (c, p') \<Rightarrow>
          (if c = 0 then Some (if state = 1 then utf7_closeb64 out v i else out)
           else if c \<ge> 0x20 \<and> c \<le> 0x7e then
             (let (state', i', out') = (if state = 1 then (0, 0, utf7_closeb64 out v i) else (state, i, out))
              in utf8_utf7_loop state' v i'
                   (if c = ucast ch_amp then out' @ [ch_amp, ch_minus] else out' @ [ucast c]) p')
           else
             (let out' = (if state = 0 then out @ [ch_amp] else out);
                  v' = push_bit 16 v OR c;
                  (i', out'') = utf7_groups v' (i + 16) out'
              in utf8_utf7_loop 1 v' i' out'' p')))"
  by pat_completeness auto
termination
  by (relation "measure (\<lambda>(state, v, i, out, p). length p)") (auto dest: camel_utf8_getc_length)

declare utf8_utf7_loop.simps [simp del]

definition camel_utf8_utf7 :: "byte list \<Rightarrow> byte list option" where
  "camel_utf8_utf7 ptr = utf8_utf7_loop 0 0 0 [] (ptr @ [0])"

section \<open>UCS-2\<close>

text \<open>\<^verbatim>\<open>g_htons\<close> stores a 16-bit value with the high octet first; the conversion drops the upper half.\<close>

function utf8_ucs2_loop :: "byte list \<Rightarrow> byte list \<Rightarrow> byte list option" where
  "utf8_ucs2_loop work p =
     (case camel_utf8_getc p of
        None \<Rightarrow> None
      | Some (c, p') \<Rightarrow>
          (if c = 0 then Some (work @ [0, 0])
           else utf8_ucs2_loop (work @ [ucast (drop_bit 8 c), ucast c]) p'))"
  by pat_completeness auto
termination
  by (relation "measure (\<lambda>(work, p). length p)") (auto dest: camel_utf8_getc_length)

declare utf8_ucs2_loop.simps [simp del]

definition camel_utf8_ucs2 :: "byte list \<Rightarrow> byte list option" where
  "camel_utf8_ucs2 ptr = utf8_ucs2_loop [] (ptr @ [0])"

fun ucs2_utf8_loop :: "byte list \<Rightarrow> byte list \<Rightarrow> byte list option" where
  "ucs2_utf8_loop work (b0 # b1 # ucs) =
     (let c = push_bit 8 (ucast b0) OR ucast b1 :: guint32
      in if c = 0 then Some work else ucs2_utf8_loop (g_string_append_u work c) ucs)"
| "ucs2_utf8_loop work _ = None"

definition camel_ucs2_utf8 :: "byte list \<Rightarrow> byte list option" where
  "camel_ucs2_utf8 ptr = ucs2_utf8_loop [] ptr"

section \<open>Laws of the character codec\<close>

lemma byte_lead_bits:
  "\<forall>r::byte. (r < 0x80 \<longleftrightarrow> \<not> bit r 7) \<and> (r < 0xf8 \<longleftrightarrow> \<not> (bit r 3 \<and> bit r 4 \<and> bit r 5 \<and> bit r 6 \<and> bit r 7))
     \<and> (push_bit 1 r AND 0x40 \<noteq> 0 \<longleftrightarrow> bit r 5)"
  unfolding all_bytes by code_simp

lemma lead_less [simp]:
  "(r::byte) < 0x80 \<longleftrightarrow> \<not> bit r 7"
  "(r::byte) < 0xf8 \<longleftrightarrow> \<not> (bit r 3 \<and> bit r 4 \<and> bit r 5 \<and> bit r 6 \<and> bit r 7)"
  using byte_lead_bits by blast+

lemma getc_cont_step:
  assumes "b AND 0xc0 = 0x80"
  shows "bit r 5 \<Longrightarrow> getc_cont v m r (b # p) = getc_cont (push_bit 6 v OR ucast (b AND 0x3f)) (push_bit 5 m) (push_bit 1 r) p"
    and "\<not> bit r 5 \<Longrightarrow> getc_cont v m r (b # p) = Some ((push_bit 6 v OR ucast (b AND 0x3f)) AND NOT (push_bit 5 m), p)"
  using assms byte_lead_bits by (simp_all only: getc_cont.simps Let_def if_True if_False not_False_eq_True not_True_eq_False simp_thms)

definition cont_byte :: "guint32 \<Rightarrow> byte" where
  "cont_byte x = ucast (0x80 OR (x AND 0x3f))"

lemma cont_byte_props: "cont_byte x AND 0xc0 = 0x80" "ucast (cont_byte x AND 0x3f) = (x AND 0x3f :: guint32)"
  by (rule bit_eqI; auto simp: cont_byte_def bit_simps mask_numerals)+

lemma putc_bytes:
  "\<not> c \<le> 0x7f \<Longrightarrow> c \<le> 0x7ff \<Longrightarrow> camel_utf8_putc c = [ucast (0xc0 OR drop_bit 6 c), cont_byte c]"
  "\<not> c \<le> 0x7ff \<Longrightarrow> c \<le> 0xffff \<Longrightarrow> camel_utf8_putc c = [ucast (0xe0 OR drop_bit 12 c), cont_byte (drop_bit 6 c), cont_byte c]"
  "\<not> c \<le> 0xffff \<Longrightarrow> camel_utf8_putc c =
     [ucast (0xf0 OR drop_bit 18 c), cont_byte (drop_bit 12 c), cont_byte (drop_bit 6 c), cont_byte c]"
  by (auto simp: camel_utf8_putc_def cont_byte_def word_le_nat_alt)

lemma getc_two:
  fixes c :: guint32
  assumes "c < 2 ^ 11"
  shows "getc_start (ucast (0xc0 OR drop_bit 6 c)) (cont_byte c # rest) = Some (c, rest)"
proof -
  let ?r = "ucast (0xc0 OR drop_bit 6 c) :: byte"
  note h = word_less_bits [OF assms] and d = word_bit_less [OF assms]
  have r: "bit ?r 7" "\<not> bit ?r 5" by (auto simp: bit_simps h)
  have l: "\<not> ?r < 0x80" "?r < 0xf8" using r by simp_all
  have "getc_start ?r (cont_byte c # rest)
      = Some ((push_bit 6 (ucast ?r) OR (c AND 0x3f)) AND NOT (push_bit 5 0x7f80), rest)"
    unfolding getc_start_cases(2) [OF l] getc_cont_step(2) [OF cont_byte_props(1) r(2)] cont_byte_props(2) ..
  also have "(push_bit 6 (ucast ?r) OR (c AND 0x3f)) AND NOT (push_bit 5 0x7f80) = c"
    by (rule bit_eqI) (auto simp: bit_simps mask_numerals h dest: d)
  finally show ?thesis .
qed

lemma getc_three:
  fixes c :: guint32
  assumes "c < 2 ^ 16"
  shows "getc_start (ucast (0xe0 OR drop_bit 12 c)) (cont_byte (drop_bit 6 c) # cont_byte c # rest) = Some (c, rest)"
proof -
  let ?r = "ucast (0xe0 OR drop_bit 12 c) :: byte"
  note h = word_less_bits [OF assms] and d = word_bit_less [OF assms]
  have r: "bit ?r 7" "bit ?r 5" "\<not> bit ?r 4" "\<not> bit (push_bit 1 ?r) 5"
    unfolding bit_push_bit_iff by (auto simp: bit_simps h)
  have l: "\<not> ?r < 0x80" "?r < 0xf8" using r by simp_all
  have "getc_start ?r (cont_byte (drop_bit 6 c) # cont_byte c # rest)
      = Some ((push_bit 6 (push_bit 6 (ucast ?r) OR (drop_bit 6 c AND 0x3f)) OR (c AND 0x3f))
          AND NOT (push_bit 5 (push_bit 5 0x7f80)), rest)"
    unfolding getc_start_cases(2) [OF l] getc_cont_step(1) [OF cont_byte_props(1) r(2)]
      getc_cont_step(2) [OF cont_byte_props(1) r(4)] cont_byte_props(2) ..
  also have "(push_bit 6 (push_bit 6 (ucast ?r) OR (drop_bit 6 c AND 0x3f)) OR (c AND 0x3f))
      AND NOT (push_bit 5 (push_bit 5 0x7f80)) = c"
    by (rule bit_eqI) (auto simp: bit_simps mask_numerals h dest: d)
  finally show ?thesis .
qed

lemma getc_four:
  fixes c :: guint32
  assumes "c < 2 ^ 21"
  shows "getc_start (ucast (0xf0 OR drop_bit 18 c))
      (cont_byte (drop_bit 12 c) # cont_byte (drop_bit 6 c) # cont_byte c # rest) = Some (c, rest)"
proof -
  let ?r = "ucast (0xf0 OR drop_bit 18 c) :: byte"
  note h = word_less_bits [OF assms] and d = word_bit_less [OF assms]
  have r: "bit ?r 7" "bit ?r 5" "\<not> bit ?r 3" "bit (push_bit 1 ?r) 5" "\<not> bit (push_bit 1 (push_bit 1 ?r)) 5"
    unfolding bit_push_bit_iff by (auto simp: bit_simps h)
  have l: "\<not> ?r < 0x80" "?r < 0xf8" using r by simp_all
  let ?v = "push_bit 6 (push_bit 6 (push_bit 6 (ucast ?r) OR (drop_bit 12 c AND 0x3f)) OR (drop_bit 6 c AND 0x3f)) OR (c AND 0x3f)"
  have "getc_start ?r (cont_byte (drop_bit 12 c) # cont_byte (drop_bit 6 c) # cont_byte c # rest)
      = Some (?v AND NOT (push_bit 5 (push_bit 5 (push_bit 5 0x7f80))), rest)"
    unfolding getc_start_cases(2) [OF l] getc_cont_step(1) [OF cont_byte_props(1) r(2)]
      getc_cont_step(1) [OF cont_byte_props(1) r(4)] getc_cont_step(2) [OF cont_byte_props(1) r(5)] cont_byte_props(2) ..
  also have "?v AND NOT (push_bit 5 (push_bit 5 (push_bit 5 0x7f80))) = c"
  proof (rule bit_eqI)
    fix n
    show "bit (?v AND NOT (push_bit 5 (push_bit 5 (push_bit 5 0x7f80)))) n = bit c n"
      by (cases "12 \<le> n") (auto simp: bit_simps mask_numerals h dest: d)
  qed
  finally show ?thesis .
qed

lemma utf8_getc_putc:
  assumes "c < 0x200000"
  shows "camel_utf8_getc (camel_utf8_putc c @ rest) = Some (c, rest)"
proof -
  have c: "c < 2 ^ 21" using assms by simp
  consider "c \<le> 0x7f" | "\<not> c \<le> 0x7f" "c \<le> 0x7ff" | "\<not> c \<le> 0x7ff" "c \<le> 0xffff" | "\<not> c \<le> 0xffff" by blast
  then show ?thesis
  proof cases
    case 1
    then have "c < 2 ^ 7" by (simp add: word_le_nat_alt word_less_nat_alt)
    note h = word_less_bits [OF this] and d = word_bit_less [OF this]
    have "ucast (ucast c :: byte) = c" by (rule bit_eqI) (auto simp: bit_simps dest: d)
    moreover have "\<not> bit (ucast c :: byte) 7" by (simp add: bit_simps h)
    ultimately show ?thesis using 1 by (simp add: camel_utf8_getc_def camel_utf8_putc_def getc_start_cases)
  next
    case 2
    then have "c < 2 ^ 11" by (simp add: word_le_nat_alt word_less_nat_alt)
    then show ?thesis using getc_two by (simp add: camel_utf8_getc_def putc_bytes(1) [OF 2])
  next
    case 3
    then have "c < 2 ^ 16" by (simp add: word_le_nat_alt word_less_nat_alt)
    then show ?thesis using getc_three by (simp add: camel_utf8_getc_def putc_bytes(2) [OF 3])
  next
    case 4
    then show ?thesis using getc_four [OF c] by (simp add: camel_utf8_getc_def putc_bytes(3) [OF 4])
  qed
qed

text \<open>
  A character written by \<^verbatim>\<open>camel_utf8_putc\<close> is read back by \<^verbatim>\<open>camel_utf8_getc\<close>, whatever
  follows it, for every character that four octets can hold (21 bits).
\<close>

theorem utf8_round_trip:
  assumes "c < 0x200000"
  shows "camel_utf8_getc (camel_utf8_putc c @ rest) = Some (c, rest)"
  using assms by (rule utf8_getc_putc)

theorem utf8_round_trip_witness:
  "camel_utf8_getc (camel_utf8_putc 0x20ac @ [0x41]) = Some (0x20ac, [0x41])"
  using utf8_round_trip [of "0x20ac" "[0x41]"] by simp

lemma getc_limit_start_eq:
  "getc_limit_start r p = getc_start r p"
  "getc_limit_cont v m r p = getc_cont v m r p"
proof (induction r p and v m r p rule: getc_limit_start_getc_limit_cont.induct)
  case (1 r p)
  then show ?case by (cases p) (simp_all add: getc_limit_start.simps [of r] getc_start.simps [of r])
next
  case (2 v m r p)
  then show ?case by (cases p) (simp_all add: getc_limit_cont.simps [of v m r] Let_def)
qed

text \<open>
  The bounded reader agrees with the unbounded one: where that finds a whole character before the
  end it returns the same character and position, and where that would read on it returns the sentinel
  0xffff and leaves the position unchanged.
\<close>

theorem utf8_limit_agrees:
  "camel_utf8_getc_limit p = (case camel_utf8_getc p of None \<Rightarrow> (0xffff, p) | Some r \<Rightarrow> r)"
  by (cases p) (simp_all add: camel_utf8_getc_limit_def camel_utf8_getc_def getc_limit_start_eq case_prod_unfold split: option.split)

section \<open>Reading a NUL-terminated string\<close>

text \<open>
  What reading one character of a string leaves: either the NUL was read and reported as the
  character 0, or the position is still at or before the NUL.
\<close>

definition nul_stop :: "byte list \<Rightarrow> guint32 \<times> byte list \<Rightarrow> bool" where
  "nul_stop rest r \<longleftrightarrow> fst r = 0 \<and> snd r = rest \<or> (\<exists>s. snd r = s @ 0 # rest)"

lemma getc_nul [simp]: "getc_start 0 p = Some (0, p)"
  by (simp add: getc_start_cases)

lemma getc_stops_at_nul:
  "p = s @ 0 # rest \<Longrightarrow> \<exists>x. getc_start r p = Some x \<and> nul_stop rest x"
  "p = s @ 0 # rest \<Longrightarrow> \<exists>x. getc_cont v m r p = Some x \<and> nul_stop rest x"
proof (induction r p and v m r p arbitrary: s and s rule: getc_start_getc_cont.induct)
  case (1 r p)
  consider "r < 0x80" | "\<not> r < 0x80" "r < 0xf8" | "\<not> r < 0x80" "\<not> r < 0xf8" by blast
  then show ?case
  proof cases
    case 1
    then show ?thesis using \<open>p = s @ 0 # rest\<close> by (auto simp: getc_start_cases nul_stop_def)
  next
    case 2
    then show ?thesis using 1 by (simp add: getc_start_cases)
  next
    case 3
    then show ?thesis using 1(2) [OF 3 _ refl] 1(3)
      by (cases s) (auto simp: getc_start_cases nul_stop_def)
  qed
next
  case (3 v m r c p)
  then show ?case
    by (cases s) (auto simp: Let_def nul_stop_def)
qed simp

lemma camel_utf8_getc_string:
  assumes "p = s @ [0]"
  obtains c q where "camel_utf8_getc p = Some (c, q)" "c = 0 \<or> (\<exists>s'. q = s' @ [0])"
proof (cases s)
  case Nil
  then show ?thesis using assms that by (simp add: camel_utf8_getc_def)
next
  case (Cons b s')
  then show ?thesis using assms that getc_stops_at_nul(1) [of "s' @ [0]" s' "[]" b]
    by (auto simp: camel_utf8_getc_def nul_stop_def)
qed

lemma utf8_utf7_loop_total: "\<exists>s. p = s @ [0] \<Longrightarrow> utf8_utf7_loop state v i out p \<noteq> None"
proof (induction "length p" arbitrary: state v i out p rule: less_induct)
  case less
  then obtain c q where g: "camel_utf8_getc p = Some (c, q)" "c = 0 \<or> (\<exists>s'. q = s' @ [0])"
    using camel_utf8_getc_string by metis
  have "c \<noteq> 0 \<Longrightarrow> utf8_utf7_loop st w j o' q \<noteq> None" for st w j o'
    using less.hyps [OF camel_utf8_getc_length [OF g(1)]] g(2) by blast
  then show ?case using g(1) by (simp add: utf8_utf7_loop.simps [of _ _ _ _ p] Let_def case_prod_unfold)
qed

lemma utf8_ucs2_loop_total: "\<exists>s. p = s @ [0] \<Longrightarrow> utf8_ucs2_loop work p \<noteq> None"
proof (induction "length p" arbitrary: work p rule: less_induct)
  case less
  then obtain c q where g: "camel_utf8_getc p = Some (c, q)" "c = 0 \<or> (\<exists>s'. q = s' @ [0])"
    using camel_utf8_getc_string by metis
  have "c \<noteq> 0 \<Longrightarrow> utf8_ucs2_loop w q \<noteq> None" for w
    using less.hyps [OF camel_utf8_getc_length [OF g(1)]] g(2) by blast
  then show ?case using g(1) by (simp add: utf8_ucs2_loop.simps [of _ p])
qed

lemma utf7_utf8_loop_total: "0 \<in> set p \<Longrightarrow> utf7_utf8_loop state v i out p \<noteq> None"
  by (induction p arbitrary: state v i out) (auto simp: Let_def case_prod_unfold)

text \<open>
  C32. The converters never read behind the NUL of their argument, valid UTF-8 or not: they return a
  result for every C string.
\<close>

theorem converters_stay_in_string:
  "(\<exists>u. camel_utf8_utf7 s = Some u) \<and> (\<exists>u. camel_utf7_utf8 s = Some u) \<and> (\<exists>u. camel_utf8_ucs2 s = Some u)"
  using utf8_utf7_loop_total [of "s @ [0]" 0 0 0 "[]"] utf7_utf8_loop_total [of "s @ [0]" 0 0 0 "[]"]
    utf8_ucs2_loop_total [of "s @ [0]" "[]"]
  by (simp add: camel_utf8_utf7_def camel_utf7_utf8_def camel_utf8_ucs2_def)

section \<open>The round trip through modified UTF-7\<close>

lemma utf7_tables: "\<forall>g \<in> {0..<64}. let b = utf7_alphabet ! g
   in utf7_rank ! unat b = word_of_nat g \<and> utf7_rank ! unat b \<noteq> 0xff \<and> b \<noteq> ch_minus \<and> b \<noteq> 0"
proof -
  have "list_all (\<lambda>g. let b = utf7_alphabet ! g
      in utf7_rank ! unat b = word_of_nat g \<and> utf7_rank ! unat b \<noteq> 0xff \<and> b \<noteq> ch_minus \<and> b \<noteq> 0) [0..<64]"
    by code_simp
  then show ?thesis by (simp only: list_all_iff set_upt)
qed

abbreviation b64_char :: "guint32 \<Rightarrow> byte" where
  "b64_char g \<equiv> utf7_alphabet ! unat (g AND 0x3f)"

lemma b64_char_rank:
  fixes g :: guint32
  shows "ucast (utf7_rank ! unat (b64_char g)) = g AND 0x3f" "utf7_rank ! unat (b64_char g) \<noteq> 0xff"
    "b64_char g \<noteq> ch_minus" "b64_char g \<noteq> 0"
proof -
  let ?g = "unat (g AND 0x3f)"
  have g: "g AND 0x3f < 2 ^ 6" unfolding mask_numerals by (rule and_mask_less') simp
  then have "?g < 64" by (simp add: word_less_nat_alt)
  then have "?g \<in> {0..<64}" by simp
  from bspec [OF utf7_tables this, unfolded Let_def] have t: "utf7_rank ! unat (b64_char g) = word_of_nat ?g" and
    "utf7_rank ! unat (b64_char g) \<noteq> 0xff" "b64_char g \<noteq> ch_minus" "b64_char g \<noteq> 0"
    by blast+
  then show "utf7_rank ! unat (b64_char g) \<noteq> 0xff" "b64_char g \<noteq> ch_minus" "b64_char g \<noteq> 0" by auto
  have "ucast (word_of_nat ?g :: byte) = g AND 0x3f"
    by (rule bit_eqI) (auto simp: bit_simps mask_numerals)
  then show "ucast (utf7_rank ! unat (b64_char g)) = g AND 0x3f" using t by simp
qed

lemma utf7_groups_eval:
  "utf7_groups v 16 out = (4, out @ [b64_char (drop_bit 10 v), b64_char (drop_bit 4 v)])"
  "utf7_groups v 18 out = (0, out @ [b64_char (drop_bit 12 v), b64_char (drop_bit 6 v), b64_char v])"
  "utf7_groups v 20 out = (2, out @ [b64_char (drop_bit 14 v), b64_char (drop_bit 8 v), b64_char (drop_bit 2 v)])"
  by (simp_all add: utf7_groups.simps)

lemma ucast_small:
  assumes "(c::guint32) < 2 ^ 8"
  shows "ucast (ucast c :: byte) = c"
  using word_bit_less [OF assms] by (intro bit_eqI) (auto simp: bit_simps)

lemma byte_range_ascii: "(c::guint32) \<le> 0x7f \<Longrightarrow> c < 2 ^ 8"
  by (simp add: word_le_nat_alt word_less_nat_alt)

lemma byte_bit_nonzero: "bit (b::byte) n \<Longrightarrow> b \<noteq> 0"
  by auto

lemma putc_no_nul:
  assumes "c \<noteq> 0"
  shows "0 \<notin> set (camel_utf8_putc c)"
proof -
  have lead: "ucast (0xc0 OR x :: guint32) \<noteq> (0::byte)" "ucast (0xe0 OR x :: guint32) \<noteq> (0::byte)"
      "ucast (0xf0 OR x :: guint32) \<noteq> (0::byte)" "cont_byte x \<noteq> 0" for x
    by (rule byte_bit_nonzero [where n = 7], simp add: bit_simps cont_byte_def)+
  have "c \<le> 0x7f \<Longrightarrow> (ucast c :: byte) \<noteq> 0"
    using assms ucast_small [of c] by (metis ucast_0 byte_range_ascii)
  then show ?thesis using lead
    by (auto simp: camel_utf8_putc_def cont_byte_def [symmetric])
qed

lemma append_u_putc: "c \<noteq> 0 \<Longrightarrow> g_string_append_u out c = out @ camel_utf8_putc c"
  using putc_no_nul [of c] unfolding g_string_append_u_def by (subst takeWhile_append2) auto

lemma append_u_nul [simp]: "g_string_append_u out 0 = out"
  by (simp add: g_string_append_u_def camel_utf8_putc_def)

text \<open>The decoder on what the encoder writes.\<close>

lemma utf7_read_group:
  "utf7_utf8_loop 2 v i out (b64_char g # p) =
     (let v = push_bit 6 v OR (g AND 0x3f)
      in if i \<ge> 10 then utf7_utf8_loop 2 v (i - 10) (g_string_append_u out (drop_bit (i - 10) v AND 0xffff)) p
         else utf7_utf8_loop 2 v (i + 6) out p)"
  using b64_char_rank [of g] by (simp add: Let_def) 

lemma utf7_read_first: "utf7_utf8_loop 0 v i out (ch_amp # b64_char g # p) = utf7_utf8_loop 2 0 0 out (b64_char g # p)"
  using b64_char_rank [of g] by (simp add: Let_def ch_amp_def)

lemma utf7_read_close: "utf7_utf8_loop 2 v i out (ch_minus # p) = utf7_utf8_loop 0 v i out p"
  by (simp add: ch_minus_def)

lemma utf7_read_amp: "utf7_utf8_loop 0 v i out (ch_amp # ch_minus # p) = utf7_utf8_loop 0 v i (out @ [ch_amp]) p"
  by (simp add: ch_amp_def ch_minus_def)

lemma utf7_read_end: "utf7_utf8_loop 0 v i out [0] = Some out"
  by (simp add: ch_amp_def)

lemma utf7_read_plain:
  fixes c :: guint32
  assumes "c \<ge> 0x20" "c \<le> 0x7e" "c \<noteq> ucast ch_amp"
  shows "utf7_utf8_loop 0 v i out (ucast c # p) = utf7_utf8_loop 0 v i (out @ camel_utf8_putc c) p"
proof -
  have "c < 2 ^ 8" using assms(2) by (simp add: word_le_nat_alt word_less_nat_alt)
  note u = ucast_small [OF this]
  have "c \<noteq> 0" using assms(1) by auto
  then have "(ucast c :: byte) \<noteq> 0" "(ucast c :: byte) \<noteq> ch_amp" using assms(3) u by (metis ucast_0, metis)
  then show ?thesis using u append_u_putc [OF \<open>c \<noteq> 0\<close>] by simp
qed

declare utf7_utf8_loop.simps [simp del]

text \<open>
  The relation between the encoder inside a base64 run and the decoder that has read what it wrote:
  the encoder keeps the low \<open>i\<close> bits of the last character in \<open>v\<close>, the decoder has its upper
  \<open>16 - i\<close> bits in \<open>v'\<close>, and \<open>pend\<close> is what it has still to write for that character.
\<close>

definition utf7_pending :: "nat \<Rightarrow> guint32 \<Rightarrow> nat \<Rightarrow> guint32 \<Rightarrow> byte list \<Rightarrow> bool" where
  "utf7_pending i v i' v' pend \<longleftrightarrow>
     i = 0 \<and> i' = 0 \<and> pend = []
     \<or> (i = 2 \<or> i = 4) \<and> i' = 16 - i
       \<and> (\<exists>c. c \<noteq> 0 \<and> c < 2 ^ 16 \<and> pend = camel_utf8_putc c
              \<and> (\<forall>n < 16 - i. bit v' n = bit c (n + i)) \<and> (\<forall>n < i. bit v n = bit c n))"

text \<open>The group that completes a pending character, followed by other bits of the stream \<open>x\<close>.\<close>

lemma utf7_complete:
  fixes c :: guint32
  assumes "c < 2 ^ 16" "\<forall>n < 16 - i. bit v' n = bit c (n + i)" "\<forall>n < i. bit x (n + (6 - i)) = bit c n" "i = 2 \<or> i = 4"
  shows "drop_bit (6 - i) (push_bit 6 v' OR (x AND 0x3f)) AND 0xffff = c"
proof (rule bit_eqI)
  fix n
  note h = word_bit_less [OF assms(1), of n]
  consider "n < i" | "i \<le> n" "n < 16" | "16 \<le> n" by linarith
  then show "bit (drop_bit (6 - i) (push_bit 6 v' OR (x AND 0x3f)) AND 0xffff) n = bit c n"
  proof cases
    case 1
    then show ?thesis using assms(3,4) by (auto simp: bit_simps mask_numerals add.commute)
  next
    case 2
    then have "bit v' (n - i) = bit c n" using assms(2) by simp
    moreover have "(6 - i) + n - 6 = n - i" using assms(4) 2 by auto
    ultimately show ?thesis using 2 assms(4) by (auto simp: bit_simps mask_numerals)
  next
    case 3
    then show ?thesis using h by (auto simp: bit_simps mask_numerals)
  qed
qed

lemma utf7_close_sim:
  assumes "utf7_pending i v i' v' pend"
  shows "\<exists>vv ii. \<forall>out p. utf7_utf8_loop 2 v' i' out (utf7_closeb64 [] v i @ p) = utf7_utf8_loop 0 vv ii (out @ pend) p"
proof (cases "i = 0")
  case True
  then show ?thesis using assms by (simp add: utf7_pending_def utf7_closeb64_def utf7_read_close) blast
next
  case False
  then obtain c where c: "i = 2 \<or> i = 4" "i' = 16 - i" "c \<noteq> 0" "c < 2 ^ 16" "pend = camel_utf8_putc c"
      "\<forall>n < 16 - i. bit v' n = bit c (n + i)" "\<forall>n < i. bit v n = bit c n"
    using assms by (auto simp: utf7_pending_def)
  have "\<forall>n < i. bit (push_bit (6 - i) v) (n + (6 - i)) = bit c n" using c(1,7) by (auto simp: bit_simps)
  note e = utf7_complete [OF c(4,6) this c(1)]
  have j: "i' \<ge> 10" "i' - 10 = 6 - i" using c(1,2) by auto
  have "utf7_utf8_loop 2 v' i' out (utf7_closeb64 [] v i @ p) =
      utf7_utf8_loop 0 (push_bit 6 v' OR (push_bit (6 - i) v AND 0x3f)) (6 - i) (out @ pend) p" for out p
    using False unfolding utf7_closeb64_def
    by (simp only: utf7_read_group Let_def j e append_u_putc [OF c(3)] c(5) utf7_read_close if_True append.simps neq0_conv simp_thms)
  then show ?thesis by blast
qed

text \<open>
  One more character \<open>d\<close> in the run: the groups \<open>w\<close> that the encoder writes take the decoder to
  the relation again. There are three phases: 0, 4 and 2 bits are left before the character.
\<close>

definition utf7_sim_step :: "nat \<Rightarrow> guint32 \<Rightarrow> nat \<Rightarrow> guint32 \<Rightarrow> byte list \<Rightarrow> guint32 \<Rightarrow> bool" where
  "utf7_sim_step i v i' v' pend d \<longleftrightarrow>
     (\<exists>j w j' v'' outp pend'. utf7_groups (push_bit 16 v OR d) (i + 16) = (\<lambda>out. (j, out @ w))
        \<and> utf7_pending j (push_bit 16 v OR d) j' v'' pend' \<and> outp @ pend' = pend @ camel_utf8_putc d
        \<and> (\<forall>out p. utf7_utf8_loop 2 v' i' out (w @ p) = utf7_utf8_loop 2 v'' j' (out @ outp) p))"

lemma stream_bits:
  fixes d :: guint32
  assumes "d < 2 ^ 16"
  shows "n < 16 \<Longrightarrow> bit (push_bit 16 v OR d) n = bit d n" "n < 16 \<Longrightarrow> bit (push_bit 16 v OR d) (16 + n) = bit v n"
  using word_bit_less [OF assms, of "16 + n"] by (auto simp: bit_simps)

lemma utf7_step_0:
  fixes d :: guint32
  assumes "d \<noteq> 0" "d < 2 ^ 16"
  shows "utf7_sim_step 0 v 0 v' [] d"
proof -
  define v1 where "v1 = push_bit 16 v OR d"
  note low = stream_bits(1) [OF assms(2), of _ v, folded v1_def]
  let ?v = "push_bit 6 (push_bit 6 v' OR (drop_bit 10 v1 AND 0x3f)) OR (drop_bit 4 v1 AND 0x3f)"
  have "\<forall>n < 12. bit ?v n = bit d (n + 4)" using low by (auto simp: bit_simps mask_numerals add.commute)
  then have "utf7_pending 4 v1 12 ?v (camel_utf8_putc d)" using assms low by (auto simp: utf7_pending_def)
  moreover have "utf7_groups v1 (0 + 16) = (\<lambda>out. (4, out @ [b64_char (drop_bit 10 v1), b64_char (drop_bit 4 v1)]))"
    by (simp add: utf7_groups_eval fun_eq_iff)
  moreover have "utf7_utf8_loop 2 v' 0 out ([b64_char (drop_bit 10 v1), b64_char (drop_bit 4 v1)] @ p)
      = utf7_utf8_loop 2 ?v 12 (out @ []) p" for out p
    by (simp add: utf7_read_group Let_def)
  ultimately show ?thesis unfolding utf7_sim_step_def v1_def [symmetric] by blast
qed

lemma utf7_step_4:
  fixes d :: guint32
  assumes "utf7_pending 4 v i' v' pend" "d \<noteq> 0" "d < 2 ^ 16"
  shows "utf7_sim_step 4 v i' v' pend d"
proof -
  define v1 where "v1 = push_bit 16 v OR d"
  note low = stream_bits(1) [OF assms(3), of _ v, folded v1_def] and high = stream_bits(2) [OF assms(3), of _ v, folded v1_def]
  obtain c where c: "i' = 12" "c \<noteq> 0" "c < 2 ^ 16" "pend = camel_utf8_putc c"
      "\<forall>n < 16 - 4. bit v' n = bit c (n + 4)" "\<forall>n < 4. bit v n = bit c n"
    using assms(1) by (auto simp: utf7_pending_def)
  have "bit (drop_bit 14 v1) (n + (6 - 4)) = bit c n" if "n < 4" for n
    using c(6) high [of n] that by (simp add: bit_simps add.commute)
  then have "\<forall>n < 4. bit (drop_bit 14 v1) (n + (6 - 4)) = bit c n" by blast
  from utf7_complete [OF c(3,5) this] have e: "drop_bit 2 (push_bit 6 v' OR (drop_bit 14 v1 AND 0x3f)) AND 0xffff = c" by simp
  let ?v0 = "push_bit 6 v' OR (drop_bit 14 v1 AND 0x3f)"
  let ?v = "push_bit 6 (push_bit 6 ?v0 OR (drop_bit 8 v1 AND 0x3f)) OR (drop_bit 2 v1 AND 0x3f)"
  have "bit ?v n = bit d (n + 2)" if "n < 14" for n
  proof (cases "n < 12")
    case True
    then show ?thesis using low [of "n + 2"] by (auto simp: bit_simps mask_numerals add.commute)
  next
    case False
    then have "n = 12 \<or> n = 13" using that by linarith
    then show ?thesis using low [of 14] low [of 15] by (elim disjE) (simp_all add: bit_simps mask_numerals)
  qed
  then have "utf7_pending 2 v1 14 ?v (camel_utf8_putc d)" using assms(2,3) low by (auto simp: utf7_pending_def)
  moreover have "utf7_groups v1 (4 + 16) = (\<lambda>out. (2, out @ [b64_char (drop_bit 14 v1), b64_char (drop_bit 8 v1), b64_char (drop_bit 2 v1)]))"
    by (simp add: utf7_groups_eval fun_eq_iff)
  moreover have "utf7_utf8_loop 2 v' i' out ([b64_char (drop_bit 14 v1), b64_char (drop_bit 8 v1), b64_char (drop_bit 2 v1)] @ p)
      = utf7_utf8_loop 2 ?v 14 (out @ pend) p" for out p
    using c(1,4) e append_u_putc [OF c(2)] by (simp add: utf7_read_group Let_def)
  ultimately show ?thesis unfolding utf7_sim_step_def v1_def [symmetric] by blast
qed

lemma utf7_step_2:
  fixes d :: guint32
  assumes "utf7_pending 2 v i' v' pend" "d \<noteq> 0" "d < 2 ^ 16"
  shows "utf7_sim_step 2 v i' v' pend d"
proof -
  define v1 where "v1 = push_bit 16 v OR d"
  note low = stream_bits(1) [OF assms(3), of _ v, folded v1_def] and high = stream_bits(2) [OF assms(3), of _ v, folded v1_def]
  obtain c where c: "i' = 14" "c \<noteq> 0" "c < 2 ^ 16" "pend = camel_utf8_putc c"
      "\<forall>n < 16 - 2. bit v' n = bit c (n + 2)" "\<forall>n < 2. bit v n = bit c n"
    using assms(1) by (auto simp: utf7_pending_def)
  have "bit (drop_bit 12 v1) (n + (6 - 2)) = bit c n" if "n < 2" for n
    using c(6) high [of n] that by (simp add: bit_simps add.commute)
  then have "\<forall>n < 2. bit (drop_bit 12 v1) (n + (6 - 2)) = bit c n" by blast
  from utf7_complete [OF c(3,5) this] have e: "drop_bit 4 (push_bit 6 v' OR (drop_bit 12 v1 AND 0x3f)) AND 0xffff = c" by simp
  let ?v0 = "push_bit 6 v' OR (drop_bit 12 v1 AND 0x3f)"
  let ?v = "push_bit 6 (push_bit 6 ?v0 OR (drop_bit 6 v1 AND 0x3f)) OR (v1 AND 0x3f)"
  have "?v AND 0xffff = d"
  proof (rule bit_eqI)
    fix n :: nat
    consider "n < 6" | "6 \<le> n" "n < 12" | "n = 12 \<or> n = 13 \<or> n = 14 \<or> n = 15" | "16 \<le> n" by linarith
    then show "bit (?v AND 0xffff) n = bit d n"
    proof cases
      case 3
      then show ?thesis using low [of 12] low [of 13] low [of 14] low [of 15]
        by (elim disjE) (simp_all add: bit_simps mask_numerals)
    qed (use low [of n] word_less_bits [OF assms(3), of n] in \<open>auto simp: bit_simps mask_numerals\<close>)
  qed
  moreover have "utf7_pending 0 v1 0 ?v []" by (simp add: utf7_pending_def)
  moreover have "utf7_groups v1 (2 + 16) = (\<lambda>out. (0, out @ [b64_char (drop_bit 12 v1), b64_char (drop_bit 6 v1), b64_char v1]))"
    by (simp add: utf7_groups_eval fun_eq_iff)
  moreover have "utf7_utf8_loop 2 v' i' out ([b64_char (drop_bit 12 v1), b64_char (drop_bit 6 v1), b64_char v1] @ p)
      = utf7_utf8_loop 2 ?v 0 (out @ pend @ camel_utf8_putc d) p" for out p
    using c(1,4) e append_u_putc [OF c(2)] append_u_putc [OF assms(2)] \<open>?v AND 0xffff = d\<close>
    by (simp add: utf7_read_group Let_def)
  ultimately show ?thesis unfolding utf7_sim_step_def v1_def [symmetric] by (metis append_Nil2)
qed

lemma utf7_step_sim:
  assumes "utf7_pending i v i' v' pend" "d \<noteq> 0" "d < 2 ^ 16"
  shows "utf7_sim_step i v i' v' pend d"
proof -
  consider "i = 0" "i' = 0" "pend = []" | "i = 4" | "i = 2" using assms(1) by (auto simp: utf7_pending_def)
  then show ?thesis using assms utf7_step_0 utf7_step_2 utf7_step_4 by cases auto
qed

abbreviation utf8_string :: "guint32 list \<Rightarrow> byte list" where
  "utf8_string cs \<equiv> concat (map camel_utf8_putc cs)"

lemma utf7_closeb64_out: "utf7_closeb64 out v i = out @ utf7_closeb64 [] v i"
  by (simp add: utf7_closeb64_def)

lemma bmp_char:
  fixes c :: guint32
  assumes "c < 2 ^ 16"
  shows "camel_utf8_getc (camel_utf8_putc c @ rest) = Some (c, rest)"
  using assms by (intro utf8_getc_putc) (simp add: word_less_nat_alt)

lemma encode_end: "utf8_utf7_loop st v i out [0] = Some (if st = 1 then utf7_closeb64 out v i else out)"
  by (simp add: utf8_utf7_loop.simps [of _ _ _ _ "[0]"] camel_utf8_getc_def)

lemma encode_plain:
  fixes c :: guint32
  assumes "c < 2 ^ 16" "c \<ge> 0x20" "c \<le> 0x7e"
  defines "w \<equiv> if c = ucast ch_amp then [ch_amp, ch_minus] else [ucast c]"
  shows "utf8_utf7_loop 0 v 0 out (camel_utf8_putc c @ p) = utf8_utf7_loop 0 v 0 (out @ w) p"
    and "utf8_utf7_loop 1 v i out (camel_utf8_putc c @ p) = utf8_utf7_loop 0 v 0 (out @ utf7_closeb64 [] v i @ w) p"
  using assms(2) bmp_char [OF assms(1), of p] assms(3) utf7_closeb64_out [of out]
  by (auto simp: utf8_utf7_loop.simps [of _ _ _ _ "camel_utf8_putc c @ p"] w_def)

lemma encode_group:
  fixes c :: guint32
  assumes "c < 2 ^ 16" "c \<noteq> 0" "\<not> (c \<ge> 0x20 \<and> c \<le> 0x7e)"
    and "utf7_groups (push_bit 16 v OR c) (i + 16) = (\<lambda>out. (j, out @ w))"
  shows "st = 0 \<Longrightarrow> utf8_utf7_loop st v i out (camel_utf8_putc c @ p) = utf8_utf7_loop 1 (push_bit 16 v OR c) j (out @ ch_amp # w) p"
    and "st = 1 \<Longrightarrow> utf8_utf7_loop st v i out (camel_utf8_putc c @ p) = utf8_utf7_loop 1 (push_bit 16 v OR c) j (out @ w) p"
  using assms(2-4) bmp_char [OF assms(1), of p]
  by (auto simp: utf8_utf7_loop.simps [of _ _ _ _ "camel_utf8_putc c @ p"] Let_def)

lemma decode_plain:
  fixes c :: guint32
  assumes "c \<ge> 0x20" "c \<le> 0x7e"
  defines "w \<equiv> if c = ucast ch_amp then [ch_amp, ch_minus] else [ucast c]"
  shows "utf7_utf8_loop 0 v i out (w @ p) = utf7_utf8_loop 0 v i (out @ camel_utf8_putc c) p"
proof (cases "c = ucast ch_amp")
  case True
  moreover have "camel_utf8_putc (ucast ch_amp) = [ch_amp]" by code_simp
  ultimately show ?thesis by (simp add: w_def utf7_read_amp)
qed (use assms utf7_read_plain in simp)

lemma utf7_first_group:
  assumes "utf7_groups v (0 + 16) = (\<lambda>out. (j, out @ w))"
  shows "utf7_utf8_loop 0 v' i' out (ch_amp # w @ p) = utf7_utf8_loop 2 0 0 out (w @ p)"
proof -
  have "(j, [] @ w) = utf7_groups v 16 []" using fun_cong [OF assms, of "[]"] by simp
  then have "w = [b64_char (drop_bit 10 v), b64_char (drop_bit 4 v)]" by (simp add: utf7_groups_eval)
  then show ?thesis by (simp add: utf7_read_first)
qed

lemma utf7_sim:
  assumes "\<forall>c \<in> set cs. c \<noteq> 0 \<and> c < 2 ^ 16"
  shows "\<exists>w. (\<forall>out. utf8_utf7_loop 0 v 0 out (utf8_string cs @ [0]) = Some (out @ w))
       \<and> (\<forall>v' i' out. utf7_utf8_loop 0 v' i' out (w @ [0]) = Some (out @ utf8_string cs))"
    and "utf7_pending i v i' v' pend \<Longrightarrow>
       \<exists>w. (\<forall>out. utf8_utf7_loop 1 v i out (utf8_string cs @ [0]) = Some (out @ w))
       \<and> (\<forall>out. utf7_utf8_loop 2 v' i' out (w @ [0]) = Some (out @ pend @ utf8_string cs))"
  using assms
proof (induction cs arbitrary: v i i' v' pend)
  case Nil
  {
    case 1
    then show ?case by (simp add: encode_end utf7_read_end)
  next
    case 2
    from utf7_close_sim [OF 2(1)] have "utf7_utf8_loop 2 v' i' out (utf7_closeb64 [] v i @ [0]) = Some (out @ pend)" for out
      by (metis utf7_read_end)
    moreover have "utf8_utf7_loop 1 v i out [0] = Some (out @ utf7_closeb64 [] v i)" for out
      using utf7_closeb64_out [of out v i] by (simp add: encode_end)
    ultimately show ?case by auto
  }
next
  case (Cons c cs)
  let ?w = "if c = ucast ch_amp then [ch_amp, ch_minus] else [ucast c]"
  {
    case 1
    then have c: "c \<noteq> 0" "c < 2 ^ 16" "\<forall>c \<in> set cs. c \<noteq> 0 \<and> c < 2 ^ 16" by auto
    show ?case
    proof (cases "c \<ge> 0x20 \<and> c \<le> 0x7e")
      case True
      obtain w where "\<forall>out. utf8_utf7_loop 0 v 0 out (utf8_string cs @ [0]) = Some (out @ w)"
          "\<forall>v' i' out. utf7_utf8_loop 0 v' i' out (w @ [0]) = Some (out @ utf8_string cs)"
        using Cons.IH(1) [OF c(3)] by blast
      then show ?thesis using True decode_plain [of c] by (intro exI [of _ "?w @ w"]) (simp add: encode_plain [OF c(2)])
    next
      case False
      obtain j wg j' v'' outp pend' where g: "utf7_groups (push_bit 16 v OR c) (0 + 16) = (\<lambda>out. (j, out @ wg))"
          "utf7_pending j (push_bit 16 v OR c) j' v'' pend'" "outp @ pend' = camel_utf8_putc c"
          "\<forall>out p. utf7_utf8_loop 2 0 0 out (wg @ p) = utf7_utf8_loop 2 v'' j' (out @ outp) p"
        using utf7_step_0 [OF c(1,2), of v 0] unfolding utf7_sim_step_def append_Nil by blast
      obtain w where "\<forall>out. utf8_utf7_loop 1 (push_bit 16 v OR c) j out (utf8_string cs @ [0]) = Some (out @ w)"
          "\<forall>out. utf7_utf8_loop 2 v'' j' out (w @ [0]) = Some (out @ pend' @ utf8_string cs)"
        using Cons.IH(2) [OF g(2) c(3)] by blast
      then show ?thesis using g(3,4) encode_group(1) [OF c(2,1) False g(1)] utf7_first_group [OF g(1)]
        by (intro exI [of _ "ch_amp # wg @ w"]) (simp flip: g(3))
    qed
  next
    case 2
    then have c: "c \<noteq> 0" "c < 2 ^ 16" "\<forall>c \<in> set cs. c \<noteq> 0 \<and> c < 2 ^ 16" by auto
    show ?case
    proof (cases "c \<ge> 0x20 \<and> c \<le> 0x7e")
      case True
      obtain w where "\<forall>out. utf8_utf7_loop 0 v 0 out (utf8_string cs @ [0]) = Some (out @ w)"
          "\<forall>v' i' out. utf7_utf8_loop 0 v' i' out (w @ [0]) = Some (out @ utf8_string cs)"
        using Cons.IH(1) [OF c(3)] by blast
      moreover obtain vv ii where "\<forall>out p. utf7_utf8_loop 2 v' i' out (utf7_closeb64 [] v i @ p) = utf7_utf8_loop 0 vv ii (out @ pend) p"
        using utf7_close_sim [OF 2(1)] by blast
      ultimately show ?thesis using True decode_plain [of c]
        by (intro exI [of _ "utf7_closeb64 [] v i @ ?w @ w"]) (simp add: encode_plain(2) [OF c(2), unfolded One_nat_def])
    next
      case False
      obtain j wg j' v'' outp pend' where g: "utf7_groups (push_bit 16 v OR c) (i + 16) = (\<lambda>out. (j, out @ wg))"
          "utf7_pending j (push_bit 16 v OR c) j' v'' pend'" "outp @ pend' = pend @ camel_utf8_putc c"
          "\<forall>out p. utf7_utf8_loop 2 v' i' out (wg @ p) = utf7_utf8_loop 2 v'' j' (out @ outp) p"
        using utf7_step_sim [OF 2(1) c(1,2)] unfolding utf7_sim_step_def by blast
      obtain w where "\<forall>out. utf8_utf7_loop 1 (push_bit 16 v OR c) j out (utf8_string cs @ [0]) = Some (out @ w)"
          "\<forall>out. utf7_utf8_loop 2 v'' j' out (w @ [0]) = Some (out @ pend' @ utf8_string cs)"
        using Cons.IH(2) [OF g(2) c(3)] by blast
      then show ?thesis using g(4) encode_group(2) [OF c(2,1) False g(1)] arg_cong [OF g(3), of "\<lambda>x. x @ utf8_string cs"]
        by (intro exI [of _ "wg @ w"]) simp
    qed
  }
qed

text \<open>
  C31. Mailbox names survive the conversion to modified UTF-7 and back: for a UTF-8 string of
  characters of the basic plane (not NUL), \<^verbatim>\<open>camel_utf8_utf7\<close> returns a string that
  \<^verbatim>\<open>camel_utf7_utf8\<close> converts back to the original.
\<close>

theorem utf7_round_trip:
  assumes "\<forall>c \<in> set cs. 0 < c \<and> c \<le> 0xffff"
  shows "\<exists>u. camel_utf8_utf7 (concat (map camel_utf8_putc cs)) = Some u
    \<and> camel_utf7_utf8 u = Some (concat (map camel_utf8_putc cs))"
proof -
  have "\<forall>c \<in> set cs. c \<noteq> 0 \<and> c < 2 ^ 16" using assms by (auto simp: word_le_nat_alt word_less_nat_alt)
  from utf7_sim(1) [OF this, of 0] show ?thesis
    by (auto simp: camel_utf8_utf7_def camel_utf7_utf8_def)
qed

theorem utf7_round_trip_witness:
  "\<exists>u. camel_utf8_utf7 (concat (map camel_utf8_putc [0x49, 0x26, 0xe9, 0x20ac, 0x41])) = Some u
    \<and> camel_utf7_utf8 u = Some (concat (map camel_utf8_putc [0x49, 0x26, 0xe9, 0x20ac, 0x41]))"
  using utf7_round_trip [of "[0x49, 0x26, 0xe9, 0x20ac, 0x41]"] by simp

section \<open>The round trip through UCS-2\<close>

lemma ucs2_bytes:
  fixes c :: guint32
  assumes "c < 2 ^ 16"
  shows "push_bit 8 (ucast (ucast (drop_bit 8 c) :: byte)) OR ucast (ucast c :: byte) = c"
proof (rule bit_eqI)
  fix n
  show "bit (push_bit 8 (ucast (ucast (drop_bit 8 c) :: byte)) OR ucast (ucast c :: byte) :: guint32) n = bit c n"
    using word_bit_less [OF assms, of n] by (cases "n < 8") (auto simp: bit_simps)
qed

lemma ucs2_sim:
  assumes "\<forall>c \<in> set cs. c \<noteq> 0 \<and> c < 2 ^ 16"
  shows "\<exists>w. (\<forall>work. utf8_ucs2_loop work (utf8_string cs @ [0]) = Some (work @ w))
    \<and> (\<forall>work. ucs2_utf8_loop work w = Some (work @ utf8_string cs))"
  using assms
proof (induction cs)
  case Nil
  show ?case by (intro exI [of _ "[0, 0]"]) (simp add: utf8_ucs2_loop.simps [of _ "[0]"] camel_utf8_getc_def)
next
  case (Cons c cs)
  then obtain w where w: "\<forall>work. utf8_ucs2_loop work (utf8_string cs @ [0]) = Some (work @ w)"
      "\<forall>work. ucs2_utf8_loop work w = Some (work @ utf8_string cs)" by auto
  have c: "c \<noteq> 0" "c < 2 ^ 16" using Cons.prems by auto
  show ?case
    using w c bmp_char [OF c(2), of "utf8_string cs @ [0]"] ucs2_bytes [OF c(2)] append_u_putc [OF c(1)]
    by (intro exI [of _ "ucast (drop_bit 8 c) # ucast c # w"])
      (simp add: utf8_ucs2_loop.simps [of _ "camel_utf8_putc c @ _"])
qed

text \<open>
  Strings of the basic plane survive the conversion to UCS-2 and back.
\<close>

theorem ucs2_round_trip:
  assumes "\<forall>c \<in> set cs. 0 < c \<and> c \<le> 0xffff"
  shows "\<exists>u. camel_utf8_ucs2 (concat (map camel_utf8_putc cs)) = Some u
    \<and> camel_ucs2_utf8 u = Some (concat (map camel_utf8_putc cs))"
proof -
  have "\<forall>c \<in> set cs. c \<noteq> 0 \<and> c < 2 ^ 16" using assms by (auto simp: word_le_nat_alt word_less_nat_alt)
  from ucs2_sim [OF this] show ?thesis by (auto simp: camel_utf8_ucs2_def camel_ucs2_utf8_def)
qed

theorem ucs2_round_trip_witness:
  "\<exists>u. camel_utf8_ucs2 (concat (map camel_utf8_putc [0x49, 0xe9, 0x20ac])) = Some u
    \<and> camel_ucs2_utf8 u = Some (concat (map camel_utf8_putc [0x49, 0xe9, 0x20ac]))"
  using ucs2_round_trip [of "[0x49, 0xe9, 0x20ac]"] by simp

text \<open>
  Outside the basic plane the conversions lose information, and octets that are not UTF-8 are not
  always skipped: two continuation octets are read as a character, and so is an overlong NUL.
\<close>

lemma utf7_loses_supplementary:
  "camel_utf8_utf7 (camel_utf8_putc 0x1f600) = camel_utf8_utf7 (camel_utf8_putc 0xf600)"
  by code_simp

lemma utf8_reads_continuation: "camel_utf8_getc [0x81, 0x82, 0] = Some (0x42, [0])"
  by code_simp

lemma utf8_reads_overlong: "camel_utf8_getc [0xc0, 0x80, 0x41, 0] = Some (0, [0x41, 0])"
  by code_simp

end
