(* ===== verification/Camel_File_Utils.thy ===== *)
theory Camel_File_Utils
  imports Camel_Bytes
begin

text \<open>
  The binary encodings of \<^verbatim>\<open>camel/camel-file-utils.c\<close>, in which folder summaries and other
  caches are stored: integers in groups of seven bits, integers of a fixed width in network order and
  strings with their length. Writing and reading are modelled with the errors of the stream: an output
  file has room for a number of octets, after which \<^verbatim>\<open>fputc\<close> and \<^verbatim>\<open>fwrite\<close> fail; an input file is
  the list of the octets that are left. The properties are the round trips through any file whose
  writes succeeded, stated once for all codecs in the locale \<open>file_codec\<close>.
\<close>

section \<open>Streams\<close>

record FILE =
  f_data :: "byte list"
  f_room :: nat

definition fputc :: "byte \<Rightarrow> FILE \<Rightarrow> int \<times> FILE" where
  "fputc c f =
     (if f_room f = 0 then (-1, f) else (uint c, f\<lparr>f_data := f_data f @ [c], f_room := f_room f - 1\<rparr>))"

text \<open>\<^verbatim>\<open>fwrite (buf, len, 1, out)\<close> writes one item of \<^verbatim>\<open>len\<close> octets and returns the number of items written.\<close>

definition fwrite1 :: "byte list \<Rightarrow> FILE \<Rightarrow> int \<times> FILE" where
  "fwrite1 buf f =
     (if length buf \<le> f_room f then (1, f\<lparr>f_data := f_data f @ buf, f_room := f_room f - length buf\<rparr>)
      else (0, f\<lparr>f_data := f_data f @ take (f_room f) buf, f_room := 0\<rparr>))"

text \<open>\<^verbatim>\<open>fread (ret, len, 1, in)\<close>: \<^const>\<open>None\<close> when fewer than \<^verbatim>\<open>len\<close> octets are left, which are consumed.\<close>

definition fread1 :: "nat \<Rightarrow> byte list \<Rightarrow> byte list option \<times> byte list" where
  "fread1 len inp = (if len \<le> length inp then (Some (take len inp), drop len inp) else (None, []))"

section \<open>Integers\<close>

fun encode_uint32_loop :: "guint32 \<Rightarrow> nat list \<Rightarrow> FILE \<Rightarrow> int \<times> FILE" where
  "encode_uint32_loop value [] f = fputc (ucast (value OR 0x80)) f"
| "encode_uint32_loop value (i # is) f =
     (if value \<ge> push_bit i 1
      then (case fputc (ucast (drop_bit i value AND 0x7f)) f of
              (r, f) \<Rightarrow> if r = -1 then (-1, f) else encode_uint32_loop value is f)
      else encode_uint32_loop value is f)"

definition camel_file_util_encode_uint32 :: "guint32 \<Rightarrow> FILE \<Rightarrow> int \<times> FILE" where
  "camel_file_util_encode_uint32 value f = encode_uint32_loop value [28, 21, 14, 7] f"

fun decode_uint32_loop :: "guint32 \<Rightarrow> byte list \<Rightarrow> int \<times> guint32 \<times> byte list" where
  "decode_uint32_loop value [] = (-1, drop_bit 7 value, [])"
| "decode_uint32_loop value (v # inp) =
     (if v AND 0x80 = 0 then decode_uint32_loop (push_bit 7 (value OR ucast v)) inp
      else (0, value OR ucast (v AND 0x7f), inp))"

definition camel_file_util_decode_uint32 :: "byte list \<Rightarrow> int \<times> guint32 \<times> byte list" where
  "camel_file_util_decode_uint32 inp = decode_uint32_loop 0 inp"

text \<open>The four octets of a \<^verbatim>\<open>guint32\<close> in network order (\<^verbatim>\<open>g_htonl\<close>, \<^verbatim>\<open>g_ntohl\<close>).\<close>

definition htonl_bytes :: "guint32 \<Rightarrow> byte list" where
  "htonl_bytes v = [ucast (drop_bit 24 v), ucast (drop_bit 16 v), ucast (drop_bit 8 v), ucast v]"

definition ntohl_bytes :: "byte list \<Rightarrow> guint32" where
  "ntohl_bytes bs = fold (\<lambda>b v. push_bit 8 v OR ucast b) bs 0"

definition camel_file_util_encode_fixed_int32 :: "guint32 \<Rightarrow> FILE \<Rightarrow> int \<times> FILE" where
  "camel_file_util_encode_fixed_int32 value f =
     (case fwrite1 (htonl_bytes value) f of (r, f) \<Rightarrow> (if r \<noteq> 1 then -1 else 0, f))"

definition camel_file_util_decode_fixed_int32 :: "guint32 \<Rightarrow> byte list \<Rightarrow> int \<times> guint32 \<times> byte list" where
  "camel_file_util_decode_fixed_int32 dest inp =
     (case fread1 4 inp of (Some save, inp) \<Rightarrow> (0, ntohl_bytes save, inp) | (None, inp) \<Rightarrow> (-1, dest, inp))"

text \<open>
  \<^verbatim>\<open>CFU_ENCODE_T\<close> and \<^verbatim>\<open>CFU_DECODE_T\<close> for an integer type of \<^verbatim>\<open>n\<close> octets; the first argument of the
  loops is the number of octets that are left, one more than the \<^verbatim>\<open>i\<close> of the macro.
\<close>

fun cfu_encode_loop :: "nat \<Rightarrow> 'a::len word \<Rightarrow> FILE \<Rightarrow> int \<times> FILE" where
  "cfu_encode_loop 0 value f = (0, f)"
| "cfu_encode_loop (Suc i) value f =
     (case fputc (ucast (drop_bit (i * 8) value AND 0xff)) f of
        (r, f) \<Rightarrow> if r = -1 then (-1, f) else cfu_encode_loop i value f)"

fun cfu_decode_loop :: "nat \<Rightarrow> 'a::len word \<Rightarrow> byte list \<Rightarrow> int \<times> 'a word \<times> byte list" where
  "cfu_decode_loop 0 save inp = (0, save, inp)"
| "cfu_decode_loop (Suc i) save [] = (-1, save, [])"
| "cfu_decode_loop (Suc i) save (v # inp) = cfu_decode_loop i (save OR push_bit (i * 8) (ucast v)) inp"

definition cfu_encode_t :: "'a::len word \<Rightarrow> FILE \<Rightarrow> int \<times> FILE" where
  "cfu_encode_t value f = cfu_encode_loop (LENGTH('a) div 8) value f"

definition cfu_decode_t :: "byte list \<Rightarrow> int \<times> 'a::len word \<times> byte list" where
  "cfu_decode_t inp = cfu_decode_loop (LENGTH('a) div 8) 0 inp"

definition camel_file_util_encode_time_t :: "64 word \<Rightarrow> FILE \<Rightarrow> int \<times> FILE" where
  "camel_file_util_encode_time_t = cfu_encode_t"

definition camel_file_util_decode_time_t :: "byte list \<Rightarrow> int \<times> 64 word \<times> byte list" where
  "camel_file_util_decode_time_t = cfu_decode_t"

definition camel_file_util_encode_off_t :: "64 word \<Rightarrow> FILE \<Rightarrow> int \<times> FILE" where
  "camel_file_util_encode_off_t = cfu_encode_t"

definition camel_file_util_decode_off_t :: "byte list \<Rightarrow> int \<times> 64 word \<times> byte list" where
  "camel_file_util_decode_off_t = cfu_decode_t"

definition camel_file_util_encode_size_t :: "64 word \<Rightarrow> FILE \<Rightarrow> int \<times> FILE" where
  "camel_file_util_encode_size_t = cfu_encode_t"

definition camel_file_util_decode_size_t :: "byte list \<Rightarrow> int \<times> 64 word \<times> byte list" where
  "camel_file_util_decode_size_t = cfu_decode_t"

section \<open>Strings\<close>

definition camel_file_util_encode_string :: "byte list option \<Rightarrow> FILE \<Rightarrow> int \<times> FILE" where
  "camel_file_util_encode_string str f =
     (case str of
        None \<Rightarrow> camel_file_util_encode_uint32 1 f
      | Some s \<Rightarrow>
          (let len = min (length s) 65536
           in case camel_file_util_encode_uint32 (of_nat (len + 1)) f of
                (r, f) \<Rightarrow>
                  (if r = -1 then (-1, f)
                   else if len = 0 then (0, f)
                   else (case fwrite1 (take len s) f of (r, f) \<Rightarrow> (if r = 1 then 0 else -1, f)))))"

definition camel_file_util_decode_string :: "byte list \<Rightarrow> int \<times> byte list option \<times> byte list" where
  "camel_file_util_decode_string inp =
     (case camel_file_util_decode_uint32 inp of
        (r, len, inp) \<Rightarrow>
          (if r = -1 then (-1, None, inp)
           else (let len = len - 1
                 in if len > 65536 then (-1, None, inp)
                    else if len > 0 then
                      (case fread1 (unat len) inp of
                         (None, inp) \<Rightarrow> (-1, None, inp)
                       | (Some ret, inp) \<Rightarrow> (0, Some ret, inp))
                    else (0, Some [], inp))))"

text \<open>
  The string of a fixed length is padded with NULs; \<^verbatim>\<open>g_strlcpy\<close> copies at most \<^verbatim>\<open>len - 1\<close> octets. The
  result of \<^verbatim>\<open>fwrite\<close>, the number of items, is compared with \<^verbatim>\<open>len\<close>.
\<close>

definition camel_file_util_encode_fixed_string :: "byte list \<Rightarrow> nat \<Rightarrow> FILE \<Rightarrow> int \<times> FILE" where
  "camel_file_util_encode_fixed_string str len f =
     (if len < 1 then (-1, f)
      else (let len = (if len > 65536 then 65536 else len);
                copied = take (len - 1) str;
                buf = copied @ replicate (len - length copied) 0
            in case fwrite1 buf f of (r, f) \<Rightarrow> (if r = int len then 0 else -1, f)))"

definition camel_file_util_decode_fixed_string :: "nat \<Rightarrow> byte list \<Rightarrow> int \<times> byte list option \<times> byte list" where
  "camel_file_util_decode_fixed_string len inp =
     (if len > 65536 then (-1, None, inp)
      else if len > 0 then
        (case fread1 len inp of (None, inp) \<Rightarrow> (-1, None, inp) | (Some ret, inp) \<Rightarrow> (0, Some ret, inp))
      else (0, Some [], inp))"

section \<open>The contract of a codec\<close>

text \<open>
  A codec appends to the file, and what a successful call has appended is read back, whatever follows
  it in the file. Sequences of values, as a summary stores them, are then read back as well.
\<close>

fun write_all :: "('v \<Rightarrow> FILE \<Rightarrow> int \<times> FILE) \<Rightarrow> 'v list \<Rightarrow> FILE \<Rightarrow> FILE option" where
  "write_all enc [] f = Some f"
| "write_all enc (v # vs) f = (case enc v f of (r, f) \<Rightarrow> if r = -1 then None else write_all enc vs f)"

fun read_all :: "(byte list \<Rightarrow> int \<times> 'v \<times> byte list) \<Rightarrow> nat \<Rightarrow> byte list \<Rightarrow> ('v list \<times> byte list) option" where
  "read_all dec 0 inp = Some ([], inp)"
| "read_all dec (Suc n) inp =
     (case dec inp of (r, v, inp) \<Rightarrow>
        if r = -1 then None else map_option (\<lambda>(vs, inp). (v # vs, inp)) (read_all dec n inp))"

locale file_codec =
  fixes enc :: "'v \<Rightarrow> FILE \<Rightarrow> int \<times> FILE" and dec :: "byte list \<Rightarrow> int \<times> 'v \<times> byte list" and ok :: "'v \<Rightarrow> bool"
  assumes enc_dec: "enc v f = (r, f') \<Longrightarrow> r \<noteq> -1 \<Longrightarrow> ok v \<Longrightarrow>
      \<exists>bs. f_data f' = f_data f @ bs \<and> (\<forall>rest. dec (bs @ rest) = (0, v, rest))"
begin

lemma write_read_all:
  assumes "write_all enc vs f = Some f'" "\<forall>v \<in> set vs. ok v"
  shows "\<exists>bs. f_data f' = f_data f @ bs \<and> (\<forall>rest. read_all dec (length vs) (bs @ rest) = Some (vs, rest))"
  using assms
proof (induction vs arbitrary: f)
  case (Cons v vs)
  obtain r g where e: "enc v f = (r, g)" by fastforce
  then have r: "r \<noteq> -1" "write_all enc vs g = Some f'" using Cons.prems by (auto split: if_splits)
  obtain bs where "f_data g = f_data f @ bs" "\<forall>rest. dec (bs @ rest) = (0, v, rest)"
    using enc_dec [OF e r(1)] Cons.prems by auto
  moreover obtain cs where "f_data f' = f_data g @ cs" "\<forall>rest. read_all dec (length vs) (cs @ rest) = Some (vs, rest)"
    using Cons.IH [OF r(2)] Cons.prems by auto
  ultimately show ?case by (intro exI [of _ "bs @ cs"]) simp
qed simp

end

section \<open>Integers in groups of seven bits\<close>

lemma fputc_ok: "fputc c f = (r, f') \<Longrightarrow> r \<noteq> -1 \<Longrightarrow> f_data f' = f_data f @ [c]"
  by (auto simp: fputc_def split: if_splits)

fun uint32_bytes :: "guint32 \<Rightarrow> nat list \<Rightarrow> byte list" where
  "uint32_bytes value [] = [ucast (value OR 0x80)]"
| "uint32_bytes value (i # is) =
     (if value \<ge> push_bit i 1 then [ucast (drop_bit i value AND 0x7f)] else []) @ uint32_bytes value is"

lemma encode_uint32_bytes:
  "encode_uint32_loop value is f = (r, f') \<Longrightarrow> r \<noteq> -1 \<Longrightarrow> f_data f' = f_data f @ uint32_bytes value is"
proof (induction "is" arbitrary: f)
  case Nil
  then show ?case by (simp add: fputc_ok)
next
  case (Cons i "is")
  show ?case
  proof (cases "value \<ge> push_bit i 1")
    case True
    obtain s g where g: "fputc (ucast (drop_bit i value AND 0x7f)) f = (s, g)" by fastforce
    then have "s \<noteq> -1" "encode_uint32_loop value is g = (r, f')" using True Cons.prems by (auto split: if_splits)
    then show ?thesis using True Cons.IH [of g] Cons.prems(2) fputc_ok [OF g] by simp
  qed (use Cons in simp)
qed

lemma fputc_fails: "fst (fputc c f) = -1 \<longleftrightarrow> f_room f = 0" "f_room (snd (fputc c f)) = f_room f - 1"
proof -
  have "uint c \<noteq> -1" using uint_ge_0 [of c] by linarith
  then show "fst (fputc c f) = -1 \<longleftrightarrow> f_room f = 0" "f_room (snd (fputc c f)) = f_room f - 1" by (auto simp: fputc_def)
qed

lemma encode_uint32_fails: "fst (encode_uint32_loop v is f) = -1 \<longleftrightarrow> f_room f < length (uint32_bytes v is)"
proof (induction "is" arbitrary: f)
  case Nil
  then show ?case by (simp add: fputc_fails)
next
  case (Cons i "is")
  have "uint32_bytes v is \<noteq> []" by (induction "is") auto
  then show ?case using Cons.IH fputc_fails [of "ucast (drop_bit i v AND 0x7f)" f]
    by (auto simp: case_prod_unfold less_diff_conv)
qed

lemma decode_group:
  "decode_uint32_loop acc (ucast (x AND 0x7f :: guint32) # inp) = decode_uint32_loop (push_bit 7 (acc OR (x AND 0x7f))) inp"
proof -
  have "(ucast (x AND 0x7f) :: byte) AND 0x80 = 0" by (rule bit_eqI) (auto simp: bit_simps mask_numerals)
  moreover have "ucast (ucast (x AND 0x7f) :: byte) = x AND 0x7f" by (rule bit_eqI) (auto simp: bit_simps mask_numerals)
  ultimately show ?thesis by simp
qed

lemma decode_last:
  "decode_uint32_loop acc (ucast (x OR 0x80 :: guint32) # inp) = (0, acc OR (x AND 0x7f), inp)"
proof -
  have "bit ((ucast (x OR 0x80) :: byte) AND 0x80) 7" by (simp add: bit_simps)
  then have "(ucast (x OR 0x80) :: byte) AND 0x80 \<noteq> 0" by auto
  moreover have "ucast ((ucast (x OR 0x80) :: byte) AND 0x7f) = x AND 0x7f" by (rule bit_eqI) (auto simp: bit_simps mask_numerals)
  ultimately show ?thesis by simp
qed

lemma uint32_groups:
  fixes v :: guint32
  shows "push_bit 7 (push_bit 7 (push_bit 7 (push_bit 7 (drop_bit 28 v AND 0x7f) OR (drop_bit 21 v AND 0x7f))
    OR (drop_bit 14 v AND 0x7f)) OR (drop_bit 7 v AND 0x7f)) OR (v AND 0x7f) = v"
proof (rule bit_word_eqI)
  fix n :: nat
  assume "n < LENGTH(32)"
  then consider "n < 7" | "7 \<le> n" "n < 14" | "14 \<le> n" "n < 21" | "21 \<le> n" "n < 28" | "28 \<le> n" "n < 32" by fastforce
  then show "bit (push_bit 7 (push_bit 7 (push_bit 7 (push_bit 7 (drop_bit 28 v AND 0x7f) OR (drop_bit 21 v AND 0x7f))
    OR (drop_bit 14 v AND 0x7f)) OR (drop_bit 7 v AND 0x7f)) OR (v AND 0x7f)) n = bit v n"
    by cases (auto simp: bit_simps mask_numerals)
qed

text \<open>A group that is not written is zero, and a leading zero group does not change the result.\<close>

lemma skipped_group:
  fixes v :: guint32
  assumes "\<not> v \<ge> push_bit i 1" "i < 32"
  shows "drop_bit i v = 0"
proof -
  have "v < 2 ^ i" using assms(1) by (simp add: push_bit_eq_mult not_le)
  from word_less_bits [OF this] show ?thesis by (intro bit_eqI) (simp add: bit_simps)
qed

lemma decode_uint32_bytes: "camel_file_util_decode_uint32 (uint32_bytes v [28, 21, 14, 7] @ rest) = (0, v, rest)"
proof -
  let ?g = "\<lambda>i. ucast (drop_bit i v AND 0x7f) :: byte"
  have z: "decode_uint32_loop 0 (ucast (0 AND 0x7f :: guint32) # inp) = decode_uint32_loop 0 inp" for inp by simp
  have mono: "v \<ge> push_bit 28 1 \<Longrightarrow> v \<ge> push_bit 21 1" "v \<ge> push_bit 21 1 \<Longrightarrow> v \<ge> push_bit 14 1"
      "v \<ge> push_bit 14 1 \<Longrightarrow> v \<ge> push_bit 7 1"
    by (simp_all add: word_le_nat_alt)
  have "decode_uint32_loop 0 (uint32_bytes v [28, 21, 14, 7] @ rest)
      = decode_uint32_loop 0 (?g 28 # ?g 21 # ?g 14 # ?g 7 # ucast (v OR 0x80) # rest)"
    using z skipped_group [where v = v] mono by (auto simp del: decode_uint32_loop.simps)
  also have "\<dots> = (0, v, rest)" unfolding decode_group decode_last using uint32_groups [of v] by simp
  finally show ?thesis by (simp add: camel_file_util_decode_uint32_def)
qed

interpretation uint32_codec: file_codec camel_file_util_encode_uint32 camel_file_util_decode_uint32 "\<lambda>_. True"
proof
  fix v f r f'
  assume "camel_file_util_encode_uint32 v f = (r, f')" "r \<noteq> -1"
  then show "\<exists>bs. f_data f' = f_data f @ bs \<and> (\<forall>rest. camel_file_util_decode_uint32 (bs @ rest) = (0, v, rest))"
    using encode_uint32_bytes decode_uint32_bytes by (metis camel_file_util_encode_uint32_def)
qed

section \<open>Integers of a fixed width\<close>

lemma fwrite1_ok: "fwrite1 buf f = (1, f') \<Longrightarrow> f_data f' = f_data f @ buf"
  by (auto simp: fwrite1_def split: if_splits)

lemma ntohl_htonl: "ntohl_bytes (htonl_bytes v) = v"
proof (rule bit_word_eqI)
  fix n :: nat
  assume "n < LENGTH(32)"
  then consider "n < 8" | "8 \<le> n" "n < 16" | "16 \<le> n" "n < 24" | "24 \<le> n" "n < 32" by fastforce
  then show "bit (ntohl_bytes (htonl_bytes v)) n = bit v n"
    by cases (auto simp: ntohl_bytes_def htonl_bytes_def bit_simps)
qed

interpretation fixed_int32_codec:
  file_codec camel_file_util_encode_fixed_int32 "camel_file_util_decode_fixed_int32 dest" "\<lambda>_. True" for dest
proof
  fix v f r f'
  assume "camel_file_util_encode_fixed_int32 v f = (r, f')" "r \<noteq> -1"
  then have "fwrite1 (htonl_bytes v) f = (1, f')"
    by (auto simp: camel_file_util_encode_fixed_int32_def split: prod.splits if_splits)
  from fwrite1_ok [OF this]
  show "\<exists>bs. f_data f' = f_data f @ bs \<and> (\<forall>rest. camel_file_util_decode_fixed_int32 dest (bs @ rest) = (0, v, rest))"
    using ntohl_htonl by (auto simp: camel_file_util_decode_fixed_int32_def fread1_def htonl_bytes_def)
qed

fun cfu_bytes :: "nat \<Rightarrow> 'a::len word \<Rightarrow> byte list" where
  "cfu_bytes 0 v = []"
| "cfu_bytes (Suc i) v = ucast (drop_bit (i * 8) v AND 0xff) # cfu_bytes i v"

lemma cfu_encode_bytes: "cfu_encode_loop n v f = (r, f') \<Longrightarrow> r \<noteq> -1 \<Longrightarrow> f_data f' = f_data f @ cfu_bytes n v"
proof (induction n arbitrary: f)
  case (Suc i)
  obtain s g where g: "fputc (ucast (drop_bit (i * 8) v AND 0xff)) f = (s, g)" by fastforce
  then have "s \<noteq> -1" "cfu_encode_loop i v g = (r, f')" using Suc.prems by (auto split: if_splits)
  then show ?case using Suc.IH [of g] Suc.prems(2) fputc_ok [OF g] by simp
qed simp

lemma cfu_byte_step:
  fixes v :: "'a::len word"
  shows "push_bit (i * 8) (ucast (ucast (drop_bit (i * 8) v AND 0xff) :: byte)) OR (v AND mask (i * 8)) = v AND mask (Suc i * 8)"
proof (rule bit_word_eqI)
  fix n
  assume "n < LENGTH('a)"
  then show "bit (push_bit (i * 8) (ucast (ucast (drop_bit (i * 8) v AND 0xff) :: byte)) OR (v AND mask (i * 8))) n
      = bit (v AND mask (Suc i * 8)) n"
    by (cases "n < i * 8") (auto simp: bit_simps mask_numerals)
qed

lemma cfu_decode_bytes:
  fixes v :: "'a::len word"
  shows "cfu_decode_loop n save (cfu_bytes n v @ rest) = (0, save OR (v AND mask (n * 8)), rest)"
proof (induction n arbitrary: save)
  case (Suc i)
  then show ?case using cfu_byte_step [of i v] by (simp add: or.assoc)
qed simp

lemma cfu_round_trip:
  fixes v :: "'a::len word"
  assumes "cfu_encode_t v f = (r, f')" "r \<noteq> -1" "8 dvd LENGTH('a)"
  shows "\<exists>bs. f_data f' = f_data f @ bs \<and> (\<forall>rest. cfu_decode_t (bs @ rest) = (0, v, rest))"
proof -
  have "LENGTH('a) div 8 * 8 = LENGTH('a)" using assms(3) by simp
  then have "v AND mask (LENGTH('a) div 8 * 8) = v" by (intro bit_word_eqI) (simp add: bit_simps)
  then show ?thesis using cfu_encode_bytes [OF assms(1) [unfolded cfu_encode_t_def] assms(2)] cfu_decode_bytes [of _ 0 v]
    by (auto simp: cfu_decode_t_def)
qed

interpretation time_t_codec: file_codec camel_file_util_encode_time_t camel_file_util_decode_time_t "\<lambda>_. True"
  unfolding camel_file_util_encode_time_t_def camel_file_util_decode_time_t_def
  by unfold_locales (rule cfu_round_trip, auto)

interpretation off_t_codec: file_codec camel_file_util_encode_off_t camel_file_util_decode_off_t "\<lambda>_. True"
  unfolding camel_file_util_encode_off_t_def camel_file_util_decode_off_t_def
  by unfold_locales (rule cfu_round_trip, auto)

interpretation size_t_codec: file_codec camel_file_util_encode_size_t camel_file_util_decode_size_t "\<lambda>_. True"
  unfolding camel_file_util_encode_size_t_def camel_file_util_decode_size_t_def
  by unfold_locales (rule cfu_round_trip, auto)

section \<open>Strings\<close>

definition string_ok :: "byte list option \<Rightarrow> bool" where
  "string_ok str \<longleftrightarrow> (\<exists>s. str = Some s \<and> length s \<le> 65536)"

lemma string_length_word:
  assumes "n \<le> 65536"
  shows "(of_nat (n + 1) :: guint32) - 1 = of_nat n" "unat (of_nat n :: guint32) = n" "\<not> (of_nat n :: guint32) > 65536"
  using assms by (simp_all add: unat_of_nat take_bit_eq_mod word_less_nat_alt)

interpretation string_codec: file_codec camel_file_util_encode_string camel_file_util_decode_string string_ok
proof
  fix v f r f'
  assume a: "camel_file_util_encode_string v f = (r, f')" "r \<noteq> -1" "string_ok v"
  then obtain s where s: "v = Some s" "length s \<le> 65536" by (auto simp: string_ok_def)
  obtain q g where g: "camel_file_util_encode_uint32 (of_nat (length s + 1)) f = (q, g)" by fastforce
  then have q: "q \<noteq> -1" using a s by (auto simp: camel_file_util_encode_string_def min_absorb1 Let_def split: if_splits)
  obtain bs where bs: "f_data g = f_data f @ bs" "\<forall>rest. camel_file_util_decode_uint32 (bs @ rest) = (0, of_nat (length s + 1), rest)"
    using uint32_codec.enc_dec [OF g q] by auto
  have w: "f_data f' = f_data g @ s"
    using a s g q by (auto simp: camel_file_util_encode_string_def min_absorb1 Let_def dest: fwrite1_ok split: if_splits prod.splits)
  have "camel_file_util_decode_string (bs @ s @ rest) = (0, Some s, rest)" for rest
  proof (cases "s = []")
    case True
    then show ?thesis using bs(2) by (simp add: camel_file_util_decode_string_def)
  next
    case False
    then have "(of_nat (length s) :: guint32) > 0" using string_length_word(2) [OF s(2)] by (simp add: word_less_nat_alt)
    then show ?thesis using bs(2) string_length_word [OF s(2)]
      by (simp add: camel_file_util_decode_string_def Let_def fread1_def)
  qed
  then show "\<exists>bs. f_data f' = f_data f @ bs \<and> (\<forall>rest. camel_file_util_decode_string (bs @ rest) = (0, v, rest))"
    using bs(1) w s(1) by (intro exI [of _ "bs @ s"]) simp
qed

section \<open>Properties\<close>

text \<open>
  Numbers written with \<^verbatim>\<open>camel_file_util_encode_uint32\<close> are read back: when the calls for a sequence
  of values succeed, decoding what they appended gives the values, whatever follows in the file.
\<close>

theorem uint32_read_back:
  assumes "write_all camel_file_util_encode_uint32 vs f = Some f'"
  shows "\<exists>bs. f_data f' = f_data f @ bs
    \<and> (\<forall>rest. read_all camel_file_util_decode_uint32 (length vs) (bs @ rest) = Some (vs, rest))"
  using assms by (rule uint32_codec.write_read_all) simp

definition empty_file :: FILE where
  "empty_file = \<lparr>f_data = [], f_room = 1000\<rparr>"

theorem uint32_read_back_witness:
  "write_all camel_file_util_encode_uint32 [5, 300, 0xffffffff] empty_file =
     Some \<lparr>f_data = [0x85, 2, 0xac, 0xf, 0x7f, 0x7f, 0x7f, 0xff], f_room = 992\<rparr>
   \<and> read_all camel_file_util_decode_uint32 3 ([0x85, 2, 0xac, 0xf, 0x7f, 0x7f, 0x7f, 0xff] @ [7]) = Some ([5, 300, 0xffffffff], [7])"
proof -
  have w: "write_all camel_file_util_encode_uint32 [5, 300, 0xffffffff] empty_file =
      Some \<lparr>f_data = [0x85, 2, 0xac, 0xf, 0x7f, 0x7f, 0x7f, 0xff], f_room = 992\<rparr>" by code_simp
  from uint32_read_back [OF w] show ?thesis using w
    by (simp add: empty_file_def numeral_3_eq_3 del: read_all.simps write_all.simps)
qed

text \<open>
  Strings of at most 65536 octets that were written with \<^verbatim>\<open>camel_file_util_encode_string\<close> are read back.
\<close>

theorem strings_read_back:
  assumes "write_all camel_file_util_encode_string (map Some ss) f = Some f'" "\<forall>s \<in> set ss. length s \<le> 65536"
  shows "\<exists>bs. f_data f' = f_data f @ bs
    \<and> (\<forall>rest. read_all camel_file_util_decode_string (length ss) (bs @ rest) = Some (map Some ss, rest))"
  using string_codec.write_read_all [OF assms(1)] assms(2) by (simp add: string_ok_def)

theorem strings_read_back_witness:
  "write_all camel_file_util_encode_string (map Some [[0x41, 0x42], []]) empty_file =
     Some \<lparr>f_data = [0x83, 0x41, 0x42, 0x81], f_room = 996\<rparr>
   \<and> read_all camel_file_util_decode_string 2 ([0x83, 0x41, 0x42, 0x81] @ [0]) = Some ([Some [0x41, 0x42], Some []], [0])"
proof -
  have w: "write_all camel_file_util_encode_string (map Some [[0x41, 0x42], []]) empty_file =
      Some \<lparr>f_data = [0x83, 0x41, 0x42, 0x81], f_room = 996\<rparr>"
    by (simp add: camel_file_util_encode_string_def camel_file_util_encode_uint32_def fputc_def fwrite1_def empty_file_def word_le_nat_alt)
  have "\<forall>s \<in> set [[0x41, 0x42], [] :: byte list]. length s \<le> 65536" by simp
  from strings_read_back [OF w this] show ?thesis using w
    by (simp add: empty_file_def numeral_2_eq_2 del: read_all.simps write_all.simps)
qed

text \<open>
  The codecs of fixed width are lossless in the same sense: 32-bit integers in network order, and
  \<^verbatim>\<open>time_t\<close>, \<^verbatim>\<open>off_t\<close> and \<^verbatim>\<open>size_t\<close>.
\<close>

theorem fixed_width_read_back:
  assumes "write_all camel_file_util_encode_fixed_int32 is f = Some f1"
    "write_all camel_file_util_encode_time_t ts f1 = Some f2"
    "write_all camel_file_util_encode_off_t os f2 = Some f3"
    "write_all camel_file_util_encode_size_t ss f3 = Some f4"
  shows "\<exists>bi bt bo bs. f_data f4 = f_data f @ bi @ bt @ bo @ bs
    \<and> (\<forall>rest. read_all (camel_file_util_decode_fixed_int32 dest) (length is) (bi @ rest) = Some (is, rest)
        \<and> read_all camel_file_util_decode_time_t (length ts) (bt @ rest) = Some (ts, rest)
        \<and> read_all camel_file_util_decode_off_t (length os) (bo @ rest) = Some (os, rest)
        \<and> read_all camel_file_util_decode_size_t (length ss) (bs @ rest) = Some (ss, rest))"
proof -
  obtain bi bt bo bs where "f_data f1 = f_data f @ bi" "f_data f2 = f_data f1 @ bt" "f_data f3 = f_data f2 @ bo" "f_data f4 = f_data f3 @ bs"
      "\<forall>rest. read_all (camel_file_util_decode_fixed_int32 dest) (length is) (bi @ rest) = Some (is, rest)"
      "\<forall>rest. read_all camel_file_util_decode_time_t (length ts) (bt @ rest) = Some (ts, rest)"
      "\<forall>rest. read_all camel_file_util_decode_off_t (length os) (bo @ rest) = Some (os, rest)"
      "\<forall>rest. read_all camel_file_util_decode_size_t (length ss) (bs @ rest) = Some (ss, rest)"
    using fixed_int32_codec.write_read_all [OF assms(1), of dest] time_t_codec.write_read_all [OF assms(2)]
      off_t_codec.write_read_all [OF assms(3)] size_t_codec.write_read_all [OF assms(4)] by auto
  moreover from this have "f_data f4 = f_data f @ bi @ bt @ bo @ bs" by simp
  ultimately show ?thesis by blast
qed

theorem fixed_width_read_back_witness:
  "\<exists>f1 f2 f3 f4. write_all camel_file_util_encode_fixed_int32 [0xfffffffe] empty_file = Some f1
    \<and> write_all camel_file_util_encode_time_t [1100000000] f1 = Some f2
    \<and> write_all camel_file_util_encode_off_t [7] f2 = Some f3 \<and> write_all camel_file_util_encode_size_t [] f3 = Some f4
    \<and> (\<exists>bi bt bo bs. f_data f4 = f_data empty_file @ bi @ bt @ bo @ bs
        \<and> (\<forall>rest. read_all (camel_file_util_decode_fixed_int32 0) 1 (bi @ rest) = Some ([0xfffffffe], rest)
            \<and> read_all camel_file_util_decode_time_t 1 (bt @ rest) = Some ([1100000000], rest)
            \<and> read_all camel_file_util_decode_off_t 1 (bo @ rest) = Some ([7], rest)
            \<and> read_all camel_file_util_decode_size_t 0 (bs @ rest) = Some ([], rest)))"
proof -
  let ?f1 = "\<lparr>f_data = [0xff, 0xff, 0xff, 0xfe], f_room = 996\<rparr>"
  let ?f2 = "\<lparr>f_data = [0xff, 0xff, 0xff, 0xfe, 0, 0, 0, 0, 0x41, 0x90, 0xab, 0], f_room = 988\<rparr>"
  let ?f3 = "\<lparr>f_data = [0xff, 0xff, 0xff, 0xfe, 0, 0, 0, 0, 0x41, 0x90, 0xab, 0, 0, 0, 0, 0, 0, 0, 0, 7], f_room = 980\<rparr>"
  have w: "write_all camel_file_util_encode_fixed_int32 [0xfffffffe] empty_file = Some ?f1"
    "write_all camel_file_util_encode_time_t [1100000000] ?f1 = Some ?f2" "write_all camel_file_util_encode_off_t [7] ?f2 = Some ?f3"
    by code_simp+
  have s: "write_all camel_file_util_encode_size_t [] ?f3 = Some ?f3" by simp
  from fixed_width_read_back [OF w s, of 0] have
    "\<exists>bi bt bo bs. f_data ?f3 = f_data empty_file @ bi @ bt @ bo @ bs
        \<and> (\<forall>rest. read_all (camel_file_util_decode_fixed_int32 0) 1 (bi @ rest) = Some ([0xfffffffe], rest)
            \<and> read_all camel_file_util_decode_time_t 1 (bt @ rest) = Some ([1100000000], rest)
            \<and> read_all camel_file_util_decode_off_t 1 (bo @ rest) = Some ([7], rest)
            \<and> read_all camel_file_util_decode_size_t 0 (bs @ rest) = Some ([], rest))"
    by (simp only: list.size add_0 One_nat_def)
  with w s show ?thesis by blast
qed

text \<open>
  A number takes one octet for every seven bits it needs, one to five of them, and encoding it
  fails exactly if the file has no room for them.
\<close>

theorem uint32_write_error:
  "fst (camel_file_util_encode_uint32 v f) = -1 \<longleftrightarrow>
     f_room f < (if v < 0x80 then 1 else if v < 0x4000 then 2 else if v < 0x200000 then 3 else if v < 0x10000000 then 4 else 5)"
proof -
  let ?n = "length (uint32_bytes v [28, 21, 14, 7])"
  have "?n = (if v < 0x80 then 1 else if v < 0x4000 then 2 else if v < 0x200000 then 3 else if v < 0x10000000 then 4 else 5)"
    by (auto simp: not_le word_less_nat_alt word_le_nat_alt)
  then show ?thesis using encode_uint32_fails [of v "[28, 21, 14, 7]" f] by (simp add: camel_file_util_encode_uint32_def)
qed

text \<open>
  Writing a string of a fixed length of two or more octets reports an error even if all of it has
  been written: the padded string is in the file, and reading it back succeeds.
\<close>

theorem fixed_string_reports_error:
  assumes "1 < len" "len \<le> 65536" "len \<le> f_room f" "0 \<notin> set str"
  shows "\<exists>f' buf. camel_file_util_encode_fixed_string str len f = (-1, f') \<and> f_data f' = f_data f @ buf
    \<and> takeWhile (\<lambda>b. b \<noteq> 0) buf = take (len - 1) str
    \<and> (\<forall>rest. camel_file_util_decode_fixed_string len (buf @ rest) = (0, Some buf, rest))"
proof -
  let ?c = "take (len - 1) str"
  let ?buf = "?c @ replicate (len - length ?c) 0"
  have "length ?buf = len" using assms(1) by simp
  moreover have "takeWhile (\<lambda>b. b \<noteq> 0) ?buf = ?c"
    using assms(4) by (subst takeWhile_append2) (auto dest: in_set_takeD simp: takeWhile_eq_Nil_iff)
  ultimately show ?thesis using assms(1-3)
    by (intro exI [of _ "f\<lparr>f_data := f_data f @ ?buf, f_room := f_room f - len\<rparr>"] exI [of _ ?buf])
      (simp add: camel_file_util_encode_fixed_string_def camel_file_util_decode_fixed_string_def fwrite1_def fread1_def)
qed

theorem fixed_string_reports_error_witness:
  "\<exists>f' buf. camel_file_util_encode_fixed_string [0x41, 0x42] 4 empty_file = (-1, f') \<and> f_data f' = f_data empty_file @ buf
    \<and> takeWhile (\<lambda>b. b \<noteq> 0) buf = [0x41, 0x42]
    \<and> (\<forall>rest. camel_file_util_decode_fixed_string 4 (buf @ rest) = (0, Some buf, rest))"
  using fixed_string_reports_error [of 4 empty_file "[0x41, 0x42]"] by (simp add: empty_file_def)

end
