(* ===== verification/Camel_List_Utils.thy ===== *)
theory Camel_List_Utils
  imports Main "HOL-Library.Multiset"
begin

text \<open>
  The intrusive lists of \<^verbatim>\<open>camel/camel-list-utils.c\<close>. The code relies on the layout of the structures:
  the header of a doubly linked list holds three pointers, and the first two and the last two of them
  are used as list nodes at the ends of the list. The model is therefore a memory of pointer cells:
  a \<^verbatim>\<open>CamelDListNode\<close> at address \<open>n\<close> has \<^verbatim>\<open>next\<close> in cell \<open>n\<close> and \<^verbatim>\<open>prev\<close> in cell \<open>n + 1\<close>,
  a \<^verbatim>\<open>CamelDList\<close> at \<open>l\<close> has \<^verbatim>\<open>head\<close>, \<^verbatim>\<open>tail\<close> and \<^verbatim>\<open>tailpred\<close> in the cells \<open>l\<close>, \<open>l + 1\<close>
  and \<open>l + 2\<close>, and the casts \<^verbatim>\<open>(CamelDListNode *)&l->tail\<close> are the addresses. The null pointer is 0.
  A singly linked list has one cell for the header and one for each node. The operations are shown
  to implement lists of nodes, through one interface for both kinds.
\<close>

type_synonym addr = nat
type_synonym mem = "addr \<Rightarrow> addr"

section \<open>Doubly linked lists\<close>

definition camel_dlist_init :: "addr \<Rightarrow> mem \<Rightarrow> mem" where
  "camel_dlist_init v m = m(v := v + 1, v + 1 := 0, v + 2 := v)"

definition camel_dlist_addhead :: "addr \<Rightarrow> addr \<Rightarrow> mem \<Rightarrow> mem" where
  "camel_dlist_addhead l n m =
     (let m = m(n := m l);
          m = m(n + 1 := l);
          m = m(m l + 1 := n)
      in m(l := n))"

definition camel_dlist_addtail :: "addr \<Rightarrow> addr \<Rightarrow> mem \<Rightarrow> mem" where
  "camel_dlist_addtail l n m =
     (let m = m(n := l + 1);
          m = m(n + 1 := m (l + 2));
          m = m(m (l + 2) := n)
      in m(l + 2 := n))"

definition camel_dlist_remove :: "addr \<Rightarrow> mem \<Rightarrow> mem" where
  "camel_dlist_remove n m =
     (let m = m(m n + 1 := m (n + 1))
      in m(m (n + 1) := m n))"

definition camel_dlist_remhead :: "addr \<Rightarrow> mem \<Rightarrow> addr option \<times> mem" where
  "camel_dlist_remhead l m =
     (let n = m l; nn = m n
      in if nn \<noteq> 0
         then (let m = m(nn + 1 := m (n + 1)) in (Some n, m(l := nn)))
         else (None, m))"

definition camel_dlist_remtail :: "addr \<Rightarrow> mem \<Rightarrow> addr option \<times> mem" where
  "camel_dlist_remtail l m =
     (let n = m (l + 2); np = m (n + 1)
      in if np \<noteq> 0
         then (let m = m(np := m n) in (Some n, m(l + 2 := np)))
         else (None, m))"

definition camel_dlist_empty :: "addr \<Rightarrow> mem \<Rightarrow> bool" where
  "camel_dlist_empty l m \<longleftrightarrow> m l = l + 1"

partial_function (option) dlist_length_loop :: "mem \<Rightarrow> addr \<Rightarrow> nat \<Rightarrow> nat option" where
  "dlist_length_loop m nn cnt =
     (if nn \<noteq> 0 then dlist_length_loop m (m nn) (cnt + 1) else Some cnt)"

definition camel_dlist_length :: "addr \<Rightarrow> mem \<Rightarrow> nat option" where
  "camel_dlist_length l m = (let n = m l in dlist_length_loop m (m n) 0)"

section \<open>Singly linked lists\<close>

definition camel_slist_init :: "addr \<Rightarrow> mem \<Rightarrow> mem" where
  "camel_slist_init v m = m(v := 0)"

definition camel_slist_addhead :: "addr \<Rightarrow> addr \<Rightarrow> mem \<Rightarrow> mem" where
  "camel_slist_addhead l n m = (let m = m(n := m l) in m(l := n))"

partial_function (option) slist_last_loop :: "mem \<Rightarrow> addr \<Rightarrow> addr option" where
  "slist_last_loop m p = (if m p \<noteq> 0 then slist_last_loop m (m p) else Some p)"

definition camel_slist_addtail :: "addr \<Rightarrow> addr \<Rightarrow> mem \<Rightarrow> mem option" where
  "camel_slist_addtail l n m = map_option (\<lambda>p. let m = m(n := 0) in m(p := n)) (slist_last_loop m l)"

partial_function (option) slist_remove_loop :: "mem \<Rightarrow> addr \<Rightarrow> addr \<Rightarrow> (addr option \<times> mem) option" where
  "slist_remove_loop m n p =
     (let q = m p
      in if q \<noteq> 0 then (if q = n then Some (Some n, m(p := m n)) else slist_remove_loop m n q)
         else Some (None, m))"

definition camel_slist_remove :: "addr \<Rightarrow> addr \<Rightarrow> mem \<Rightarrow> (addr option \<times> mem) option" where
  "camel_slist_remove l n m = slist_remove_loop m n l"

definition camel_slist_remhead :: "addr \<Rightarrow> mem \<Rightarrow> addr option \<times> mem" where
  "camel_slist_remhead l m = (let n = m l in if n \<noteq> 0 then (Some n, m(l := m n)) else (None, m))"

partial_function (option) slist_remtail_loop :: "mem \<Rightarrow> addr \<Rightarrow> addr \<Rightarrow> (addr \<times> addr) option" where
  "slist_remtail_loop m p n = (if m n \<noteq> 0 then slist_remtail_loop m n (m n) else Some (p, n))"

definition camel_slist_remtail :: "addr \<Rightarrow> mem \<Rightarrow> (addr option \<times> mem) option" where
  "camel_slist_remtail l m =
     (let n = m l
      in if m l = 0 then Some (None, m)
         else map_option (\<lambda>(p, n). (Some n, m(p := 0))) (slist_remtail_loop m l n))"

definition camel_slist_empty :: "addr \<Rightarrow> mem \<Rightarrow> bool" where
  "camel_slist_empty l m \<longleftrightarrow> m l = 0"

partial_function (option) slist_length_loop :: "mem \<Rightarrow> addr \<Rightarrow> nat \<Rightarrow> nat option" where
  "slist_length_loop m n cnt = (if n \<noteq> 0 then slist_length_loop m (m n) (cnt + 1) else Some cnt)"

definition camel_slist_length :: "addr \<Rightarrow> mem \<Rightarrow> nat option" where
  "camel_slist_length l m = slist_length_loop m (m l) 0"

section \<open>The interface\<close>

text \<open>
  What a list header promises: the relation \<open>rep m l ns\<close> says that the list at \<open>l\<close> holds the nodes
  \<open>ns\<close>, \<open>fresh l n\<close> that a node may be added. Any sequence of operations then returns what the
  operations on the list of nodes return.
\<close>

datatype list_op = AddHead addr | AddTail addr | RemNode addr | RemHead | RemTail

fun spec_step :: "list_op \<Rightarrow> addr list \<Rightarrow> addr option \<times> addr list" where
  "spec_step (AddHead n) ns = (Some n, n # ns)"
| "spec_step (AddTail n) ns = (Some n, ns @ [n])"
| "spec_step (RemNode n) ns = (if n \<in> set ns then (Some n, remove1 n ns) else (None, ns))"
| "spec_step RemHead ns = (if ns = [] then (None, []) else (Some (hd ns), tl ns))"
| "spec_step RemTail ns = (if ns = [] then (None, []) else (Some (last ns), butlast ns))"

fun spec_run :: "list_op list \<Rightarrow> addr list \<Rightarrow> addr option list \<times> addr list" where
  "spec_run [] ns = ([], ns)"
| "spec_run (x # xs) ns = (case spec_step x ns of (r, ns) \<Rightarrow> case spec_run xs ns of (rs, ns) \<Rightarrow> (r # rs, ns))"

fun ops_ok :: "(addr list \<Rightarrow> addr \<Rightarrow> bool) \<Rightarrow> list_op list \<Rightarrow> addr list \<Rightarrow> bool" where
  "ops_ok fresh [] ns = True"
| "ops_ok fresh (x # xs) ns =
     ((case x of AddHead n \<Rightarrow> fresh ns n | AddTail n \<Rightarrow> fresh ns n | RemNode n \<Rightarrow> n \<in> set ns | _ \<Rightarrow> True) \<and> ops_ok fresh xs (snd (spec_step x ns)))"

fun run_ops :: "(list_op \<Rightarrow> mem \<Rightarrow> (addr option \<times> mem) option) \<Rightarrow> list_op list \<Rightarrow> mem \<Rightarrow> (addr option list \<times> mem) option" where
  "run_ops step [] m = Some ([], m)"
| "run_ops step (x # xs) m =
     (case step x m of None \<Rightarrow> None | Some (r, m) \<Rightarrow> map_option (\<lambda>(rs, m). (r # rs, m)) (run_ops step xs m))"

locale list_header =
  fixes rep :: "mem \<Rightarrow> addr list \<Rightarrow> bool" and fresh :: "addr list \<Rightarrow> addr \<Rightarrow> bool"
    and step :: "list_op \<Rightarrow> mem \<Rightarrow> (addr option \<times> mem) option"
  assumes step_sim: "rep m ns \<Longrightarrow> ops_ok fresh [x] ns \<Longrightarrow>
      \<exists>m'. step x m = Some (fst (spec_step x ns), m') \<and> rep m' (snd (spec_step x ns))"
begin

lemma run_sim:
  assumes "rep m ns" "ops_ok fresh xs ns"
  shows "\<exists>m'. run_ops step xs m = Some (fst (spec_run xs ns), m') \<and> rep m' (snd (spec_run xs ns))"
  using assms
proof (induction xs arbitrary: m ns)
  case (Cons x xs)
  obtain m1 where m1: "step x m = Some (fst (spec_step x ns), m1)" "rep m1 (snd (spec_step x ns))"
    using step_sim [OF Cons.prems(1), of x] Cons.prems(2) by auto
  then show ?case using Cons.IH [OF m1(2)] Cons.prems(2) by (auto simp: case_prod_unfold)
qed simp

end

section \<open>Linked nodes\<close>

fun linked :: "mem \<Rightarrow> addr list \<Rightarrow> bool" where
  "linked m (a # b # p) \<longleftrightarrow> m a = b \<and> m (Suc b) = a \<and> linked m (b # p)"
| "linked m _ \<longleftrightarrow> True"

text \<open>The cells that hold the links of a path: \<^verbatim>\<open>next\<close> of all but the last, \<^verbatim>\<open>prev\<close> of all but the first.\<close>

definition path_cells :: "addr list \<Rightarrow> addr list" where
  "path_cells p = butlast p @ map Suc (tl p)"

lemma linked_cong:
  "\<forall>c \<in> set (path_cells p). m c = m' c \<Longrightarrow> linked m p \<longleftrightarrow> linked m' p"
  by (induction m p rule: linked.induct) (auto simp: path_cells_def)

lemma linked_append: "linked m (xs @ a # ys) \<longleftrightarrow> linked m (xs @ [a]) \<and> linked m (a # ys)"
proof (induction xs)
  case (Cons x xs)
  then show ?case by (cases xs) auto
qed simp

lemma path_cells_split:
  "path_cells (xs @ a # b # ys) = xs @ a # butlast (b # ys) @ map Suc (tl (xs @ [a])) @ Suc b # map Suc ys"
  "path_cells (xs @ [a]) = xs @ map Suc (tl (xs @ [a]))" "path_cells (b # ys) = butlast (b # ys) @ map Suc ys"
  by (cases xs; simp add: path_cells_def butlast_append)+

lemma path_cells_parts:
  "set (path_cells (xs @ a # b # ys)) =
     set (path_cells (xs @ [a])) \<union> {a, Suc b} \<union> set (path_cells (b # ys))"
  unfolding path_cells_split by (simp only: set_append list.set) blast

lemma distinct_between:
  "distinct (xs @ a # B @ S @ c # Y) \<Longrightarrow> a \<noteq> c \<and> a \<notin> set (xs @ S) \<and> a \<notin> set (B @ Y) \<and> c \<notin> set (xs @ S) \<and> c \<notin> set (B @ Y)"
  by auto

lemma path_cells_distinct:
  assumes "distinct (path_cells (xs @ a # b # ys))"
  shows "a \<noteq> Suc b" "a \<notin> set (path_cells (xs @ [a]))" "a \<notin> set (path_cells (b # ys))"
    "Suc b \<notin> set (path_cells (xs @ [a]))" "Suc b \<notin> set (path_cells (b # ys))"
  using distinct_between [OF assms [unfolded path_cells_split]] unfolding path_cells_split by blast+

lemma linked_upd: "linked m p \<Longrightarrow> x \<notin> set (path_cells p) \<Longrightarrow> linked (m(x := v)) p"
  using linked_cong [of p m "m(x := v)"] by fastforce

lemma linked_insert:
  assumes "linked m (xs @ a # b # ys)" "distinct (path_cells (xs @ a # b # ys))"
    "n \<notin> set (path_cells (xs @ a # b # ys))" "Suc n \<notin> set (path_cells (xs @ a # b # ys))"
  shows "linked (m(n := b, Suc n := a, Suc b := n, a := n)) (xs @ a # n # b # ys)"
proof -
  let ?m = "m(n := b, Suc n := a, Suc b := n, a := n)"
  note d = path_cells_distinct [OF assms(2)]
  have c: "n \<notin> set (path_cells (xs @ [a]))" "n \<notin> set (path_cells (b # ys))" "n \<noteq> a" "n \<noteq> Suc b"
      "Suc n \<notin> set (path_cells (xs @ [a]))" "Suc n \<notin> set (path_cells (b # ys))" "Suc n \<noteq> a" "n \<noteq> b"
    using assms(3,4) unfolding path_cells_parts by blast+
  have l: "linked m (xs @ [a])" "linked m (b # ys)" using assms(1) linked_append [of m xs a "b # ys"] by simp_all
  have "linked ?m (xs @ [a])" by (intro linked_upd l c d)
  moreover have "linked ?m (b # ys)" by (intro linked_upd l c d)
  ultimately show ?thesis using d(1) c linked_append [of ?m xs a "n # b # ys"] by simp
qed

lemma linked_remove:
  assumes "linked m (xs @ a # n # b # ys)" "distinct (path_cells (xs @ a # n # b # ys))"
  shows "linked (m(Suc b := a, a := b)) (xs @ a # b # ys)"
proof -
  let ?m = "m(Suc b := a, a := b)"
  have e: "path_cells (xs @ a # n # b # ys) = path_cells ((xs @ [a]) @ n # b # ys)" by simp
  note d = path_cells_distinct [OF assms(2)] and f = path_cells_distinct [OF assms(2) [unfolded e]]
  have c: "a \<notin> set (path_cells (b # ys))" "a \<noteq> Suc b"
    using d(3) path_cells_parts [of "[]" n b ys] by simp_all
  have c': "Suc b \<notin> set (path_cells (xs @ [a]))"
    using f(4) path_cells_parts [of xs a n "[]"] by simp
  have l: "linked m (xs @ [a])" "linked m (b # ys)" using assms(1) linked_append [of m xs a "n # b # ys"] by simp_all
  have "linked ?m (xs @ [a])" by (intro linked_upd l c' d)
  moreover have "linked ?m (b # ys)" by (intro linked_upd l c f)
  ultimately show ?thesis using c(2) linked_append [of ?m xs a "b # ys"] by simp
qed

section \<open>Doubly linked lists implement lists\<close>

definition dlist_cells :: "addr \<Rightarrow> addr list \<Rightarrow> addr list" where
  "dlist_cells l ns = [l, l + 1, l + 2] @ ns @ map Suc ns"

definition dlist :: "addr \<Rightarrow> mem \<Rightarrow> addr list \<Rightarrow> bool" where
  "dlist l m ns \<longleftrightarrow> linked m (l # ns @ [l + 1]) \<and> m (l + 1) = 0 \<and> distinct (dlist_cells l ns) \<and> 0 \<notin> set (dlist_cells l ns)"

definition dlist_fresh :: "addr \<Rightarrow> addr list \<Rightarrow> addr \<Rightarrow> bool" where
  "dlist_fresh l ns n \<longleftrightarrow> n \<noteq> 0 \<and> n \<notin> set (dlist_cells l ns) \<and> n + 1 \<notin> set (dlist_cells l ns)"

fun dlist_step :: "addr \<Rightarrow> list_op \<Rightarrow> mem \<Rightarrow> (addr option \<times> mem) option" where
  "dlist_step l (AddHead n) m = Some (Some n, camel_dlist_addhead l n m)"
| "dlist_step l (AddTail n) m = Some (Some n, camel_dlist_addtail l n m)"
| "dlist_step l (RemNode n) m = Some (Some n, camel_dlist_remove n m)"
| "dlist_step l RemHead m = Some (camel_dlist_remhead l m)"
| "dlist_step l RemTail m = Some (camel_dlist_remtail l m)"

lemma dlist_path_cells:
  assumes "dlist l m ns"
  shows "distinct (path_cells (l # ns @ [l + 1]))" "Suc l \<notin> set (path_cells (l # ns @ [l + 1]))"
    "x \<notin> set (dlist_cells l ns) \<Longrightarrow> x \<notin> set (path_cells (l # ns @ [l + 1]))"
  using assms by (auto simp: dlist_def dlist_cells_def path_cells_def)

lemma mset_insert_between:
  assumes "add_mset l (add_mset k A) = add_mset a (add_mset b X)"
    "add_mset l (add_mset k A') = add_mset a (add_mset n (add_mset b X))"
  shows "A' = add_mset n A"
proof -
  have "add_mset a (add_mset n (add_mset b X)) = add_mset n (add_mset a (add_mset b X))" by (rule add_mset_commute)
  then have "add_mset l (add_mset k A') = add_mset n (add_mset l (add_mset k A))" using assms by simp
  also have "\<dots> = add_mset l (add_mset k (add_mset n A))" by (metis add_mset_commute)
  finally show ?thesis by simp
qed

lemma path_mset:
  fixes l :: addr
  assumes "l # ns @ [l + 1] = xs @ a # b # ys" "l # ns' @ [l + 1] = xs @ a # n # b # ys"
  shows "mset ns' = add_mset n (mset ns)"
proof (rule mset_insert_between)
  show "add_mset l (add_mset (Suc l) (mset ns)) = add_mset a (add_mset b (mset (xs @ ys)))"
    using arg_cong [OF assms(1), of mset] by simp
  show "add_mset l (add_mset (Suc l) (mset ns')) = add_mset a (add_mset n (add_mset b (mset (xs @ ys))))"
    using arg_cong [OF assms(2), of mset] by simp
qed

lemma path_snoc: "l # ns @ [x] = butlast (l # ns) @ last (l # ns) # x # []"
  using append_butlast_last_id [of "l # ns"] by (metis append_Cons append_assoc append_Nil list.distinct(1))

lemma dlist_insert:
  assumes "dlist l m ns" "dlist_fresh l ns n" "l # ns @ [l + 1] = xs @ a # b # ys" "l # ns' @ [l + 1] = xs @ a # n # b # ys"
  shows "dlist l (m(n := b, Suc n := a, Suc b := n, a := n)) ns'"
proof -
  let ?m = "m(n := b, Suc n := a, Suc b := n, a := n)"
  note c = dlist_path_cells [OF assms(1)]
  have f: "n \<notin> set (path_cells (l # ns @ [l + 1]))" "Suc n \<notin> set (path_cells (l # ns @ [l + 1]))"
    using assms(2) c(3) by (auto simp: dlist_fresh_def)
  have "linked ?m (xs @ a # n # b # ys)"
    using assms(1) c(1) f unfolding assms(3) dlist_def by (intro linked_insert) auto
  moreover have "Suc l \<notin> {a, Suc b}" using c(2) unfolding assms(3) path_cells_parts by auto
  then have "?m (l + 1) = 0" using assms(1,2) by (auto simp: dlist_def dlist_fresh_def dlist_cells_def)
  moreover have "mset ns' = add_mset n (mset ns)"
    by (rule path_mset [OF assms(3,4)])
  then have "mset (dlist_cells l ns') = mset (n # Suc n # dlist_cells l ns)"
    by (simp add: dlist_cells_def)
  then have "distinct (dlist_cells l ns') \<and> 0 \<notin> set (dlist_cells l ns')"
    using assms(1,2) mset_eq_imp_distinct_iff [of "dlist_cells l ns'" "n # Suc n # dlist_cells l ns"]
      mset_eq_setD [of "dlist_cells l ns'" "n # Suc n # dlist_cells l ns"]
    by (auto simp: dlist_def dlist_fresh_def)
  ultimately show ?thesis unfolding dlist_def assms(4) by blast
qed

lemma dlist_delete:
  assumes "dlist l m ns" "l # ns @ [l + 1] = xs @ a # n # b # ys" "l # ns' @ [l + 1] = xs @ a # b # ys"
  shows "dlist l (m(Suc b := a, a := b)) ns'" "m n = b" "m (Suc n) = a" "m a = n" "m (Suc b) = n"
proof -
  let ?m = "m(Suc b := a, a := b)"
  note c = dlist_path_cells [OF assms(1)]
  have l: "linked m (xs @ a # n # b # ys)" using assms(1) unfolding dlist_def assms(2) by simp
  then show "m n = b" "m (Suc n) = a" "m a = n" "m (Suc b) = n" using linked_append [of m xs a "n # b # ys"] by simp_all
  have "linked ?m (xs @ a # b # ys)"
    using l c(1) unfolding assms(2) by (rule linked_remove)
  moreover have "Suc l \<notin> {a, Suc b}"
    using c(2) path_cells_parts [of xs a n "b # ys"] path_cells_parts [of "[]" n b ys] unfolding assms(2) by auto
  then have "?m (l + 1) = 0" using assms(1) by (auto simp: dlist_def)
  moreover have "mset ns = add_mset n (mset ns')"
    by (rule path_mset [OF assms(3,2)])
  then have "mset (n # Suc n # dlist_cells l ns') = mset (dlist_cells l ns)" by (simp add: dlist_cells_def)
  then have "distinct (dlist_cells l ns') \<and> 0 \<notin> set (dlist_cells l ns')"
    using assms(1) mset_eq_imp_distinct_iff [of "n # Suc n # dlist_cells l ns'" "dlist_cells l ns"]
      mset_eq_setD [of "n # Suc n # dlist_cells l ns'" "dlist_cells l ns"]
    by (auto simp: dlist_def)
  ultimately show "dlist l ?m ns'" unfolding dlist_def assms(3) by blast
qed

lemma dlist_ends:
  assumes "dlist l m ns"
  shows "m l = hd (ns @ [l + 1])" "m (l + 2) = last (l # ns)" "m (l + 1) = 0"
proof -
  have k: "linked m (l # ns @ [l + 1])" "m (l + 1) = 0" using assms by (auto simp: dlist_def)
  then show "m l = hd (ns @ [l + 1])" "m (l + 1) = 0" by (cases ns; simp)+
  show "m (l + 2) = last (l # ns)"
    using k(1) linked_append [of m "butlast (l # ns)" "last (l # ns)" "[l + 1]"]
    unfolding path_snoc by (simp del: last.simps butlast.simps)
qed

lemma dlist_addhead:
  assumes "dlist l m ns" "dlist_fresh l ns n"
  shows "dlist l (camel_dlist_addhead l n m) (n # ns)"
proof -
  let ?b = "hd (ns @ [l + 1])"
  have "l # ns @ [l + 1] = [] @ l # ?b # tl (ns @ [l + 1])" by (cases ns) auto
  from dlist_insert [OF assms this, of "n # ns"] have "dlist l (m(n := ?b, Suc n := l, Suc ?b := n, l := n)) (n # ns)"
    by (cases ns) auto
  moreover have "n \<noteq> l" "Suc n \<noteq> l" using assms(2) by (auto simp: dlist_fresh_def dlist_cells_def)
  ultimately show ?thesis using dlist_ends(1) [OF assms(1)] by (simp add: camel_dlist_addhead_def Let_def)
qed

lemma dlist_nonzero: "dlist l m ns \<Longrightarrow> x \<in> set (l # ns @ [l + 1]) \<Longrightarrow> x \<noteq> 0 \<and> x \<noteq> l + 2"
  by (auto simp: dlist_def dlist_cells_def)

lemma last_in_path: "last (l # ns) \<in> set (l # ns @ xs)"
  using last_in_set [of "l # ns"] by auto

lemma dlist_addtail:
  assumes "dlist l m ns" "dlist_fresh l ns n"
  shows "dlist l (camel_dlist_addtail l n m) (ns @ [n])"
proof -
  define a where "a = last (l # ns)"
  have "l # (ns @ [n]) @ [l + 1] = butlast (l # ns) @ a # n # (l + 1) # []"
    using path_snoc [of l ns n] by (simp add: a_def)
  from dlist_insert [OF assms path_snoc [of l ns "l + 1", folded a_def] this]
  have "dlist l (m(n := l + 1, Suc n := a, Suc (l + 1) := n, a := n)) (ns @ [n])" .
  moreover have "n \<noteq> l + 2" "Suc n \<noteq> l + 2" "a \<noteq> l + 2"
    using assms(2) dlist_nonzero [OF assms(1) last_in_path] by (auto simp: a_def dlist_fresh_def dlist_cells_def)
  moreover have "m (l + 2) = a" using dlist_ends(2) [OF assms(1)] by (simp add: a_def)
  ultimately show ?thesis by (simp add: camel_dlist_addtail_def Let_def fun_upd_twist [of a "Suc (Suc l)"])
qed

lemma dlist_remove:
  assumes "dlist l m ns" "n \<in> set ns"
  shows "dlist l (camel_dlist_remove n m) (remove1 n ns)"
proof -
  obtain as bs where ns: "ns = as @ n # bs" "n \<notin> set as" using assms(2) by (meson split_list_first)
  let ?a = "last (l # as)" and ?b = "hd (bs @ [l + 1])"
  have t: "?b # tl (bs @ [l + 1]) = bs @ [l + 1]" by (cases bs) auto
  have p: "l # ns @ [l + 1] = butlast (l # as) @ ?a # n # ?b # tl (bs @ [l + 1])"
    using path_snoc [of l as n] ns(1) t by (metis append_Cons append_Nil append_assoc)
  have r: "remove1 n ns = as @ bs" using ns by (simp add: remove1_append)
  have "l # remove1 n ns @ [l + 1] = butlast (l # as) @ ?a # ?b # tl (bs @ [l + 1])"
    using append_butlast_last_id [of "l # as"] t unfolding r by (metis append_Cons append_Nil append_assoc list.distinct(1))
  note d = dlist_delete [OF assms(1) p this]
  have "n \<in> set (dlist_cells l ns)" "distinct (path_cells (l # ns @ [l + 1]))"
    using assms dlist_path_cells(1) by (auto simp: dlist_cells_def)
  then have "n \<noteq> ?b" "Suc ?b \<noteq> n"
    using path_cells_distinct [of "butlast (l # as) @ [?a]" n ?b "tl (bs @ [l + 1])"] unfolding p by (auto simp: path_cells_def)
  then show ?thesis using d by (simp add: camel_dlist_remove_def Let_def)
qed

lemma dlist_remhead:
  assumes "dlist l m ns"
  shows "\<exists>m'. camel_dlist_remhead l m = (fst (spec_step RemHead ns), m') \<and> dlist l m' (snd (spec_step RemHead ns))"
proof (cases ns)
  case Nil
  then show ?thesis using dlist_ends [OF assms] assms by (simp add: camel_dlist_remhead_def)
next
  case (Cons n ns')
  let ?b = "hd (ns' @ [l + 1])"
  have t: "?b # tl (ns' @ [l + 1]) = ns' @ [l + 1]" by (cases ns') auto
  have "l # ns @ [l + 1] = [] @ l # n # ?b # tl (ns' @ [l + 1])" "l # ns' @ [l + 1] = [] @ l # ?b # tl (ns' @ [l + 1])"
    using t Cons by simp_all
  note d = dlist_delete [OF assms this]
  have "?b \<noteq> 0" using dlist_nonzero [OF assms, of ?b] Cons by (cases ns') auto
  then show ?thesis using d Cons by (simp add: camel_dlist_remhead_def Let_def)
qed

lemma dlist_remtail:
  assumes "dlist l m ns"
  shows "\<exists>m'. camel_dlist_remtail l m = (fst (spec_step RemTail ns), m') \<and> dlist l m' (snd (spec_step RemTail ns))"
proof (cases ns rule: rev_cases)
  case Nil
  then show ?thesis using dlist_ends [OF assms] assms by (simp add: camel_dlist_remtail_def)
next
  case (snoc as n)
  define a where "a = last (l # as)"
  have "l # ns @ [l + 1] = butlast (l # as) @ a # n # (l + 1) # []" "l # as @ [l + 1] = butlast (l # as) @ a # (l + 1) # []"
    using snoc path_snoc [of l as n] path_snoc [of l as "l + 1"] by (simp_all add: a_def)
  note d = dlist_delete [OF assms this]
  have "a \<noteq> 0" "a \<noteq> l + 2" using dlist_nonzero [OF assms, of a] snoc last_in_path [of l as "n # [l + 1]"] by (auto simp: a_def)
  then show ?thesis using d snoc
    by (simp add: camel_dlist_remtail_def Let_def fun_upd_twist [of a "Suc (Suc l)"])
qed

interpretation camel_dlist: list_header "dlist l" "dlist_fresh l" "dlist_step l" for l
proof
  fix m ns x
  assume "dlist l m ns" "ops_ok (dlist_fresh l) [x] ns"
  then show "\<exists>m'. dlist_step l x m = Some (fst (spec_step x ns), m') \<and> dlist l m' (snd (spec_step x ns))"
    using dlist_remhead [of l m ns] dlist_remtail [of l m ns]
    by (cases x) (auto simp: dlist_addhead dlist_addtail dlist_remove)
qed

lemma dlist_length_path:
  assumes "linked m (n # ns @ [e])" "m e = 0" "0 \<notin> set (ns @ [e])"
  shows "dlist_length_loop m (m n) k = Some (k + length ns + 1)"
  using assms
proof (induction ns arbitrary: n k)
  case Nil
  then show ?case by (simp add: dlist_length_loop.simps)
next
  case (Cons a ns)
  then show ?case using Cons.IH [of a "k + 1"] by (simp add: dlist_length_loop.simps [of m a])
qed

lemma dlist_init:
  assumes "0 < l"
  shows "dlist l (camel_dlist_init l m) []"
  using assms by (simp add: dlist_def dlist_cells_def camel_dlist_init_def)

lemma dlist_length_empty:
  assumes "dlist l m ns"
  shows "camel_dlist_length l m = Some (length ns)" "camel_dlist_empty l m \<longleftrightarrow> ns = []"
proof -
  note e = dlist_ends [OF assms]
  have k: "linked m (l # ns @ [l + 1])" "0 \<notin> set (ns @ [l + 1])" "l + 1 \<notin> set ns"
    using assms by (auto simp: dlist_def dlist_cells_def)
  show "camel_dlist_empty l m \<longleftrightarrow> ns = []" using e(1) k(3) by (cases ns) (auto simp: camel_dlist_empty_def)
  show "camel_dlist_length l m = Some (length ns)"
  proof (cases ns)
    case Nil
    then show ?thesis using e by (simp add: camel_dlist_length_def dlist_length_loop.simps)
  next
    case (Cons a ns')
    then have "linked m (a # ns' @ [l + 1])" "0 \<notin> set (ns' @ [l + 1])" "m l = a" using k by auto
    from dlist_length_path [OF this(1) _ this(2), of 0] this(3) show ?thesis
      using e(3) Cons by (simp add: camel_dlist_length_def)
  qed
qed

section \<open>Singly linked lists implement lists\<close>

fun chain :: "mem \<Rightarrow> addr \<Rightarrow> addr list \<Rightarrow> bool" where
  "chain m p [] \<longleftrightarrow> m p = 0"
| "chain m p (n # ns) \<longleftrightarrow> m p = n \<and> chain m n ns"

definition slist :: "addr \<Rightarrow> mem \<Rightarrow> addr list \<Rightarrow> bool" where
  "slist l m ns \<longleftrightarrow> chain m l ns \<and> distinct (l # ns) \<and> 0 \<notin> set ns"

definition slist_fresh :: "addr \<Rightarrow> addr list \<Rightarrow> addr \<Rightarrow> bool" where
  "slist_fresh l ns n \<longleftrightarrow> n \<noteq> 0 \<and> n \<notin> set (l # ns)"

fun slist_step :: "addr \<Rightarrow> list_op \<Rightarrow> mem \<Rightarrow> (addr option \<times> mem) option" where
  "slist_step l (AddHead n) m = Some (Some n, camel_slist_addhead l n m)"
| "slist_step l (AddTail n) m = map_option (\<lambda>m. (Some n, m)) (camel_slist_addtail l n m)"
| "slist_step l (RemNode n) m = camel_slist_remove l n m"
| "slist_step l RemHead m = Some (camel_slist_remhead l m)"
| "slist_step l RemTail m = camel_slist_remtail l m"

lemma chain_upd: "chain m p ns \<Longrightarrow> c \<notin> set (p # ns) \<Longrightarrow> chain (m(c := v)) p ns"
  by (induction ns arbitrary: p) auto

lemma slist_last: "chain m p ns \<Longrightarrow> 0 \<notin> set ns \<Longrightarrow> slist_last_loop m p = Some (last (p # ns))"
  by (induction ns arbitrary: p) (simp_all add: slist_last_loop.simps)

lemma chain_snoc:
  "chain m p ns \<Longrightarrow> distinct (p # ns) \<Longrightarrow> n \<notin> set (p # ns) \<Longrightarrow> chain (m(n := 0, last (p # ns) := n)) p (ns @ [n])"
proof (induction ns arbitrary: p)
  case (Cons a ns)
  then have "last (a # ns) \<noteq> p" "p \<noteq> n" using last_in_set [of "a # ns"] by auto
  then show ?case using Cons by auto
qed simp

lemma chain_remove:
  "chain m p ns \<Longrightarrow> distinct (p # ns) \<Longrightarrow> 0 \<notin> set ns \<Longrightarrow> n \<in> set ns \<Longrightarrow>
     \<exists>m'. slist_remove_loop m n p = Some (Some n, m') \<and> chain m' p (remove1 n ns) \<and> (\<forall>c. c \<notin> set (p # ns) \<longrightarrow> m' c = m c)"
proof (induction ns arbitrary: p)
  case (Cons a ns)
  show ?case
  proof (cases "n = a")
    case True
    have "chain (m(p := m a)) p ns" using Cons.prems by (cases ns) (auto intro: chain_upd)
    then show ?thesis using True Cons.prems by (auto simp: slist_remove_loop.simps [of m a p])
  next
    case False
    then obtain m' where m': "slist_remove_loop m n a = Some (Some n, m')" "chain m' a (remove1 n ns)" "\<forall>c. c \<notin> set (a # ns) \<longrightarrow> m' c = m c"
      using Cons.IH [of a] Cons.prems by auto
    then have "m' p = a" using Cons.prems by auto
    then show ?thesis using False m' Cons.prems by (simp add: slist_remove_loop.simps [of m n p])
  qed
qed simp

lemma slist_absent: "chain m p ns \<Longrightarrow> 0 \<notin> set ns \<Longrightarrow> n \<notin> set ns \<Longrightarrow> slist_remove_loop m n p = Some (None, m)"
  by (induction ns arbitrary: p) (simp_all add: slist_remove_loop.simps)

lemma slist_last_two:
  "chain m p (ns @ [n]) \<Longrightarrow> 0 \<notin> set (ns @ [n]) \<Longrightarrow> slist_remtail_loop m p (hd (ns @ [n])) = Some (last (p # ns), n)"
proof (induction ns arbitrary: p)
  case Nil
  then show ?case by (simp add: slist_remtail_loop.simps [of m p n])
next
  case (Cons a ns)
  then show ?case using Cons.IH [of a] by (cases ns) (auto simp: slist_remtail_loop.simps [of m p a])
qed

lemma chain_butlast:
  "chain m p (ns @ [n]) \<Longrightarrow> distinct (p # ns) \<Longrightarrow> chain (m(last (p # ns) := 0)) p ns"
proof (induction ns arbitrary: p)
  case (Cons a ns)
  then have "last (a # ns) \<noteq> p" using last_in_set [of "a # ns"] by auto
  then show ?case using Cons by auto
qed simp

lemma slist_length_path: "chain m p ns \<Longrightarrow> 0 \<notin> set ns \<Longrightarrow> slist_length_loop m (m p) k = Some (k + length ns)"
proof (induction ns arbitrary: p k)
  case (Cons a ns)
  then show ?case using Cons.IH [of a "k + 1"] by (simp add: slist_length_loop.simps [of m a])
qed (simp add: slist_length_loop.simps)

lemma slist_add:
  assumes "slist l m ns" "slist_fresh l ns n"
  shows "slist l (camel_slist_addhead l n m) (n # ns)"
    and "\<exists>m'. camel_slist_addtail l n m = Some m' \<and> slist l m' (ns @ [n])"
proof -
  have c: "chain m l ns" "distinct (l # ns)" "0 \<notin> set ns" "n \<noteq> 0" "n \<notin> set (l # ns)"
    using assms by (auto simp: slist_def slist_fresh_def)
  have "chain (m(n := m l, l := n)) n ns" using c by (cases ns) (auto intro!: chain_upd)
  then show "slist l (camel_slist_addhead l n m) (n # ns)"
    using c by (auto simp: slist_def camel_slist_addhead_def Let_def)
  show "\<exists>m'. camel_slist_addtail l n m = Some m' \<and> slist l m' (ns @ [n])"
    using c chain_snoc [OF c(1,2,5)] by (auto simp: slist_def camel_slist_addtail_def slist_last [OF c(1,3)])
qed

lemma slist_rem:
  assumes "slist l m ns"
  shows "n \<in> set ns \<Longrightarrow> \<exists>m'. camel_slist_remove l n m = Some (Some n, m') \<and> slist l m' (remove1 n ns)"
    and "\<exists>m'. camel_slist_remhead l m = (fst (spec_step RemHead ns), m') \<and> slist l m' (snd (spec_step RemHead ns))"
    and "\<exists>m'. camel_slist_remtail l m = Some (fst (spec_step RemTail ns), m') \<and> slist l m' (snd (spec_step RemTail ns))"
proof -
  have c: "chain m l ns" "distinct (l # ns)" "0 \<notin> set ns" using assms by (auto simp: slist_def)
  show "n \<in> set ns \<Longrightarrow> \<exists>m'. camel_slist_remove l n m = Some (Some n, m') \<and> slist l m' (remove1 n ns)"
    using chain_remove [OF c, of n] c(2,3) by (auto simp: camel_slist_remove_def slist_def)
  show "\<exists>m'. camel_slist_remhead l m = (fst (spec_step RemHead ns), m') \<and> slist l m' (snd (spec_step RemHead ns))"
  proof (cases ns)
    case (Cons n ns')
    have "chain (m(l := m n)) l ns'" using c Cons by (cases ns') (auto intro: chain_upd)
    then show ?thesis using c Cons by (auto simp: slist_def camel_slist_remhead_def)
  qed (use assms c in \<open>simp add: camel_slist_remhead_def\<close>)
  show "\<exists>m'. camel_slist_remtail l m = Some (fst (spec_step RemTail ns), m') \<and> slist l m' (snd (spec_step RemTail ns))"
  proof (cases ns rule: rev_cases)
    case (snoc as n)
    have "m l = hd (as @ [n])" "m l \<noteq> 0" using c snoc by (cases as; auto)+
    moreover have "chain (m(last (l # as) := 0)) l as" using c snoc by (intro chain_butlast) auto
    moreover have "slist_remtail_loop m l (hd (as @ [n])) = Some (last (l # as), n)"
      using c snoc by (intro slist_last_two) auto
    ultimately show ?thesis using c snoc by (simp add: slist_def camel_slist_remtail_def)
  qed (use assms c in \<open>simp add: camel_slist_remtail_def\<close>)
qed

interpretation camel_slist: list_header "slist l" "slist_fresh l" "slist_step l" for l
proof
  fix m ns x
  assume "slist l m ns" "ops_ok (slist_fresh l) [x] ns"
  then show "\<exists>m'. slist_step l x m = Some (fst (spec_step x ns), m') \<and> slist l m' (snd (spec_step x ns))"
    using slist_add [of l m ns] slist_rem [of l m ns] by (cases x) fastforce+
qed

section \<open>Properties\<close>

text \<open>
  C14. The operations on a doubly linked list implement a list of nodes: from an initialised header,
  any sequence of adding fresh nodes at either end, removing a node of the list and removing from
  either end returns what the operations on the list of nodes return, and afterwards the length and
  the test for emptiness agree with that list.
\<close>

theorem dlist_refines_list:
  assumes "0 < l" "ops_ok (dlist_fresh l) xs []" "spec_run xs [] = (rs, ns)"
  shows "\<exists>m'. run_ops (dlist_step l) xs (camel_dlist_init l m) = Some (rs, m') \<and> dlist l m' ns
    \<and> camel_dlist_length l m' = Some (length ns) \<and> (camel_dlist_empty l m' \<longleftrightarrow> ns = [])"
proof -
  obtain m' where "run_ops (dlist_step l) xs (camel_dlist_init l m) = Some (rs, m')" "dlist l m' ns"
    using camel_dlist.run_sim [OF dlist_init [OF assms(1)] assms(2), of m] assms(3) by auto
  then show ?thesis using dlist_length_empty [of l m' ns] by blast
qed

theorem dlist_refines_list_witness:
  "\<exists>m'. run_ops (dlist_step 10) [AddTail 20, AddHead 30, AddTail 40, RemNode 20, RemHead, RemTail, RemTail] (camel_dlist_init 10 (\<lambda>_. 7))
     = Some ([Some 20, Some 30, Some 40, Some 20, Some 30, Some 40, None], m') \<and> dlist 10 m' []
    \<and> camel_dlist_length 10 m' = Some (length ([] :: nat list)) \<and> (camel_dlist_empty 10 m' \<longleftrightarrow> ([] :: nat list) = [])"
  by (rule dlist_refines_list) (simp_all add: dlist_fresh_def dlist_cells_def)

text \<open>
  The singly linked lists implement lists of nodes in the same way; the searches for the last node
  and for a node end.
\<close>

theorem slist_refines_list:
  assumes "ops_ok (slist_fresh l) xs []" "spec_run xs [] = (rs, ns)"
  shows "\<exists>m'. run_ops (slist_step l) xs (camel_slist_init l m) = Some (rs, m') \<and> slist l m' ns
    \<and> camel_slist_length l m' = Some (length ns) \<and> (camel_slist_empty l m' \<longleftrightarrow> ns = [])"
proof -
  have "slist l (camel_slist_init l m) []" by (simp add: slist_def camel_slist_init_def)
  from camel_slist.run_sim [OF this assms(1)] obtain m' where
    m': "run_ops (slist_step l) xs (camel_slist_init l m) = Some (rs, m')" "slist l m' ns" using assms(2) by auto
  then have "camel_slist_length l m' = Some (length ns)"
    using slist_length_path [of m' l ns 0] by (simp add: slist_def camel_slist_length_def)
  moreover have "camel_slist_empty l m' \<longleftrightarrow> ns = []"
    using m'(2) by (cases ns) (auto simp: slist_def camel_slist_empty_def)
  ultimately show ?thesis using m' by blast
qed

theorem slist_refines_list_witness:
  "\<exists>m'. run_ops (slist_step 10) [AddTail 20, AddHead 30, AddTail 40, RemNode 20, RemTail] (camel_slist_init 10 (\<lambda>_. 7))
     = Some ([Some 20, Some 30, Some 40, Some 20, Some 40], m') \<and> slist 10 m' [30]
    \<and> camel_slist_length 10 m' = Some (length [30 :: nat]) \<and> (camel_slist_empty 10 m' \<longleftrightarrow> [30 :: nat] = [])"
  by (rule slist_refines_list) (simp_all add: slist_fresh_def)

text \<open>A node that is not in the list is reported and nothing changes.\<close>

lemma slist_remove_absent:
  assumes "slist l m ns" "n \<notin> set ns"
  shows "camel_slist_remove l n m = Some (None, m)"
  using assms slist_absent [of m l ns n] by (simp add: slist_def camel_slist_remove_def)

end
