(* ===== verification/Camel_Quoted.thy ===== *)
theory Camel_Quoted
  imports Camel_Bytes
begin

text \<open>
  Quoted-printable and the ``Q'' encoding of header words, from \<^verbatim>\<open>camel/camel-mime-utils.c\<close>. The
  encoders and decoders work on chunks: \<^verbatim>\<open>state\<close> and \<^verbatim>\<open>save\<close> carry over from one call to the next.
  Which characters may stand for themselves is decided by \<^verbatim>\<open>camel_mime_special_table\<close>, which the
  build generates with \<^verbatim>\<open>gentables.pl\<close>; it is the parameter \<open>tbl\<close>, and what is used of it is the
  predicate \<open>special_table\<close>. The properties are the round trips and the size of the output.
\<close>

section \<open>Characters\<close>

abbreviation (input) CR :: byte where "CR \<equiv> 0x0d"
abbreviation (input) LF :: byte where "LF \<equiv> 0x0a"
abbreviation (input) SP :: byte where "SP \<equiv> 0x20"
abbreviation (input) TAB :: byte where "TAB \<equiv> 0x09"
abbreviation (input) EQ :: byte where "EQ \<equiv> 0x3d"

definition tohex :: "byte list" where
  "tohex = octets ''0123456789ABCDEF''"

text \<open>The three octets \<^verbatim>\<open>=XX\<close>.\<close>

definition hex_escape :: "byte \<Rightarrow> byte list" where
  "hex_escape c = [EQ, tohex ! unat (drop_bit 4 c AND 0xf), tohex ! unat (c AND 0xf)]"

definition camel_mime_is_qpsafe :: "(byte \<Rightarrow> 16 word) \<Rightarrow> byte \<Rightarrow> bool" where
  "camel_mime_is_qpsafe tbl x \<longleftrightarrow> tbl x AND 0x40 \<noteq> 0"

text \<open>What \<^verbatim>\<open>gentables.pl\<close> enters for \<^verbatim>\<open>CAMEL_MIME_IS_QPSAFE\<close>: the printable characters but \<^verbatim>\<open>=\<close>, and the tab.\<close>

definition special_table :: "(byte \<Rightarrow> 16 word) \<Rightarrow> bool" where
  "special_table tbl \<longleftrightarrow>
     (\<forall>x. camel_mime_is_qpsafe tbl x \<longleftrightarrow> 32 \<le> x \<and> x \<le> 60 \<or> 62 \<le> x \<and> x \<le> 126 \<or> x = 9)"

section \<open>Encoding\<close>

text \<open>The state \<^verbatim>\<open>-1\<close>, no delayed character, is \<^const>\<open>None\<close>; \<^verbatim>\<open>sofar\<close> is the length of the current line.\<close>

definition quoted_encode_char ::
    "(byte \<Rightarrow> 16 word) \<Rightarrow> byte option \<Rightarrow> nat \<Rightarrow> byte \<Rightarrow> byte list \<times> byte option \<times> nat" where
  "quoted_encode_char tbl lastc sofar c =
     (if c = CR then
        (case lastc of
           None \<Rightarrow> ([], Some c, sofar)
         | Some l \<Rightarrow> (hex_escape l, Some c, sofar + 3))
      else if c = LF then
        ((case lastc of None \<Rightarrow> [] | Some l \<Rightarrow> (if l \<noteq> CR then hex_escape l else [])) @ [LF], None, 0)
      else
        (let (out, sofar) =
           (case lastc of
              None \<Rightarrow> ([], sofar)
            | Some l \<Rightarrow> (if camel_mime_is_qpsafe tbl l then ([l], sofar + 1) else (hex_escape l, sofar + 3)))
         in if camel_mime_is_qpsafe tbl c then
              (let (out, sofar) = (if sofar > 74 then (out @ [EQ, LF], 0) else (out, sofar))
               in if c = SP \<or> c = TAB then (out, Some c, sofar) else (out @ [c], None, sofar + 1))
            else
              (let (out, sofar) = (if sofar > 72 then (out @ [EQ, LF], 3) else (out, sofar + 3))
               in (out @ hex_escape c, None, sofar))))"

fun quoted_encode_loop ::
    "(byte \<Rightarrow> 16 word) \<Rightarrow> byte option \<Rightarrow> nat \<Rightarrow> byte list \<Rightarrow> byte list \<times> byte option \<times> nat" where
  "quoted_encode_loop tbl lastc sofar [] = ([], lastc, sofar)"
| "quoted_encode_loop tbl lastc sofar (c # cs) =
     (let (out, lastc, sofar) = quoted_encode_char tbl lastc sofar c;
          (rest, lastc, sofar) = quoted_encode_loop tbl lastc sofar cs
      in (out @ rest, lastc, sofar))"

definition camel_quoted_encode_step ::
    "(byte \<Rightarrow> 16 word) \<Rightarrow> byte list \<Rightarrow> byte option \<Rightarrow> nat \<Rightarrow> byte list \<times> byte option \<times> nat" where
  "camel_quoted_encode_step tbl inp statep save = quoted_encode_loop tbl statep save inp"

definition camel_quoted_encode_close ::
    "(byte \<Rightarrow> 16 word) \<Rightarrow> byte list \<Rightarrow> byte option \<Rightarrow> nat \<Rightarrow> byte list \<times> byte option \<times> nat" where
  "camel_quoted_encode_close tbl inp state save =
     (let (out, lastc, _) =
        (if length inp > 0 then camel_quoted_encode_step tbl inp state save else ([], state, save))
      in (out @ (case lastc of
                   None \<Rightarrow> []
                 | Some l \<Rightarrow> (if camel_mime_is_qpsafe tbl l \<and> l \<noteq> SP \<and> l \<noteq> TAB then [l] else hex_escape l)),
          None, 0))"

section \<open>Decoding\<close>

definition isxdigit :: "byte \<Rightarrow> bool" where
  "isxdigit c \<longleftrightarrow> 0x30 \<le> c \<and> c \<le> 0x39 \<or> 0x41 \<le> c \<and> c \<le> 0x46 \<or> 0x61 \<le> c \<and> c \<le> 0x66"

definition toupper :: "byte \<Rightarrow> byte" where
  "toupper c = (if 0x61 \<le> c \<and> c \<le> 0x7a then c - 0x20 else c)"

definition hex_value :: "byte \<Rightarrow> byte" where
  "hex_value c = (if c \<ge> 0x41 then c - 0x41 + 10 else c - 0x30) AND 0xf"

text \<open>The states of the decoder: 0 in text, 1 after \<^verbatim>\<open>=\<close>, 2 after \<^verbatim>\<open>=\<close> and the saved character.\<close>

fun quoted_decode_loop :: "nat \<Rightarrow> byte \<Rightarrow> byte list \<Rightarrow> byte list \<times> nat \<times> byte" where
  "quoted_decode_loop state save [] = ([], state, save)"
| "quoted_decode_loop state save (c # cs) =
     (let (out, state, save) =
        (if state = 0 then (if c = EQ then ([], 1, save) else ([c], 0, save))
         else if state = 1 then (if c = LF then ([], 0, save) else ([], 2, c))
         else
           (if isxdigit c \<and> isxdigit save
            then ([push_bit 4 (hex_value (toupper save)) OR hex_value (toupper c)], 0, toupper save)
            else if c = LF \<and> save = CR then ([], 0, save)
            else ([EQ, save, c], 0, save)));
        (rest, state, save) = quoted_decode_loop state save cs
      in (out @ rest, state, save))"

definition camel_quoted_decode_step :: "byte list \<Rightarrow> nat \<Rightarrow> byte \<Rightarrow> byte list \<times> nat \<times> byte" where
  "camel_quoted_decode_step inp savestate saveme = quoted_decode_loop savestate saveme inp"

section \<open>The Q encoding\<close>

definition quoted_encode :: "(byte \<Rightarrow> 16 word) \<Rightarrow> byte list \<Rightarrow> 16 word \<Rightarrow> byte list" where
  "quoted_encode tbl inp safemask =
     concat (map (\<lambda>c. if c = SP then [0x5f] else if tbl c AND safemask \<noteq> 0 then [c] else hex_escape c) inp)"

text \<open>
  The guard compares the length of the whole input with 2, not what is left of it. \<^const>\<open>None\<close> is a
  read behind the input.
\<close>

fun quoted_decode_word :: "nat \<Rightarrow> byte list \<Rightarrow> byte list option" where
  "quoted_decode_word len [] = Some []"
| "quoted_decode_word len (c # inp) =
     (if c = EQ then
        (if len \<ge> 2 then
           (case inp of
              c0 # c1 # inp \<Rightarrow>
                map_option (\<lambda>out. (push_bit 4 (hex_value (toupper c0)) OR hex_value (toupper c1)) # out)
                  (quoted_decode_word len inp)
            | _ \<Rightarrow> None)
         else Some [])
      else if c = 0x5f then map_option (\<lambda>out. 0x20 # out) (quoted_decode_word len inp)
      else map_option (\<lambda>out. c # out) (quoted_decode_word len inp))"

definition quoted_decode :: "byte list \<Rightarrow> byte list option" where
  "quoted_decode inp = quoted_decode_word (length inp) inp"

section \<open>The round trip of quoted-printable\<close>

lemma tohex_digits: "\<forall>n \<in> {0..<16}. isxdigit (tohex ! n) \<and> hex_value (toupper (tohex ! n)) = word_of_nat n \<and> tohex ! n \<noteq> LF"
proof -
  have "list_all (\<lambda>n. isxdigit (tohex ! n) \<and> hex_value (toupper (tohex ! n)) = word_of_nat n \<and> tohex ! n \<noteq> LF) [0..<16]"
    by code_simp
  then show ?thesis by (simp only: list_all_iff set_upt)
qed

lemma tohex_nibble:
  fixes x :: byte
  shows "isxdigit (tohex ! unat (x AND 0xf))" "hex_value (toupper (tohex ! unat (x AND 0xf))) = x AND 0xf" "tohex ! unat (x AND 0xf) \<noteq> LF"
proof -
  have "x AND 0xf < 2 ^ 4" unfolding mask_numerals by (rule and_mask_less') simp
  then have "unat (x AND 0xf) \<in> {0..<16}" by (simp add: word_less_nat_alt)
  from bspec [OF tohex_digits this] show "isxdigit (tohex ! unat (x AND 0xf))"
    "hex_value (toupper (tohex ! unat (x AND 0xf))) = x AND 0xf" "tohex ! unat (x AND 0xf) \<noteq> LF" by simp_all
qed

lemma nibbles: "push_bit 4 (drop_bit 4 c AND 0xf) OR (c AND 0xf) = (c :: byte)"
proof (rule bit_word_eqI)
  fix n
  assume "n < LENGTH(8)"
  then show "bit (push_bit 4 (drop_bit 4 c AND 0xf) OR (c AND 0xf)) n = bit c n"
    by (cases "n < 4") (auto simp: bit_simps mask_numerals)
qed

lemma qpsafe_chars:
  assumes "special_table tbl"
  shows "\<not> camel_mime_is_qpsafe tbl EQ" "\<not> camel_mime_is_qpsafe tbl CR" "\<not> camel_mime_is_qpsafe tbl LF"
    "camel_mime_is_qpsafe tbl SP" "camel_mime_is_qpsafe tbl TAB"
  using assms by (simp_all add: special_table_def word_le_nat_alt)

text \<open>
  The octets \<open>e\<close> stand for the text \<open>t\<close>: between characters, the decoder reads them as \<open>t\<close> and is
  between characters again, whatever follows.
\<close>

definition stands_for :: "byte list \<Rightarrow> byte list \<Rightarrow> bool" where
  "stands_for e t \<longleftrightarrow>
     (\<forall>save inp. \<exists>save'. quoted_decode_loop 0 save (e @ inp) = apfst ((@) t) (quoted_decode_loop 0 save' inp))"

lemma stands_for_append [intro]:
  assumes "stands_for e t" "stands_for f u"
  shows "stands_for (e @ f) (t @ u)"
  unfolding stands_for_def
proof (intro allI)
  fix save inp
  obtain s1 where "quoted_decode_loop 0 save (e @ f @ inp) = apfst ((@) t) (quoted_decode_loop 0 s1 (f @ inp))"
    using assms(1) unfolding stands_for_def by blast
  moreover obtain s2 where "quoted_decode_loop 0 s1 (f @ inp) = apfst ((@) u) (quoted_decode_loop 0 s2 inp)"
    using assms(2) unfolding stands_for_def by blast
  ultimately show "\<exists>save'. quoted_decode_loop 0 save ((e @ f) @ inp) = apfst ((@) (t @ u)) (quoted_decode_loop 0 save' inp)"
    by (intro exI [of _ s2], cases "quoted_decode_loop 0 s2 inp") simp
qed

lemma stands_for_simple:
  "stands_for [] []" "c \<noteq> EQ \<Longrightarrow> stands_for [c] [c]" "stands_for [EQ, LF] []" "stands_for (hex_escape c) [c]"
  using tohex_nibble [of c] tohex_nibble [of "drop_bit 4 c"] nibbles [of c]
  by (auto simp: stands_for_def hex_escape_def Let_def case_prod_unfold apfst_def map_prod_def)

text \<open>The encoder drops the CR of a line end, so that this is what a decoder can recover.\<close>

fun crlf_to_lf :: "byte list \<Rightarrow> byte list" where
  "crlf_to_lf (c # d # s) = (if c = CR \<and> d = LF then LF # crlf_to_lf s else c # crlf_to_lf (d # s))"
| "crlf_to_lf s = s"

abbreviation delayed :: "byte option \<Rightarrow> byte list" where
  "delayed lastc \<equiv> (case lastc of None \<Rightarrow> [] | Some l \<Rightarrow> [l])"

definition delayed_ok :: "byte option \<Rightarrow> bool" where
  "delayed_ok lastc \<longleftrightarrow> lastc \<in> {None, Some CR, Some SP, Some TAB}"

lemma crlf_Cons: "c \<noteq> CR \<Longrightarrow> crlf_to_lf (c # s) = c # crlf_to_lf s"
  by (cases s) auto

lemma crlf_delayed: "c \<noteq> LF \<Longrightarrow> crlf_to_lf (delayed lastc @ c # cs) = delayed lastc @ crlf_to_lf (c # cs)"
  by (cases lastc) auto

text \<open>The three parts that are written for a character inside a line: the delayed one, a soft break, the character.\<close>

definition flush_delayed :: "(byte \<Rightarrow> 16 word) \<Rightarrow> byte option \<Rightarrow> byte list" where
  "flush_delayed tbl lastc = (case lastc of None \<Rightarrow> [] | Some l \<Rightarrow> if camel_mime_is_qpsafe tbl l then [l] else hex_escape l)"

definition soft_break :: "(byte \<Rightarrow> 16 word) \<Rightarrow> byte \<Rightarrow> nat \<Rightarrow> byte list" where
  "soft_break tbl c n = (if n > (if camel_mime_is_qpsafe tbl c then 74 else 72) then [EQ, LF] else [])"

definition own_char :: "(byte \<Rightarrow> 16 word) \<Rightarrow> byte \<Rightarrow> byte list" where
  "own_char tbl c = (if camel_mime_is_qpsafe tbl c then (if c = SP \<or> c = TAB then [] else [c]) else hex_escape c)"

lemma hex_escape_length [simp]: "length (hex_escape c) = 3"
  by (simp add: hex_escape_def)

lemma encode_char_other:
  fixes lastc :: "byte option" and sofar :: nat
  assumes "c \<noteq> CR" "c \<noteq> LF" "special_table tbl"
  defines "n \<equiv> sofar + length (flush_delayed tbl lastc)"
  shows "quoted_encode_char tbl lastc sofar c =
    (flush_delayed tbl lastc @ soft_break tbl c n @ own_char tbl c, if c = SP \<or> c = TAB then Some c else None,
     (if soft_break tbl c n = [] then n else 0) + length (own_char tbl c))"
proof -
  have s: "camel_mime_is_qpsafe tbl SP" "camel_mime_is_qpsafe tbl TAB" using qpsafe_chars [OF assms(3)] by auto
  show ?thesis
    using assms(1,2) s unfolding n_def quoted_encode_char_def flush_delayed_def soft_break_def own_char_def Let_def
    by (cases lastc; cases "camel_mime_is_qpsafe tbl c") auto
qed

lemma encode_char_sim:
  assumes "special_table tbl" "delayed_ok lastc" "quoted_encode_char tbl lastc sofar c = (out, lastc', sofar')"
  shows "delayed_ok lastc' \<and> (\<exists>t. stands_for out t \<and> (\<forall>cs. crlf_to_lf (delayed lastc @ c # cs) = t @ crlf_to_lf (delayed lastc' @ cs)))"
proof -
  note q = qpsafe_chars [OF assms(1)] and st = stands_for_simple
  have safe: "x \<noteq> EQ" if "camel_mime_is_qpsafe tbl x" for x using that q(1) by auto
  consider "c = CR" | "c = LF" | "c \<noteq> CR" "c \<noteq> LF" by blast
  then show ?thesis
  proof cases
    case 1
    have "stands_for out (delayed lastc)" "lastc' = Some CR"
      using assms(3) 1 st by (auto simp: quoted_encode_char_def split: option.splits)
    then show ?thesis using 1 crlf_delayed [of CR lastc] by (auto simp: delayed_ok_def)
  next
    case 2
    let ?t = "if lastc = Some CR then [] else delayed lastc"
    have "stands_for ((case lastc of None \<Rightarrow> [] | Some l \<Rightarrow> if l \<noteq> CR then hex_escape l else []) @ [LF]) (?t @ [LF])"
      by (rule stands_for_append) (use st in \<open>auto split: option.splits\<close>)
    moreover have "crlf_to_lf (delayed lastc @ LF # cs) = (?t @ [LF]) @ crlf_to_lf cs" for cs
      using crlf_Cons by (auto split: option.splits)
    ultimately show ?thesis using assms(3) 2 by (auto simp: quoted_encode_char_def delayed_ok_def)
  next
    case 3
    let ?t = "if c = SP \<or> c = TAB then [] else [c]"
    define n where "n = sofar + length (flush_delayed tbl lastc)"
    have "stands_for (flush_delayed tbl lastc @ soft_break tbl c n @ own_char tbl c) (delayed lastc @ [] @ ?t)"
      using st safe q by (intro stands_for_append) (auto simp: flush_delayed_def soft_break_def own_char_def split: option.splits)
    then have "stands_for out (delayed lastc @ ?t)" "lastc' = (if c = SP \<or> c = TAB then Some c else None)"
      using assms(3) unfolding encode_char_other [OF 3 assms(1)] n_def by auto
    then show ?thesis using 3 crlf_Cons [of c] crlf_delayed [of c lastc] by (auto simp: delayed_ok_def)
  qed
qed

lemma encode_loop_sim:
  assumes "special_table tbl" "delayed_ok lastc" "quoted_encode_loop tbl lastc sofar cs = (out, lastc', sofar')"
  shows "delayed_ok lastc' \<and> (\<exists>t. stands_for out t \<and> (\<forall>ds. crlf_to_lf (delayed lastc @ cs @ ds) = t @ crlf_to_lf (delayed lastc' @ ds)))"
  using assms(2,3)
proof (induction cs arbitrary: lastc sofar out)
  case Nil
  then show ?case using stands_for_simple(1) by auto
next
  case (Cons c cs)
  obtain o1 l1 s1 where 1: "quoted_encode_char tbl lastc sofar c = (o1, l1, s1)" by (metis prod_cases3)
  obtain o2 where 2: "quoted_encode_loop tbl l1 s1 cs = (o2, lastc', sofar')" "out = o1 @ o2"
    using Cons.prems(2) 1 by (auto simp: case_prod_unfold Let_def) (metis prod.collapse)
  obtain t1 where t1: "delayed_ok l1" "stands_for o1 t1" "\<forall>cs. crlf_to_lf (delayed lastc @ c # cs) = t1 @ crlf_to_lf (delayed l1 @ cs)"
    using encode_char_sim [OF assms(1) Cons.prems(1) 1] by blast
  obtain t2 where "delayed_ok lastc'" "stands_for o2 t2" "\<forall>ds. crlf_to_lf (delayed l1 @ cs @ ds) = t2 @ crlf_to_lf (delayed lastc' @ ds)"
    using Cons.IH [OF t1(1) 2(1)] by blast
  then show ?case using t1 2(2) by (intro conjI exI [of _ "t1 @ t2"]) auto
qed

text \<open>Encoding chunk by chunk, with a last chunk that is passed to \<^verbatim>\<open>camel_quoted_encode_close\<close>.\<close>

fun quoted_encode_chunks :: "(byte \<Rightarrow> 16 word) \<Rightarrow> byte list list \<Rightarrow> byte list \<Rightarrow> byte option \<Rightarrow> nat \<Rightarrow> byte list" where
  "quoted_encode_chunks tbl [] final state save = fst (camel_quoted_encode_close tbl final state save)"
| "quoted_encode_chunks tbl (c # cs) final state save =
     (let (out, state, save) = camel_quoted_encode_step tbl c state save in out @ quoted_encode_chunks tbl cs final state save)"

lemma encode_close_sim:
  assumes "special_table tbl" "delayed_ok state"
  shows "\<exists>t. stands_for (fst (camel_quoted_encode_close tbl cs state save)) t \<and> crlf_to_lf (delayed state @ cs) = t"
proof -
  obtain out l s where e: "quoted_encode_loop tbl state save cs = (out, l, s)" by (metis prod_cases3)
  obtain t where t: "delayed_ok l" "stands_for out t" "\<forall>ds. crlf_to_lf (delayed state @ cs @ ds) = t @ crlf_to_lf (delayed l @ ds)"
    using encode_loop_sim [OF assms e] by blast
  have "stands_for (case l of None \<Rightarrow> [] | Some l \<Rightarrow> if camel_mime_is_qpsafe tbl l \<and> l \<noteq> SP \<and> l \<noteq> TAB then [l] else hex_escape l) (delayed l)"
  proof (cases l)
    case (Some x)
    have "camel_mime_is_qpsafe tbl x \<Longrightarrow> x \<noteq> EQ" using qpsafe_chars(1) [OF assms(1)] by auto
    then show ?thesis using Some stands_for_simple(2,4) [of x] by auto
  qed (simp add: stands_for_simple)
  from stands_for_append [OF t(2) this] have "stands_for (fst (camel_quoted_encode_close tbl cs state save)) (t @ delayed l)"
    using e by (cases cs) (auto simp: camel_quoted_encode_close_def camel_quoted_encode_step_def)
  moreover have "crlf_to_lf (delayed l) = delayed l" by (cases l) auto
  ultimately show ?thesis using t(3) [rule_format, of "[]"] by auto
qed

lemma encode_chunks_sim:
  assumes "special_table tbl" "delayed_ok state"
  shows "stands_for (quoted_encode_chunks tbl css final state save) (crlf_to_lf (delayed state @ concat css @ final))"
  using assms(2)
proof (induction css arbitrary: state save)
  case Nil
  then show ?case using encode_close_sim [OF assms(1)] by auto
next
  case (Cons c css)
  obtain out l s where e: "quoted_encode_loop tbl state save c = (out, l, s)" by (metis prod_cases3)
  obtain t where t: "delayed_ok l" "stands_for out t" "\<forall>ds. crlf_to_lf (delayed state @ c @ ds) = t @ crlf_to_lf (delayed l @ ds)"
    using encode_loop_sim [OF assms(1) Cons.prems e] by blast
  show ?case using stands_for_append [OF t(2) Cons.IH [OF t(1), of s]] t(3) e by (simp add: camel_quoted_encode_step_def)
qed

text \<open>
  C33. Quoted-printable is lossless but for line ends: text that is encoded in any number of chunks and
  decoded is the text again, with CR LF as LF, and the decoder is between characters at the end.
\<close>

theorem quoted_printable_round_trip:
  assumes "special_table tbl"
  shows "\<exists>save. camel_quoted_decode_step (quoted_encode_chunks tbl css final None 0) 0 0
    = (crlf_to_lf (concat css @ final), 0, save)"
proof -
  have "delayed_ok None" by (simp add: delayed_ok_def)
  from encode_chunks_sim [OF assms this, of css final 0, unfolded stands_for_def, rule_format, of 0 "[]"] obtain save where
    "quoted_decode_loop 0 0 (quoted_encode_chunks tbl css final None 0 @ []) = apfst ((@) (crlf_to_lf (concat css @ final))) (quoted_decode_loop 0 save [])"
    by auto
  then show ?thesis by (auto simp: camel_quoted_decode_step_def)
qed

definition gentables :: "byte \<Rightarrow> 16 word" where
  "gentables x = (if 32 \<le> x \<and> x \<le> 60 \<or> 62 \<le> x \<and> x \<le> 126 \<or> x = 9 then 0x40 else 0)"

lemma gentables_ok: "special_table gentables"
  by (auto simp: special_table_def camel_mime_is_qpsafe_def gentables_def)

theorem quoted_printable_round_trip_witness:
  "special_table gentables \<and>
   (\<exists>save. camel_quoted_decode_step (quoted_encode_chunks gentables [[0x41, 0x3d], [0x20, 0x0d]] [0x0a, 0xe9] None 0) 0 0
     = (crlf_to_lf (concat [[0x41, 0x3d], [0x20, 0x0d]] @ [0x0a, 0xe9]), 0, save))"
  using gentables_ok quoted_printable_round_trip [OF gentables_ok] by blast

section \<open>The size of the output\<close>

text \<open>
  The filter that calls the encoder allocates four octets for every input octet and four more, and
  asserts that they are enough. A soft break adds two octets to a line only after some seventy of
  them, which the number \<open>due\<close> accounts for.
\<close>

definition due :: "nat \<Rightarrow> nat" where
  "due n = (if n < 30 then 0 else if n < 66 then 1 else 2)"

abbreviation owed :: "byte option \<Rightarrow> nat" where
  "owed lastc \<equiv> (case lastc of None \<Rightarrow> 0 | Some _ \<Rightarrow> 3)"

lemma flush_length: "length (flush_delayed tbl lastc) \<le> owed lastc" "length (flush_delayed tbl lastc) \<le> 3"
  by (auto simp: flush_delayed_def split: option.splits)

lemma encode_char_size:
  assumes "special_table tbl" "quoted_encode_char tbl lastc sofar c = (out, lastc', sofar')"
  shows "length out + owed lastc' + due sofar' \<le> (if due sofar = 2 then 3 else 4) + owed lastc + due sofar"
proof -
  consider "c = CR" | "c = LF" | "c \<noteq> CR" "c \<noteq> LF" by blast
  then show ?thesis
  proof cases
    case 1
    then show ?thesis using assms(2) by (cases lastc) (auto simp: quoted_encode_char_def due_def split: if_splits)
  next
    case 2
    then show ?thesis using assms(2) by (auto simp: quoted_encode_char_def due_def split: option.splits if_splits)
  next
    case 3
    define f where "f = length (flush_delayed tbl lastc)"
    have own: "length (own_char tbl c) + owed (if c = SP \<or> c = TAB then Some c else None) \<le> 3"
      using qpsafe_chars [OF assms(1)] by (auto simp: own_char_def)
    have f: "f \<le> owed lastc" "f \<le> 3" using flush_length [of tbl lastc] by (simp_all add: f_def)
    have o: "length out = f + length (soft_break tbl c (sofar + f)) + length (own_char tbl c)"
        "lastc' = (if c = SP \<or> c = TAB then Some c else None)"
        "sofar' = (if soft_break tbl c (sofar + f) = [] then sofar + f else 0) + length (own_char tbl c)"
      using assms(2) unfolding encode_char_other [OF 3 assms(1)] f_def by auto
    show ?thesis
    proof (cases "soft_break tbl c (sofar + f) = []")
      case True
      then have "due sofar' \<le> due sofar + (if due sofar = 2 then 0 else 1)" using o(3) f(2) own by (auto simp: due_def)
      then show ?thesis using True o own f(1) by (auto split: if_splits)
    next
      case False
      then have "sofar + f > 72" "length (soft_break tbl c (sofar + f)) = 2" by (auto simp: soft_break_def split: if_splits)
      then have "due sofar = 2" "due sofar' = 0" using o(3) f(2) own False by (auto simp: due_def)
      then show ?thesis using \<open>length (soft_break tbl c (sofar + f)) = 2\<close> o own f(1) by simp
    qed
  qed
qed

lemma encode_loop_size:
  assumes "special_table tbl" "quoted_encode_loop tbl lastc sofar cs = (out, lastc', sofar')"
  shows "length out + owed lastc' + due sofar' \<le> 4 * length cs + owed lastc + due sofar"
    and "cs \<noteq> [] \<Longrightarrow> length out + owed lastc' \<le> 4 * length cs + 4"
proof -
  have *: "length out + owed lastc' + due sofar' \<le> 4 * length cs + owed lastc + due sofar"
    if "quoted_encode_loop tbl lastc sofar cs = (out, lastc', sofar')" for lastc sofar out cs
    using that
  proof (induction cs arbitrary: lastc sofar out)
    case (Cons c cs)
    obtain o1 l1 s1 where 1: "quoted_encode_char tbl lastc sofar c = (o1, l1, s1)" by (metis prod_cases3)
    obtain o2 where 2: "quoted_encode_loop tbl l1 s1 cs = (o2, lastc', sofar')" "out = o1 @ o2"
      using Cons.prems 1 by (auto simp: case_prod_unfold Let_def) (metis prod.collapse)
    show ?case using Cons.IH [OF 2(1)] encode_char_size [OF assms(1) 1] 2(2) by (simp split: if_splits)
  qed simp
  show "length out + owed lastc' + due sofar' \<le> 4 * length cs + owed lastc + due sofar" using * [OF assms(2)] .
  show "length out + owed lastc' \<le> 4 * length cs + 4" if ne: "cs \<noteq> []"
  proof -
    obtain c ds where cs: "cs = c # ds" using ne by (cases cs) auto
    obtain o1 l1 s1 where 1: "quoted_encode_char tbl lastc sofar c = (o1, l1, s1)" by (metis prod_cases3)
    obtain o2 where 2: "quoted_encode_loop tbl l1 s1 ds = (o2, lastc', sofar')" "out = o1 @ o2"
      using assms(2) cs 1 by (auto simp: case_prod_unfold Let_def) (metis prod.collapse)
    have "owed lastc \<le> 3" "due sofar \<le> 2" by (auto simp: due_def split: option.splits)
    then show ?thesis using * [OF 2(1)] encode_char_size [OF assms(1) 1] 2(2) cs by (simp split: if_splits)
  qed
qed

text \<open>
  The buffer that the filter allocates for the encoder is large enough: a step and a close write at
  most four octets for every octet of the input and four more, in every state.
\<close>

theorem quoted_encode_fits:
  assumes "special_table tbl"
  shows "length (fst (camel_quoted_encode_step tbl inp state save)) \<le> 4 * length inp + 4
    \<and> length (fst (camel_quoted_encode_close tbl inp state save)) \<le> 4 * length inp + 4"
proof (cases "inp = []")
  case True
  then show ?thesis by (auto simp: camel_quoted_encode_step_def camel_quoted_encode_close_def split: option.splits)
next
  case False
  obtain out l s where e: "quoted_encode_loop tbl state save inp = (out, l, s)" by (metis prod_cases3)
  have "length (case l of None \<Rightarrow> [] | Some l \<Rightarrow> if camel_mime_is_qpsafe tbl l \<and> l \<noteq> SP \<and> l \<noteq> TAB then [l] else hex_escape l) \<le> owed l"
    by (auto split: option.splits)
  then show ?thesis using encode_loop_size(2) [OF assms e False] e False
    by (auto simp: camel_quoted_encode_step_def camel_quoted_encode_close_def)
qed

theorem quoted_encode_fits_witness:
  "length (fst (camel_quoted_encode_step gentables [0xe9] (Some 0x0d) 75)) \<le> 4 * length [0xe9::byte] + 4
    \<and> length (fst (camel_quoted_encode_close gentables [0xe9] (Some 0x0d) 75)) \<le> 4 * length [0xe9::byte] + 4"
  using quoted_encode_fits [OF gentables_ok] by blast

section \<open>The length of the lines\<close>

text \<open>The length of the last line, if no line is longer than \<open>k\<close>; \<open>n\<close> octets precede on the first line.\<close>

fun line_length :: "nat \<Rightarrow> nat \<Rightarrow> byte list \<Rightarrow> nat option" where
  "line_length k n [] = Some n"
| "line_length k n (c # cs) = (if c = LF then line_length k 0 cs else if n < k then line_length k (n + 1) cs else None)"

lemma line_length_append: "line_length k n (xs @ ys) = Option.bind (line_length k n xs) (\<lambda>n. line_length k n ys)"
  by (induction k n xs rule: line_length.induct) auto

lemma tohex_not_lf: "tohex ! unat (x AND 0xf) \<noteq> LF" for x :: byte
  by (rule tohex_nibble)

lemma line_length_hex: "n + 3 \<le> k \<Longrightarrow> line_length k n (hex_escape c) = Some (n + 3)"
  by (simp add: hex_escape_def tohex_not_lf)

lemma line_length_one: "c \<noteq> LF \<Longrightarrow> n < k \<Longrightarrow> line_length k n [c] = Some (n + 1)"
  by simp

definition line_state :: "byte option \<Rightarrow> nat \<Rightarrow> bool" where
  "line_state lastc sofar \<longleftrightarrow> (lastc = None \<and> sofar \<le> 75 \<or> (lastc = Some SP \<or> lastc = Some TAB) \<and> sofar \<le> 74)"

lemma encode_char_line:
  assumes "special_table tbl" "line_state lastc sofar" "c \<noteq> CR" "quoted_encode_char tbl lastc sofar c = (out, lastc', sofar')"
  shows "line_state lastc' sofar' \<and> line_length 77 sofar out = Some sofar'"
proof -
  note q = qpsafe_chars [OF assms(1)]
  have safe: "x \<noteq> LF" if "camel_mime_is_qpsafe tbl x" for x using that q(3) by auto
  show ?thesis
  proof (cases "c = LF")
    case True
    then have "out = (case lastc of None \<Rightarrow> [] | Some l \<Rightarrow> hex_escape l) @ [LF]" "lastc' = None" "sofar' = 0"
      using assms(2,4) by (auto simp: quoted_encode_char_def line_state_def)
    then show ?thesis using assms(2) by (auto simp: line_state_def line_length_append line_length_hex)
  next
    case False
    define f where "f = flush_delayed tbl lastc"
    define n where "n = sofar + length f"
    have f: "line_length 77 sofar f = Some n" "n \<le> 75"
      using assms(2) q by (auto simp: f_def n_def flush_delayed_def line_state_def)
    have o: "out = f @ soft_break tbl c n @ own_char tbl c" "lastc' = (if c = SP \<or> c = TAB then Some c else None)"
        "sofar' = (if soft_break tbl c n = [] then n else 0) + length (own_char tbl c)"
      using assms(4) unfolding encode_char_other [OF assms(3) False assms(1)] f_def n_def by auto
    have b: "line_length 77 n (soft_break tbl c n) = Some (if soft_break tbl c n = [] then n else 0)"
      using f(2) by (auto simp: soft_break_def)
    have w: "m \<le> (if camel_mime_is_qpsafe tbl c then 74 else 72) \<Longrightarrow> line_length 77 m (own_char tbl c) = Some (m + length (own_char tbl c))" for m
      using False safe [of c] by (auto simp: own_char_def line_length_hex)
    have "(if soft_break tbl c n = [] then n else 0) \<le> (if camel_mime_is_qpsafe tbl c then 74 else 72)"
      by (auto simp: soft_break_def)
    note w [OF this]
    moreover have "line_state lastc' sofar'"
      unfolding o(2,3) using f(2) q by (auto simp: line_state_def soft_break_def own_char_def)
    ultimately show ?thesis using o f b by (simp add: line_length_append)
  qed
qed

lemma encode_loop_line:
  assumes "special_table tbl" "line_state lastc sofar" "CR \<notin> set cs" "quoted_encode_loop tbl lastc sofar cs = (out, lastc', sofar')"
  shows "line_state lastc' sofar' \<and> line_length 77 sofar out = Some sofar'"
  using assms(2-4)
proof (induction cs arbitrary: lastc sofar out)
  case (Cons c cs)
  obtain o1 l1 s1 where 1: "quoted_encode_char tbl lastc sofar c = (o1, l1, s1)" by (metis prod_cases3)
  obtain o2 where 2: "quoted_encode_loop tbl l1 s1 cs = (o2, lastc', sofar')" "out = o1 @ o2"
    using Cons.prems(3) 1 by (auto simp: case_prod_unfold Let_def) (metis prod.collapse)
  have "line_state l1 s1 \<and> line_length 77 sofar o1 = Some s1"
    using encode_char_line [OF assms(1) Cons.prems(1) _ 1] Cons.prems(2) by auto
  then show ?case using Cons.IH [OF _ _ 2(1)] Cons.prems(2) 2(2) by (simp add: line_length_append)
qed simp

lemma encode_full_line:
  assumes "special_table tbl" "sofar + n \<le> 75"
  shows "quoted_encode_loop tbl None sofar (replicate n 0x41 @ cs) =
    (let (out, r) = quoted_encode_loop tbl None (sofar + n) cs in (replicate n 0x41 @ out, r))"
  using assms(2)
proof (induction n arbitrary: sofar)
  case (Suc n)
  have "camel_mime_is_qpsafe tbl 0x41" using assms(1) by (simp add: special_table_def word_le_nat_alt)
  then have "quoted_encode_char tbl None sofar 0x41 = ([0x41], None, sofar + 1)"
    using Suc.prems by (simp add: quoted_encode_char_def)
  then show ?case using Suc.IH [of "sofar + 1"] Suc.prems by (simp add: case_prod_unfold Let_def)
qed (simp add: case_prod_unfold)

text \<open>
  The lines of quoted-printable text have at most 77 characters if the text has no CR. The limit of
  RFC 2045 is 76, and it is exceeded: 74 letters and a space before the end of the line are written
  as a line of 77.
\<close>

theorem quoted_lines_bounded:
  assumes "special_table tbl" "CR \<notin> set s"
  shows "line_length 77 0 (fst (camel_quoted_encode_close tbl s None 0)) \<noteq> None
    \<and> line_length 76 0 (fst (camel_quoted_encode_close tbl (replicate 74 0x41 @ [SP, LF]) None 0)) = None"
proof
  obtain out l sf where e: "quoted_encode_loop tbl None 0 s = (out, l, sf)" by (metis prod_cases3)
  have "line_state None 0" by (simp add: line_state_def)
  from encode_loop_line [OF assms(1) this assms(2) e] have "line_state l sf" "line_length 77 0 out = Some sf" by auto
  then show "line_length 77 0 (fst (camel_quoted_encode_close tbl s None 0)) \<noteq> None"
    using e by (auto simp: camel_quoted_encode_close_def camel_quoted_encode_step_def line_state_def line_length_append line_length_hex)
  have full: "line_length 76 n (replicate k 0x41) = Some (n + k)" if "n + k \<le> 76" for n k
    using that by (induction k arbitrary: n) auto
  have "quoted_encode_loop tbl None 74 [SP, LF] = (hex_escape SP @ [LF], None, 0)"
    using qpsafe_chars [OF assms(1)] by (simp add: quoted_encode_char_def)
  then have "fst (camel_quoted_encode_close tbl (replicate 74 0x41 @ [SP, LF]) None 0) = replicate 74 0x41 @ hex_escape SP @ [LF]"
    using encode_full_line [OF assms(1), of 0 74 "[SP, LF]"] by (simp add: camel_quoted_encode_close_def camel_quoted_encode_step_def)
  moreover have "line_length 76 74 (hex_escape SP @ [LF]) = None"
    using tohex_not_lf [of 0] tohex_not_lf [of 2] by (simp add: hex_escape_def)
  ultimately show "line_length 76 0 (fst (camel_quoted_encode_close tbl (replicate 74 0x41 @ [SP, LF]) None 0)) = None"
    using full [of 0 74] by (simp only: line_length_append) simp
qed

theorem quoted_lines_bounded_witness:
  "line_length 77 0 (fst (camel_quoted_encode_close gentables [0x41, 0x20, 0x0a] None 0)) \<noteq> None
    \<and> line_length 76 0 (fst (camel_quoted_encode_close gentables (replicate 74 0x41 @ [0x20, 0x0a]) None 0)) = None"
  using quoted_lines_bounded [OF gentables_ok, of "[0x41, 0x20, 0x0a]"] by simp

section \<open>The Q encoding of header words\<close>

lemma decode_word_escape:
  "len \<ge> 2 \<Longrightarrow> quoted_decode_word len (hex_escape c @ inp) = map_option ((#) c) (quoted_decode_word len inp)"
  using tohex_nibble [of c] tohex_nibble [of "drop_bit 4 c"] nibbles [of c] by (simp add: hex_escape_def)

text \<open>
  The Q encoding of a header word is decoded to the word, for every set of characters that are left
  as they are, if it has neither \<^verbatim>\<open>=\<close> nor the underscore, which stands for the space.
\<close>

theorem q_round_trip:
  assumes "tbl EQ AND safemask = 0" "tbl 0x5f AND safemask = 0"
  shows "quoted_decode (quoted_encode tbl s safemask) = Some s"
proof -
  have *: "quoted_decode_word len (quoted_encode tbl s safemask) = Some s" if "len \<ge> 2 \<or> length (quoted_encode tbl s safemask) < 2" for len s
    using that
  proof (induction s)
    case Nil
    then show ?case by (simp add: quoted_encode_def)
  next
    case (Cons c s)
    have l: "len \<ge> 2 \<or> length (quoted_encode tbl s safemask) < 2" using Cons.prems by (auto simp: quoted_encode_def)
    have "c \<noteq> SP \<Longrightarrow> tbl c AND safemask = 0 \<Longrightarrow> len \<ge> 2" using Cons.prems by (auto simp: quoted_encode_def)
    then show ?case using Cons.IH [OF l] decode_word_escape [of len c "quoted_encode tbl s safemask"] assms
      by (auto simp: quoted_encode_def)
  qed
  show ?thesis unfolding quoted_decode_def by (rule *) linarith
qed

theorem q_round_trip_witness:
  "quoted_decode (quoted_encode gentables [0x41, 0x20, 0xe9, 0x3d] 0x80) = Some [0x41, 0x20, 0xe9, 0x3d]"
  using q_round_trip [of gentables "0x80" "[0x41, 0x20, 0xe9, 0x3d]"] by (simp add: gentables_def)

text \<open>
  A truncated escape at the end of an encoded word makes the decoder read behind its input: the
  guard tests the length of the whole input, so that it only helps if the \<^verbatim>\<open>=\<close> is all there is.
\<close>

theorem q_decode_overread:
  assumes "EQ \<notin> set s" "t = [] \<or> (\<exists>d. t = [d])"
  shows "quoted_decode (s @ EQ # t) = (if s = [] \<and> t = [] then Some [] else None)"
proof -
  have "quoted_decode_word len (s @ EQ # t) = None" if "len \<ge> 2" for len
    using assms that by (induction s) auto
  then show ?thesis by (auto simp: quoted_decode_def Suc_le_eq)
qed

theorem q_decode_overread_witness:
  "quoted_decode ([0x41, 0x42] @ 0x3d # [0x45]) = None"
  using q_decode_overread [of "[0x41, 0x42]" "[0x45]"] by simp

end
