(* ===== verification/Camel_Uu.thy ===== *)
theory Camel_Uu
  imports Camel_Bytes
begin

text \<open>
  Uuencoding, from \<^verbatim>\<open>camel/camel-mime-utils.c\<close>. Both directions work on chunks. The packed \<^verbatim>\<open>state\<close>
  (a counter in the low octet, the length of the line in the second, two flags above) is the record
  \<open>uu_state\<close>, \<^verbatim>\<open>uubuf\<close> the list of the octets of the line so far, of which the code uses the first
  \<^verbatim>\<open>(uulen / 3) * 4\<close>. The loops of the encoder are nested as in the code and may not end for a counter
  that no call leaves behind; \<^const>\<open>None\<close> is that case. The property is that decoding what was encoded
  in any number of chunks gives the data.
\<close>

record uu_state =
  uu_i :: nat
  uu_len :: nat
  uu_begin :: bool
  uu_end :: bool

definition uuencode_char :: "byte \<Rightarrow> byte" where
  "uuencode_char c = (if c \<noteq> 0 then c + 0x20 else 0x60)"

definition uudecode_char :: "byte \<Rightarrow> byte" where
  "uudecode_char c = (c - 0x20) AND 0x3f"

section \<open>Encoding\<close>

text \<open>Three octets as four characters.\<close>

definition uu_group :: "guint32 \<Rightarrow> byte list" where
  "uu_group saved =
     (let b0 = ucast (drop_bit 16 saved) :: byte; b1 = ucast (drop_bit 8 saved AND 0xff); b2 = ucast (saved AND 0xff)
      in [uuencode_char (drop_bit 2 b0 AND 0x3f),
          uuencode_char ((push_bit 4 b0 OR (drop_bit 4 b1 AND 0xf)) AND 0x3f),
          uuencode_char ((push_bit 2 b1 OR (drop_bit 6 b2 AND 0x3)) AND 0x3f),
          uuencode_char (b2 AND 0x3f)])"

fun uu_fill :: "nat \<Rightarrow> guint32 \<Rightarrow> byte list \<Rightarrow> nat \<times> guint32 \<times> byte list" where
  "uu_fill i saved [] = (i, saved, [])"
| "uu_fill i saved (b # inp) = (if i < 3 then uu_fill (i + 1) (push_bit 8 saved OR ucast b) inp else (i, saved, b # inp))"

text \<open>The loop over the groups of a line, with the octets that are left.\<close>

partial_function (option) uu_line ::
    "nat \<Rightarrow> nat \<Rightarrow> guint32 \<Rightarrow> byte list \<Rightarrow> byte list \<Rightarrow> (nat \<times> nat \<times> guint32 \<times> byte list \<times> byte list) option" where
  "uu_line uulen i saved buf inp =
     (if uulen < 45 \<and> inp \<noteq> [] then
        (let (i, saved, inp) = uu_fill i saved inp
         in if i = 3 then uu_line (uulen + 3) 0 0 (buf @ uu_group saved) inp
            else uu_line uulen i saved buf inp)
      else Some (uulen, i, saved, buf, inp))"

partial_function (option) uuencode_loop ::
    "nat \<Rightarrow> nat \<Rightarrow> guint32 \<Rightarrow> byte list \<Rightarrow> byte list \<Rightarrow> byte list \<Rightarrow> (byte list \<times> nat \<times> nat \<times> guint32 \<times> byte list) option" where
  "uuencode_loop uulen i saved buf out inp =
     (if inp \<noteq> [] then
        (case uu_line uulen i saved buf inp of
           None \<Rightarrow> None
         | Some (uulen, i, saved, buf, inp) \<Rightarrow>
             (if uulen \<ge> 45
              then uuencode_loop 0 i saved [] (out @ [uuencode_char (of_nat uulen)] @ take ((uulen div 3) * 4) buf @ [0x0a]) inp
              else uuencode_loop uulen i saved buf out inp))
      else Some (out, uulen, i, saved, buf))"

definition camel_uuencode_step ::
    "byte list \<Rightarrow> byte list \<Rightarrow> uu_state \<Rightarrow> guint32 \<Rightarrow> (byte list \<times> byte list \<times> uu_state \<times> guint32) option" where
  "camel_uuencode_step inp uubuf state save =
     map_option (\<lambda>(out, uulen, i, saved, buf).
         (out, buf, \<lparr>uu_i = i mod 256, uu_len = uulen mod 256, uu_begin = False, uu_end = False\<rparr>, saved))
       (uuencode_loop (uu_len state) (uu_i state) save (take ((uu_len state div 3) * 4) uubuf) [] inp)"

function uu_pad :: "nat \<Rightarrow> nat \<Rightarrow> guint32 \<Rightarrow> nat \<times> nat \<times> guint32" where
  "uu_pad i uufill saved = (if i < 3 then uu_pad (i + 1) (uufill + 1) (push_bit 8 saved) else (i, uufill, saved))"
  by pat_completeness auto
termination by (relation "measure (\<lambda>(i, uufill, saved). 3 - i)") auto

declare uu_pad.simps [simp del]

definition camel_uuencode_close ::
    "byte list \<Rightarrow> byte list \<Rightarrow> uu_state \<Rightarrow> guint32 \<Rightarrow> byte list option" where
  "camel_uuencode_close inp uubuf state save =
     (case (if length inp > 0 then camel_uuencode_step inp uubuf state save else Some ([], uubuf, state, save)) of
        None \<Rightarrow> None
      | Some (out, uubuf, state, save) \<Rightarrow>
          (let i = uu_i state; uulen = uu_len state; buf = take ((uulen div 3) * 4) uubuf;
               (uufill, uulen, buf) =
                 (if i > 0 then
                    (let (i, uufill, saved) = uu_pad i 0 save
                     in if i = 3 then (uufill, uulen + 3, buf @ uu_group saved) else (uufill, uulen, buf))
                  else (0, uulen, buf));
               (out, uulen) =
                 (if uulen > 0
                  then (out @ [uuencode_char (of_int (int uulen - int uufill))] @ take ((uulen div 3) * 4) buf @ [0x0a], 0)
                  else (out, uulen))
           in Some (out @ [uuencode_char (of_nat uulen), 0x0a])))"

section \<open>Decoding\<close>

definition uu_bytes :: "guint32 \<Rightarrow> byte list" where
  "uu_bytes saved =
     (let b0 = ucast (drop_bit 24 saved) :: byte; b1 = ucast (drop_bit 16 saved AND 0xff);
          b2 = ucast (drop_bit 8 saved AND 0xff); b3 = ucast (saved AND 0xff)
      in [push_bit 2 (uudecode_char b0) OR drop_bit 4 (uudecode_char b1),
          push_bit 4 (uudecode_char b1) OR drop_bit 2 (uudecode_char b2),
          push_bit 6 (uudecode_char b2) OR uudecode_char b3])"

text \<open>The result is the output, \<^verbatim>\<open>uulen\<close>, the counter, \<^verbatim>\<open>saved\<close> and whether the end was seen.\<close>

fun uudecode_loop :: "int \<Rightarrow> nat \<Rightarrow> guint32 \<Rightarrow> bool \<Rightarrow> byte list \<Rightarrow> byte list \<times> int \<times> nat \<times> guint32 \<times> bool" where
  "uudecode_loop uulen i saved last_was_eoln [] = ([], uulen, i, saved, False)"
| "uudecode_loop uulen i saved last_was_eoln (ch # inp) =
     (if ch = 0x0a \<or> last_was_eoln then
        (if last_was_eoln \<and> ch \<noteq> 0x0a then
           (let uulen = uint (uudecode_char ch)
            in if uulen = 0 then ([], uulen, i, saved, True) else uudecode_loop uulen i saved False inp)
         else uudecode_loop uulen i saved True inp)
      else if uulen > 0 then
        (let saved = push_bit 8 saved OR ucast ch; i = i + 1
         in if i = 4 then
              apfst ((@) (if uulen \<ge> 3 then uu_bytes saved else take (nat uulen) (uu_bytes saved)))
                (uudecode_loop (uulen - 3) 0 0 last_was_eoln inp)
            else uudecode_loop uulen i saved last_was_eoln inp)
      else ([], uulen, i, saved, False))"

definition camel_uudecode_step ::
    "byte list \<Rightarrow> uu_state \<Rightarrow> guint32 \<Rightarrow> byte list \<times> uu_state \<times> guint32" where
  "camel_uudecode_step inp state save =
     (if uu_end state then ([], state, save)
      else (case uudecode_loop (int (uu_len state)) (uu_i state) save (uu_len state = 0) inp of
              (out, uulen, i, saved, finished) \<Rightarrow>
                (out, state\<lparr>uu_i := i mod 256, uu_len := nat (uulen mod 256), uu_end := finished\<rparr>, saved)))"

section \<open>The encoder, octet by octet\<close>

text \<open>
  The octets of the current line that have been read, and how the state of the encoder represents
  them: complete groups in the buffer, up to two octets in \<^verbatim>\<open>saved\<close>.
\<close>

definition pack :: "byte list \<Rightarrow> guint32" where
  "pack bs = fold (\<lambda>b v. push_bit 8 v OR ucast b) bs 0"

fun uu_groups :: "byte list \<Rightarrow> byte list" where
  "uu_groups (a # b # c # bs) = uu_group (pack [a, b, c]) @ uu_groups bs"
| "uu_groups _ = []"

fun uu_rest :: "byte list \<Rightarrow> byte list" where
  "uu_rest (a # b # c # bs) = uu_rest bs"
| "uu_rest bs = bs"

lemma uu_snoc:
  "length (uu_rest bs) = length bs mod 3"
  "length (uu_rest bs) = 2 \<Longrightarrow> uu_groups (bs @ [b]) = uu_groups bs @ uu_group (pack (uu_rest bs @ [b]))"
  "length (uu_rest bs) = 2 \<Longrightarrow> uu_rest (bs @ [b]) = []"
  "length (uu_rest bs) < 2 \<Longrightarrow> uu_groups (bs @ [b]) = uu_groups bs"
  "length (uu_rest bs) < 2 \<Longrightarrow> uu_rest (bs @ [b]) = uu_rest bs @ [b]"
  "length (uu_groups bs) = length bs div 3 * 4"
proof (induction bs rule: uu_rest.induct)
  case (1 a b c bs)
  {
    case 1
    then show ?case using "1.IH" by simp
  next
    case 2
    then show ?case using "1.IH" by simp
  next
    case 3
    then show ?case using "1.IH" by simp
  next
    case 4
    then show ?case using "1.IH" by simp
  next
    case 5
    then show ?case using "1.IH" by simp
  next
    case 6
    have "length (uu_group v) = 4" for v by (simp add: uu_group_def Let_def)
    moreover have "(3 + length bs) div 3 * 4 = 4 + length bs div 3 * 4" by (simp add: div_add_self1)
    ultimately show ?case using "1.IH"(6) by simp
  }
qed auto

lemma pack_snoc: "pack (bs @ [b]) = push_bit 8 (pack bs) OR ucast b"
  by (simp add: pack_def)

text \<open>What one more octet does to a line of fewer than 45.\<close>

definition uu_emit :: "byte list \<Rightarrow> byte list" where
  "uu_emit line = uuencode_char (of_nat (length line)) # uu_groups line @ [0x0a]"

fun uu_feed :: "byte list \<Rightarrow> byte list \<Rightarrow> byte list \<times> byte list" where
  "uu_feed line [] = ([], line)"
| "uu_feed line (b # bs) =
     (if length line = 44 then apfst ((@) (uu_emit (line @ [b]))) (uu_feed [] bs) else uu_feed (line @ [b]) bs)"

lemma uu_line_step:
  assumes "i < 3" "uulen < 45"
  shows "uu_line uulen i saved buf (b # bs) =
    (if i + 1 = 3 then uu_line (uulen + 3) 0 0 (buf @ uu_group (push_bit 8 saved OR ucast b)) bs
     else uu_line uulen (i + 1) (push_bit 8 saved OR ucast b) buf bs)"
proof (cases "i + 1 = 3")
  case True
  have "uu_fill 3 s bs = (3, s, bs)" for s by (cases bs) auto
  moreover have "i = 2" using True by simp
  ultimately show ?thesis using assms by (simp add: uu_line.simps [of uulen 2 saved buf "b # bs"])
next
  case False
  let ?s = "push_bit 8 saved OR ucast b"
  show ?thesis
  proof (cases bs)
    case Nil
    then show ?thesis using assms False
      by (simp add: uu_line.simps [of uulen i saved buf "[b]"])
  next
    case (Cons b' bs')
    then show ?thesis using assms False
      by (simp add: uu_line.simps [of uulen i saved buf "b # b' # bs'"] uu_line.simps [of uulen "Suc i" ?s buf "b' # bs'"])
  qed
qed

lemma uu_line_stop: "\<not> (uulen < 45 \<and> inp \<noteq> []) \<Longrightarrow> uu_line uulen i saved buf inp = Some (uulen, i, saved, buf, inp)"
  by (subst uu_line.simps) auto

lemma uuencode_loop_step:
  assumes "i < 3" "uulen < 45"
  shows "uuencode_loop uulen i saved buf out (b # bs) =
    (if i + 1 = 3 then
       (let buf = buf @ uu_group (push_bit 8 saved OR ucast b)
        in if uulen + 3 \<ge> 45
           then uuencode_loop 0 0 0 [] (out @ [uuencode_char (of_nat (uulen + 3))] @ take (((uulen + 3) div 3) * 4) buf @ [0x0a]) bs
           else uuencode_loop (uulen + 3) 0 0 buf out bs)
     else uuencode_loop uulen (i + 1) (push_bit 8 saved OR ucast b) buf out bs)"
proof -
  have same: "uuencode_loop u j s bf out bs =
      (case uu_line u j s bf bs of None \<Rightarrow> None
       | Some (u, j, s, bf, inp) \<Rightarrow>
           (if u \<ge> 45 then uuencode_loop 0 j s [] (out @ [uuencode_char (of_nat u)] @ take ((u div 3) * 4) bf @ [0x0a]) inp
            else uuencode_loop u j s bf out inp))" if "u < 45" for u j s bf
  proof (cases "bs = []")
    case True
    then show ?thesis using that by (simp add: uu_line_stop)
  next
    case False
    then show ?thesis by (subst uuencode_loop.simps) simp
  qed
  have e: "uuencode_loop uulen i saved buf out (b # bs) =
      (case uu_line uulen i saved buf (b # bs) of None \<Rightarrow> None
       | Some (u, j, s, bf, inp) \<Rightarrow>
           (if u \<ge> 45 then uuencode_loop 0 j s [] (out @ [uuencode_char (of_nat u)] @ take ((u div 3) * 4) bf @ [0x0a]) inp
            else uuencode_loop u j s bf out inp))"
    by (subst uuencode_loop.simps) simp
  show ?thesis
  proof (cases "i + 1 = 3")
    case True
    show ?thesis
    proof (cases "uulen + 3 \<ge> 45")
      case True
      then show ?thesis unfolding e uu_line_step [OF assms] using \<open>i + 1 = 3\<close> by (simp add: uu_line_stop)
    next
      case False
      then show ?thesis unfolding e uu_line_step [OF assms] using \<open>i + 1 = 3\<close> same [of "uulen + 3"] by simp
    qed
  next
    case False
    then show ?thesis unfolding e uu_line_step [OF assms] using same [OF assms(2)] by simp
  qed
qed

text \<open>The state represents the octets of the line.\<close>

lemma uuencode_loop_feed:
  assumes "length line < 45"
  shows "\<exists>o' line'. uu_feed line bs = (o', line') \<and> length line' < 45
    \<and> uuencode_loop (length line div 3 * 3) (length line mod 3) (pack (uu_rest line)) (uu_groups line) out bs
      = Some (out @ o', length line' div 3 * 3, length line' mod 3, pack (uu_rest line'), uu_groups line')"
  using assms
proof (induction bs arbitrary: line out)
  case Nil
  then show ?case by (subst uuencode_loop.simps) simp
next
  case (Cons b bs)
  let ?n = "length line"
  have i: "?n mod 3 < 3" "?n div 3 * 3 < 45" using Cons.prems by auto
  note st = uuencode_loop_step [OF i, of "pack (uu_rest line)" "uu_groups line" out b bs, folded pack_snoc]
  show ?case
  proof (cases "?n mod 3 = 2")
    case True
    then have r: "length (uu_rest line) = 2" by (simp add: uu_snoc(1))
    have n: "?n div 3 * 3 + 3 = Suc ?n" "Suc ?n mod 3 = 0" "Suc ?n div 3 * 3 = Suc ?n" using True by presburger+
    note g = uu_snoc(2,3) [OF r]
    show ?thesis
    proof (cases "?n = 44")
      case True
      have "length (uu_groups (line @ [b])) = 60" using True by (simp add: uu_snoc(6))
      then have "uuencode_loop (?n div 3 * 3) (?n mod 3) (pack (uu_rest line)) (uu_groups line) out (b # bs)
          = uuencode_loop 0 0 0 [] (out @ uu_emit (line @ [b])) bs"
        using st True g by (simp add: uu_emit_def)
      then show ?thesis using Cons.IH [of "[]" "out @ uu_emit (line @ [b])"] True by (auto simp: pack_def)
    next
      case False
      then have "\<not> ?n div 3 * 3 + 3 \<ge> 45" using Cons.prems n by simp
      then have "uuencode_loop (?n div 3 * 3) (?n mod 3) (pack (uu_rest line)) (uu_groups line) out (b # bs)
          = uuencode_loop (length (line @ [b]) div 3 * 3) (length (line @ [b]) mod 3) (pack (uu_rest (line @ [b]))) (uu_groups (line @ [b])) out bs"
        using st g n \<open>?n mod 3 = 2\<close> by (simp add: pack_def)
      moreover have "length (line @ [b]) < 45" using False Cons.prems by simp
      ultimately show ?thesis using Cons.IH [of "line @ [b]" out] False by simp
    qed
  next
    case False
    then have r: "length (uu_rest line) < 2" using i(1) by (simp add: uu_snoc(1))
    have n: "Suc ?n div 3 = ?n div 3" "Suc ?n mod 3 = ?n mod 3 + 1" "?n \<noteq> 44" using False by presburger+
    have "uuencode_loop (?n div 3 * 3) (?n mod 3) (pack (uu_rest line)) (uu_groups line) out (b # bs)
        = uuencode_loop (length (line @ [b]) div 3 * 3) (length (line @ [b]) mod 3) (pack (uu_rest (line @ [b]))) (uu_groups (line @ [b])) out bs"
      using st uu_snoc(4,5) [OF r] n False by simp
    moreover have "length (line @ [b]) < 45" using n(3) Cons.prems by simp
    ultimately show ?thesis using Cons.IH [of "line @ [b]" out] n(3) by simp
  qed
qed

section \<open>Encoding a message in chunks\<close>

fun uuencode_chunks :: "byte list list \<Rightarrow> byte list \<Rightarrow> byte list \<Rightarrow> uu_state \<Rightarrow> guint32 \<Rightarrow> byte list option" where
  "uuencode_chunks [] final uubuf state save = camel_uuencode_close final uubuf state save"
| "uuencode_chunks (c # cs) final uubuf state save =
     (case camel_uuencode_step c uubuf state save of
        None \<Rightarrow> None
      | Some (out, uubuf, state, save) \<Rightarrow> map_option ((@) out) (uuencode_chunks cs final uubuf state save))"

definition uu_init :: uu_state where
  "uu_init = \<lparr>uu_i = 0, uu_len = 0, uu_begin = False, uu_end = False\<rparr>"

definition uu_rep :: "byte list \<Rightarrow> byte list \<Rightarrow> uu_state \<Rightarrow> guint32 \<Rightarrow> bool" where
  "uu_rep line uubuf state save \<longleftrightarrow> length line < 45 \<and> uu_i state = length line mod 3 \<and> uu_len state = length line div 3 * 3
     \<and> save = pack (uu_rest line) \<and> take (length line div 3 * 4) uubuf = uu_groups line"

lemma uuencode_step_feed:
  assumes "uu_rep line uubuf state save"
  shows "\<exists>out line' uubuf' state' save'. uu_feed line bs = (out, line')
    \<and> camel_uuencode_step bs uubuf state save = Some (out, uubuf', state', save') \<and> uu_rep line' uubuf' state' save'"
proof -
  have l: "length line < 45" using assms by (simp add: uu_rep_def)
  obtain o' line' where f: "uu_feed line bs = (o', line')" "length line' < 45"
      "uuencode_loop (length line div 3 * 3) (length line mod 3) (pack (uu_rest line)) (uu_groups line) [] bs
        = Some (o', length line' div 3 * 3, length line' mod 3, pack (uu_rest line'), uu_groups line')"
    using uuencode_loop_feed [OF l, of bs "[]"] by auto
  have "length line' div 3 * 3 < 256" "length line' mod 3 < 256" using f(2) by presburger+
  then show ?thesis using assms f by (auto simp: camel_uuencode_step_def uu_rep_def uu_snoc(6))
qed

lemma uu_feed_append: "uu_feed line (bs @ cs) = (let (o1, l1) = uu_feed line bs; (o2, l2) = uu_feed l1 cs in (o1 @ o2, l2))"
  by (induction line bs rule: uu_feed.induct) (auto simp: case_prod_unfold Let_def)

text \<open>The last line is padded with zero octets to complete its last group.\<close>

definition uu_padded :: "byte list \<Rightarrow> byte list" where
  "uu_padded line = line @ replicate ((3 - length line mod 3) mod 3) 0"

definition uu_finish :: "byte list \<Rightarrow> byte list" where
  "uu_finish line = (if line = [] then [] else uuencode_char (of_nat (length line)) # uu_groups (uu_padded line) @ [0x0a]) @ [0x60, 0x0a]"

lemma uu_pad_eval:
  "uu_pad (Suc 0) 0 v = (3, 2, push_bit 8 (push_bit 8 v))" "uu_pad 2 0 v = (3, Suc 0, push_bit 8 v)"
  by (simp_all add: uu_pad.simps [of "Suc 0"] uu_pad.simps [of "Suc (Suc 0)"] uu_pad.simps [of 2] uu_pad.simps [of "Suc (Suc (Suc 0))"] numeral_3_eq_3 del: push_bit_push_bit)

lemma uu_padded_groups:
  "length line mod 3 = 0 \<Longrightarrow> uu_groups (uu_padded line) = uu_groups line"
  "length line mod 3 = 1 \<Longrightarrow> uu_groups (uu_padded line) = uu_groups line @ uu_group (push_bit 8 (push_bit 8 (pack (uu_rest line))))"
  "length line mod 3 = 2 \<Longrightarrow> uu_groups (uu_padded line) = uu_groups line @ uu_group (push_bit 8 (pack (uu_rest line)))"
proof -
  show "length line mod 3 = 0 \<Longrightarrow> uu_groups (uu_padded line) = uu_groups line" by (simp add: uu_padded_def)
next
  assume m: "length line mod 3 = 1"
  then have "length (uu_rest line) < 2" by (simp add: uu_snoc(1))
  note a = uu_snoc(4,5) [OF this, of 0]
  have b: "length (uu_rest (line @ [0])) = 2" using m by (simp add: uu_snoc(1) mod_Suc)
  have "uu_padded line = (line @ [0]) @ [0]" using m by (simp add: uu_padded_def numeral_2_eq_2)
  then show "uu_groups (uu_padded line) = uu_groups line @ uu_group (push_bit 8 (push_bit 8 (pack (uu_rest line))))"
    using uu_snoc(2) [OF b, of 0] a pack_snoc [of "uu_rest line" 0] pack_snoc [of "uu_rest line @ [0]" 0]
    by (simp del: push_bit_push_bit append_assoc)
next
  assume m: "length line mod 3 = 2"
  then have b: "length (uu_rest line) = 2" by (simp add: uu_snoc(1))
  have "uu_padded line = line @ [0]" using m by (simp add: uu_padded_def)
  then show "uu_groups (uu_padded line) = uu_groups line @ uu_group (push_bit 8 (pack (uu_rest line)))"
    using uu_snoc(2) [OF b, of 0] pack_snoc [of "uu_rest line" 0] by simp
qed

lemma uuencode_close_rep:
  assumes "uu_rep line uubuf state save"
  shows "camel_uuencode_close [] uubuf state save = Some (uu_finish line)"
proof -
  let ?n = "length line"
  have s: "uu_i state = ?n mod 3" "uu_len state = ?n div 3 * 3" "save = pack (uu_rest line)" "take (?n div 3 * 4) uubuf = uu_groups line"
    using assms by (auto simp: uu_rep_def)
  have g: "length (uu_group v) = 4" for v by (simp add: uu_group_def Let_def)
  have z: "uuencode_char 0 = 0x60" by (simp add: uuencode_char_def)
  consider "?n mod 3 = 0" | "?n mod 3 = 1" | "?n mod 3 = 2" by linarith
  then show ?thesis
  proof cases
    case 1
    then have "?n div 3 * 3 = ?n" by presburger
    then show ?thesis using 1 s uu_padded_groups(1) [OF 1]
      by (simp add: camel_uuencode_close_def uu_finish_def z uu_snoc(6) Let_def)
  next
    case 2
    have n: "int (?n div 3 * 3 + 3) - int 2 = int ?n" "line \<noteq> []" using 2 by (presburger, auto)
    have "(?n div 3 * 3 + 3) div 3 * 4 = ?n div 3 * 4 + 4" by simp
    then show ?thesis using 2 s uu_padded_groups(2) [OF 2] n
      by (simp add: camel_uuencode_close_def uu_finish_def z uu_snoc(6) uu_pad_eval g Let_def del: push_bit_push_bit)
  next
    case 3
    have n: "int (?n div 3 * 3 + 3) - int (Suc 0) = int ?n" "line \<noteq> []" using 3 by (presburger, auto)
    have "(?n div 3 * 3 + 3) div 3 * 4 = ?n div 3 * 4 + 4" by simp
    then show ?thesis using 3 s uu_padded_groups(3) [OF 3] n
      by (simp add: camel_uuencode_close_def uu_finish_def z uu_snoc(6) uu_pad_eval g Let_def)
  qed
qed

lemma uuencode_close_feed:
  assumes "uu_rep line uubuf state save"
  shows "camel_uuencode_close final uubuf state save = (case uu_feed line final of (out, line') \<Rightarrow> Some (out @ uu_finish line'))"
proof (cases "final = []")
  case True
  then show ?thesis using uuencode_close_rep [OF assms] by simp
next
  case False
  obtain out line' uubuf' state' save' where f: "uu_feed line final = (out, line')"
      "camel_uuencode_step final uubuf state save = Some (out, uubuf', state', save')" "uu_rep line' uubuf' state' save'"
    using uuencode_step_feed [OF assms, of final] by blast
  have "camel_uuencode_close final uubuf state save = map_option ((@) out) (camel_uuencode_close [] uubuf' state' save')"
    using False f(2) by (simp add: camel_uuencode_close_def case_prod_unfold Let_def)
  then show ?thesis using f(1) uuencode_close_rep [OF f(3)] by simp
qed

lemma uuencode_chunks_feed:
  assumes "uu_rep line uubuf state save"
  shows "uuencode_chunks css final uubuf state save =
    (case uu_feed line (concat css @ final) of (out, line') \<Rightarrow> Some (out @ uu_finish line'))"
  using assms
proof (induction css arbitrary: line uubuf state save)
  case Nil
  then show ?case by (simp add: uuencode_close_feed)
next
  case (Cons c css)
  obtain out line' uubuf' state' save' where f: "uu_feed line c = (out, line')"
      "camel_uuencode_step c uubuf state save = Some (out, uubuf', state', save')" "uu_rep line' uubuf' state' save'"
    using uuencode_step_feed [OF Cons.prems, of c] by blast
  show ?case using Cons.IH [OF f(3)] f(1,2)
    by (simp add: uu_feed_append [of line c "concat css @ final"] case_prod_unfold Let_def)
qed

section \<open>Decoding what was encoded\<close>

lemma uu_char_inverse:
  "uudecode_char (uuencode_char (x AND 0x3f)) = x AND 0x3f"
  "uuencode_char (x AND 0x3f) \<noteq> 0x0a"
proof -
  have "\<forall>x. uudecode_char (uuencode_char (x AND 0x3f)) = x AND 0x3f \<and> uuencode_char (x AND 0x3f) \<noteq> 0x0a"
    unfolding all_bytes by code_simp
  then show "uudecode_char (uuencode_char (x AND 0x3f)) = x AND 0x3f" "uuencode_char (x AND 0x3f) \<noteq> 0x0a" by blast+
qed

lemma uu_len_char:
  assumes "0 < n" "n \<le> 45"
  shows "uint (uudecode_char (uuencode_char (of_nat n))) = int n" "uuencode_char (of_nat n) \<noteq> 0x0a"
proof -
  have "list_all (\<lambda>n. uint (uudecode_char (uuencode_char (of_nat n))) = int n \<and> uuencode_char (of_nat n) \<noteq> 0x0a) [1..<46]"
    by code_simp
  moreover have "n \<in> set [1..<46]" using assms by simp
  ultimately show "uint (uudecode_char (uuencode_char (of_nat n))) = int n" "uuencode_char (of_nat n) \<noteq> 0x0a"
    unfolding list_all_iff by blast+
qed

lemma pack_octets:
  "ucast (drop_bit 16 (pack [a, b, c])) = a" "ucast (drop_bit 8 (pack [a, b, c]) AND 0xff) = b" "ucast (pack [a, b, c] AND 0xff) = c"
  "ucast (drop_bit 24 (pack [a, b, c, d])) = a" "ucast (drop_bit 16 (pack [a, b, c, d]) AND 0xff) = b"
  "ucast (drop_bit 8 (pack [a, b, c, d]) AND 0xff) = c" "ucast (pack [a, b, c, d] AND 0xff) = d"
  by (rule bit_word_eqI; auto simp: pack_def bit_simps mask_numerals dest: bit_imp_le_length)+

lemma uu_bits:
  fixes a b c :: byte
  shows "push_bit 2 (drop_bit 2 a AND 0x3f) OR drop_bit 4 ((push_bit 4 a OR (drop_bit 4 b AND 0xf)) AND 0x3f) = a"
    "push_bit 4 ((push_bit 4 a OR (drop_bit 4 b AND 0xf)) AND 0x3f) OR drop_bit 2 ((push_bit 2 b OR (drop_bit 6 c AND 0x3)) AND 0x3f) = b"
    "push_bit 6 ((push_bit 2 b OR (drop_bit 6 c AND 0x3)) AND 0x3f) OR (c AND 0x3f) = c"
proof -
  show "push_bit 2 (drop_bit 2 a AND 0x3f) OR drop_bit 4 ((push_bit 4 a OR (drop_bit 4 b AND 0xf)) AND 0x3f) = a"
  proof (rule bit_word_eqI)
    fix n assume "n < LENGTH(8)"
    moreover have "\<not> n < 2 \<Longrightarrow> Suc (Suc (n - 2)) = n" by simp
    ultimately show "bit (push_bit 2 (drop_bit 2 a AND 0x3f) OR drop_bit 4 ((push_bit 4 a OR (drop_bit 4 b AND 0xf)) AND 0x3f)) n = bit a n"
      by (cases "n < 2") (auto simp: bit_simps mask_numerals simp del: push_bit_and drop_bit_and push_bit_or drop_bit_or dest: bit_imp_le_length)
  qed
  show "push_bit 4 ((push_bit 4 a OR (drop_bit 4 b AND 0xf)) AND 0x3f) OR drop_bit 2 ((push_bit 2 b OR (drop_bit 6 c AND 0x3)) AND 0x3f) = b"
  proof (rule bit_word_eqI)
    fix n assume "n < LENGTH(8)"
    then show "bit (push_bit 4 ((push_bit 4 a OR (drop_bit 4 b AND 0xf)) AND 0x3f) OR drop_bit 2 ((push_bit 2 b OR (drop_bit 6 c AND 0x3)) AND 0x3f)) n = bit b n"
      by (cases "n < 4") (auto simp: bit_simps mask_numerals simp del: push_bit_and drop_bit_and push_bit_or drop_bit_or dest: bit_imp_le_length)
  qed
  show "push_bit 6 ((push_bit 2 b OR (drop_bit 6 c AND 0x3)) AND 0x3f) OR (c AND 0x3f) = c"
  proof (rule bit_word_eqI)
    fix n assume "n < LENGTH(8)"
    then show "bit (push_bit 6 ((push_bit 2 b OR (drop_bit 6 c AND 0x3)) AND 0x3f) OR (c AND 0x3f)) n = bit c n"
      by (cases "n < 6") (auto simp: bit_simps mask_numerals simp del: push_bit_and drop_bit_and push_bit_or drop_bit_or dest: bit_imp_le_length)
  qed
qed

lemma uu_group_chars:
  "\<exists>p q r s. uu_group (pack [a, b, c]) = [p, q, r, s] \<and> p \<noteq> 0x0a \<and> q \<noteq> 0x0a \<and> r \<noteq> 0x0a \<and> s \<noteq> 0x0a
     \<and> uu_bytes (pack [p, q, r, s]) = [a, b, c]"
  unfolding uu_group_def uu_bytes_def Let_def pack_octets
  by (intro exI conjI, rule refl, (rule uu_char_inverse)+, simp only: pack_octets uu_char_inverse uu_bits)

lemma uudecode_group:
  assumes "0 < uulen"
  shows "uudecode_loop uulen 0 0 False (uu_group (pack [a, b, c]) @ inp) =
    apfst ((@) (take (nat uulen) [a, b, c])) (uudecode_loop (uulen - 3) 0 0 False inp)"
proof -
  obtain p q r s where g: "uu_group (pack [a, b, c]) = [p, q, r, s]" "p \<noteq> 0x0a" "q \<noteq> 0x0a" "r \<noteq> 0x0a" "s \<noteq> 0x0a"
      "uu_bytes (pack [p, q, r, s]) = [a, b, c]"
    using uu_group_chars by blast
  have "pack [p, q, r, s] = push_bit 8 (push_bit 8 (push_bit 8 (ucast p) OR ucast q) OR ucast r) OR ucast s"
    by (simp add: pack_def)
  then show ?thesis using assms g by (simp add: Let_def del: push_bit_push_bit push_bit_or)
qed

lemma uudecode_groups:
  assumes "length bs mod 3 = 0" "uulen \<le> int (length bs)" "int (length bs) < uulen + 3"
  shows "uudecode_loop uulen 0 0 False (uu_groups bs @ 0x0a # inp) =
    apfst ((@) (take (nat uulen) bs)) (uudecode_loop (uulen - int (length bs)) 0 0 True inp)"
  using assms
proof (induction bs arbitrary: uulen rule: uu_groups.induct)
  case (1 a b c bs)
  show ?case
  proof (cases "uulen < 3")
    case True
    then have "bs = []" "0 < uulen" using 1 by auto
    then show ?thesis using uudecode_group [of uulen a b c] by simp
  next
    case False
    have "length bs mod 3 = 0" using "1.prems"(1) by simp
    moreover have "take (nat uulen) (a # b # c # bs) = [a, b, c] @ take (nat (uulen - 3)) bs"
    proof -
      have "nat uulen = Suc (Suc (Suc (nat (uulen - 3))))" using False by linarith
      then show ?thesis by simp
    qed
    ultimately show ?thesis using "1.IH" [of "uulen - 3"] "1.prems" False uudecode_group [of uulen a b c]
      by (simp add: apfst_compose [unfolded o_def] diff_diff_eq)
  qed
qed (auto simp: apfst_def map_prod_def case_prod_unfold)

lemma uudecode_line:
  assumes "length bs mod 3 = 0" "0 < n" "n \<le> 45" "n \<le> length bs" "length bs < n + 3"
  shows "uudecode_loop uulen 0 0 True (uuencode_char (of_nat n) # uu_groups bs @ 0x0a # inp) =
    apfst ((@) (take n bs)) (uudecode_loop (int n - int (length bs)) 0 0 True inp)"
  using uudecode_groups [of bs "int n" inp] assms uu_len_char [of n] by (simp add: Let_def)

lemma uudecode_feed:
  assumes "length line < 45" "uu_feed line bs = (out, line')"
  shows "length line' < 45 \<and> (\<exists>dn. line @ bs = dn @ line'
    \<and> (\<forall>uulen. \<exists>uulen'. \<forall>inp. uudecode_loop uulen 0 0 True (out @ inp) = apfst ((@) dn) (uudecode_loop uulen' 0 0 True inp)))"
  using assms
proof (induction line bs arbitrary: out rule: uu_feed.induct)
  case (1 line)
  then show ?case by (auto simp: apfst_def map_prod_def case_prod_unfold)
next
  case (2 line b bs)
  show ?case
  proof (cases "length line = 44")
    case False
    then show ?thesis using 2 by simp
  next
    case True
    obtain o2 where o2: "uu_feed [] bs = (o2, line')" "out = uu_emit (line @ [b]) @ o2"
      using "2.prems"(2) True by (cases "uu_feed [] bs") auto
    from "2.IH"(1) [OF True _ o2(1)] obtain dn where d: "length line' < 45" "bs = dn @ line'"
        "\<And>uulen. \<exists>uulen'. \<forall>inp. uudecode_loop uulen 0 0 True (o2 @ inp) = apfst ((@) dn) (uudecode_loop uulen' 0 0 True inp)"
      by auto
    have e: "uudecode_loop uulen 0 0 True (out @ inp) = apfst ((@) (line @ [b])) (uudecode_loop 0 0 0 True (o2 @ inp))" for uulen inp
      using uudecode_line [of "line @ [b]" 45 uulen "o2 @ inp"] True o2(2) by (simp add: uu_emit_def)
    obtain uulen' where u: "\<And>inp. uudecode_loop 0 0 0 True (o2 @ inp) = apfst ((@) dn) (uudecode_loop uulen' 0 0 True inp)"
      using d(3) by blast
    have "uudecode_loop uulen 0 0 True (out @ inp) = apfst ((@) (line @ b # dn)) (uudecode_loop uulen' 0 0 True inp)" for uulen inp
      unfolding e u by (cases "uudecode_loop uulen' 0 0 True inp") simp
    moreover have "line @ b # bs = (line @ b # dn) @ line'" using d(2) by simp
    ultimately show ?thesis using d(1) by blast
  qed
qed

lemma uudecode_finish:
  assumes "length line < 45"
  shows "uudecode_loop uulen 0 0 True (uu_finish line) = (line, 0, 0, 0, True)"
proof -
  have z: "uudecode_loop u 0 0 True [0x60, 0x0a] = ([], 0, 0, 0, True)" for u
    by (simp add: uudecode_char_def)
  show ?thesis
  proof (cases "line = []")
    case True
    then show ?thesis using z by (simp add: uu_finish_def)
  next
    case False
    let ?p = "uu_padded line"
    have "length ?p mod 3 = 0" "length line \<le> length ?p" "length ?p < length line + 3" "take (length line) ?p = line"
      unfolding uu_padded_def by (simp_all add: mod_simps) presburger+
    then show ?thesis using uudecode_line [of ?p "length line" uulen "[0x60, 0x0a]"] assms False z
      by (simp add: uu_finish_def)
  qed
qed

section \<open>The round trip\<close>

text \<open>
  C10. Whatever the chunks the data comes in (empty ones included), the uuencoder returns, and decoding
  its output gives the data back and finds the end of the encoded data.
\<close>

theorem uu_round_trip:
  "\<exists>e. uuencode_chunks css final uubuf uu_init 0 = Some e
     \<and> camel_uudecode_step e uu_init 0 = (concat css @ final, uu_init\<lparr>uu_end := True\<rparr>, 0)"
proof -
  have rep: "uu_rep [] uubuf uu_init 0" by (simp add: uu_rep_def uu_init_def pack_def)
  obtain out line' where f: "uu_feed [] (concat css @ final) = (out, line')" by fastforce
  obtain dn uulen' where d: "length line' < 45" "concat css @ final = dn @ line'"
      "\<And>inp. uudecode_loop 0 0 0 True (out @ inp) = apfst ((@) dn) (uudecode_loop uulen' 0 0 True inp)"
    using uudecode_feed [OF _ f] by (metis append_Nil list.size(3) zero_less_numeral)
  have "uudecode_loop 0 0 0 True (out @ uu_finish line') = (concat css @ final, 0, 0, 0, True)"
    using d(2,3) uudecode_finish [OF d(1), of uulen'] by auto
  then show ?thesis using uuencode_chunks_feed [OF rep, of css final] f
    by (simp add: camel_uudecode_step_def uu_init_def)
qed

section \<open>The size of the output\<close>

text \<open>Every full line takes 62 octets of output for 45 of input.\<close>

lemma uu_feed_size:
  assumes "length line < 45" "uu_feed line bs = (out, line')"
  shows "length line' < 45 \<and> 45 * length out + 62 * length line' = 62 * (length line + length bs)"
  using assms
proof (induction line bs arbitrary: out rule: uu_feed.induct)
  case (2 line b bs)
  show ?case
  proof (cases "length line = 44")
    case False
    then show ?thesis using 2 by simp
  next
    case True
    obtain o2 where "uu_feed [] bs = (o2, line')" "out = uu_emit (line @ [b]) @ o2"
      using "2.prems"(2) True by (cases "uu_feed [] bs") auto
    then show ?thesis using "2.IH"(1) [OF True, of o2] True by (simp add: uu_emit_def uu_snoc(6))
  qed
qed simp

lemma uu_finish_size: "3 * length (uu_finish line) \<le> 4 * length line + 20"
proof -
  let ?n = "length (uu_padded line)"
  have "?n \<le> length line + 2" by (simp add: uu_padded_def)
  then have "12 * (?n div 3) \<le> 4 * length line + 8" by linarith
  then show ?thesis by (simp add: uu_finish_def uu_snoc(6))
qed

text \<open>
  In every state that represents the beginning of a line, an encoder step and the closing call
  return, the step reaches such a state again with at most the 60 octets of \<^verbatim>\<open>uubuf\<close> in use, and the
  output of both fits the buffer that \<^verbatim>\<open>camel-mime-filter-basic.c\<close> allocates and asserts. The
  initial state is one of them.
\<close>

theorem uuencode_fits:
  assumes "uu_rep line uubuf state save"
  shows "(\<exists>out line' uubuf' state' save'. camel_uuencode_step inp uubuf state save = Some (out, uubuf', state', save')
      \<and> uu_rep line' uubuf' state' save' \<and> length uubuf' \<le> 60 \<and> length out \<le> (length inp + 2) * 2 + 62)
    \<and> (\<exists>out. camel_uuencode_close inp uubuf state save = Some out \<and> length out \<le> (length inp + 2) * 2 + 62)"
proof -
  have l: "length line < 45" using assms by (simp add: uu_rep_def)
  obtain out line' where f: "uu_feed line inp = (out, line')" by fastforce
  note sz = uu_feed_size [OF l f]
  have "length uubuf' \<le> 60" if "camel_uuencode_step inp uubuf state save = Some (out, uubuf', state', save')" for uubuf' state' save'
    using uuencode_loop_feed [OF l, of inp "[]"] that assms f sz
    by (auto simp: camel_uuencode_step_def uu_rep_def uu_snoc(6))
  moreover have "length out \<le> (length inp + 2) * 2 + 62" using sz l by simp
  ultimately have step: "\<exists>out line' uubuf' state' save'. camel_uuencode_step inp uubuf state save = Some (out, uubuf', state', save')
      \<and> uu_rep line' uubuf' state' save' \<and> length uubuf' \<le> 60 \<and> length out \<le> (length inp + 2) * 2 + 62"
    using uuencode_step_feed [OF assms, of inp] f by (metis prod.inject)
  have "length out + length (uu_finish line') \<le> (length inp + 2) * 2 + 62"
    using sz l uu_finish_size [of line'] f by (cases "inp = []") (auto simp: neq_Nil_conv)
  then have "\<exists>out. camel_uuencode_close inp uubuf state save = Some out \<and> length out \<le> (length inp + 2) * 2 + 62"
    using uuencode_close_feed [OF assms, of inp] f by simp
  with step show ?thesis by blast
qed

theorem uuencode_fits_witness:
  "\<exists>out. camel_uuencode_close [0x43, 0x61, 0x74] [] uu_init 0 = Some out \<and> length out \<le> (length [0x43, 0x61, 0x74 :: byte] + 2) * 2 + 62"
proof (rule uuencode_fits [THEN conjunct2])
  show "uu_rep [] [] uu_init 0" by (simp add: uu_rep_def uu_init_def pack_def)
qed

end
