(* ===== verification/Camel_Mime_Filter.thy ===== *)
theory Camel_Mime_Filter
  imports Camel_Bytes
begin

text \<open>
  The base class of the stream filters, \<^verbatim>\<open>camel/camel-mime-filter.c\<close>, and the filter of
  line ends, \<^verbatim>\<open>camel-mime-filter-crlf.c\<close>. A subclass extends
  the struct of its base class; so do the records. Of the buffers of the base class the model keeps the
  octets that are backed up for the next call. What the outputs need of the output buffer is stated
  separately. The contract of a filter that does not depend on where its input is cut is the locale
  \<open>chunked_filter\<close>.
\<close>

section \<open>The base class\<close>

record camel_mime_filter =
  backbuf :: "byte list"

definition filter_run ::
    "('a camel_mime_filter_scheme \<Rightarrow> byte list \<Rightarrow> 'r) \<Rightarrow> 'a camel_mime_filter_scheme \<Rightarrow> byte list \<Rightarrow> 'r" where
  "filter_run filterfunc f inp = filterfunc (f\<lparr>backbuf := []\<rparr>) (backbuf f @ inp)"

definition camel_mime_filter_backup :: "'a camel_mime_filter_scheme \<Rightarrow> byte list \<Rightarrow> 'a camel_mime_filter_scheme" where
  "camel_mime_filter_backup f data = f\<lparr>backbuf := data\<rparr>"

definition mime_filter_reset ::
    "('a camel_mime_filter_scheme \<Rightarrow> 'a camel_mime_filter_scheme) option \<Rightarrow> 'a camel_mime_filter_scheme \<Rightarrow> 'a camel_mime_filter_scheme" where
  "mime_filter_reset reset f = (case reset of None \<Rightarrow> f | Some r \<Rightarrow> r f)\<lparr>backbuf := []\<rparr>"

lemma backbuf_unchanged [simp]: "backbuf f = [] \<Longrightarrow> f\<lparr>backbuf := []\<rparr> = f"
  by (cases f) simp

section \<open>Filters that do not depend on the chunks\<close>

text \<open>
  A call to filter gives the output so far and the filter to go on with; a call to complete the rest
  of the output. Not returning is \<^const>\<open>None\<close>. The law of the interface is that filtering a prefix and
  completing with the rest is the same as completing with everything.
\<close>

fun filter_chunks ::
    "('f \<Rightarrow> byte list \<Rightarrow> (byte list \<times> 'f) option) \<Rightarrow> ('f \<Rightarrow> byte list \<Rightarrow> byte list option) \<Rightarrow> 'f \<Rightarrow> byte list list \<Rightarrow> byte list \<Rightarrow> byte list option" where
  "filter_chunks filt compl f [] final = compl f final"
| "filter_chunks filt compl f (c # cs) final =
     (case filt f c of
        None \<Rightarrow> None
      | Some (out, f') \<Rightarrow> map_option ((@) out) (filter_chunks filt compl f' cs final))"

locale chunked_filter =
  fixes filt :: "'f \<Rightarrow> byte list \<Rightarrow> (byte list \<times> 'f) option"
    and compl :: "'f \<Rightarrow> byte list \<Rightarrow> byte list option"
    and inv :: "'f \<Rightarrow> bool"
  assumes filt_split: "inv f \<Longrightarrow>
      \<exists>out f'. filt f xs = Some (out, f') \<and> inv f' \<and> (\<forall>ys. compl f (xs @ ys) = map_option ((@) out) (compl f' ys))"
    and compl_returns: "inv f \<Longrightarrow> compl f xs \<noteq> None"
begin

lemma chunks_do_not_matter:
  assumes "inv f"
  shows "filter_chunks filt compl f css final = compl f (concat css @ final)"
  using assms
proof (induction css arbitrary: f)
  case (Cons c css)
  obtain out f' where f: "filt f c = Some (out, f')" "inv f'"
      "\<And>ys. compl f (c @ ys) = map_option ((@) out) (compl f' ys)"
    using filt_split [OF Cons.prems] by blast
  show ?case using Cons.IH [OF f(2)] f(1) f(3) [of "concat css @ final"] by simp
qed simp

lemma filt_returns: "inv f \<Longrightarrow> filt f xs \<noteq> None"
  using filt_split by force

end

section \<open>Line ends and dots\<close>

datatype camel_mime_filter_crlf_direction = CAMEL_MIME_FILTER_CRLF_ENCODE | CAMEL_MIME_FILTER_CRLF_DECODE

datatype camel_mime_filter_crlf_mode = CAMEL_MIME_FILTER_CRLF_MODE_CRLF_DOTS | CAMEL_MIME_FILTER_CRLF_MODE_CRLF_ONLY

record camel_mime_filter_crlf = camel_mime_filter +
  direction :: camel_mime_filter_crlf_direction
  crlf_mode :: camel_mime_filter_crlf_mode
  saw_cr :: bool
  saw_lf :: bool
  saw_dot :: bool

fun crlf_encode_loop :: "bool \<Rightarrow> camel_mime_filter_crlf \<Rightarrow> byte list \<Rightarrow> byte list \<times> camel_mime_filter_crlf" where
  "crlf_encode_loop do_dots f [] = ([], f)"
| "crlf_encode_loop do_dots f (c # inp) =
     (let (out, f) =
        (if c = 0x0d then ([], f\<lparr>saw_cr := True\<rparr>)
         else if c = 0x0a then (if \<not> saw_cr f then [0x0d] else [], f\<lparr>saw_lf := True, saw_cr := False\<rparr>)
         else (if do_dots \<and> c = 0x2e \<and> saw_lf f then [0x2e] else [], f\<lparr>saw_cr := False, saw_lf := False\<rparr>));
        (rest, f) = crlf_encode_loop do_dots f inp
      in (out @ c # rest, f))"

text \<open>One octet of the decoder: the output, whether the next octet is skipped, and the state.\<close>

definition crlf_decode_char :: "bool \<Rightarrow> camel_mime_filter_crlf \<Rightarrow> byte \<Rightarrow> byte list \<times> bool \<times> camel_mime_filter_crlf" where
  "crlf_decode_char do_dots f c =
     (if c \<noteq> 0x0d \<and> saw_cr f \<and> c = 0x0a then ([c], False, f\<lparr>saw_cr := False, saw_lf := True\<rparr>)
      else
        (let (out, f) =
           (if c = 0x0d then ([], f\<lparr>saw_cr := True\<rparr>)
            else if saw_cr f then ([0x0d, c], f\<lparr>saw_cr := False\<rparr>)
            else ([c], f));
           (skip, f) =
             (if do_dots \<and> c = 0x2e then
                (if saw_lf f then (True, f\<lparr>saw_dot := True, saw_lf := False\<rparr>)
                 else if saw_dot f then (False, f\<lparr>saw_dot := False\<rparr>)
                 else (False, f))
              else (False, f))
         in (out, skip, f\<lparr>saw_lf := False\<rparr>)))"

text \<open>The octet that is skipped may be outside the buffer; the code then ends up behind its end.\<close>

function crlf_decode_loop :: "bool \<Rightarrow> camel_mime_filter_crlf \<Rightarrow> byte list \<Rightarrow> byte list \<times> camel_mime_filter_crlf" where
  "crlf_decode_loop do_dots f [] = ([], f)"
| "crlf_decode_loop do_dots f (c # inp) =
     (let (out, skip, f) = crlf_decode_char do_dots f c;
          (rest, f) = crlf_decode_loop do_dots f (if skip then drop 1 inp else inp)
      in (out @ rest, f))"
  by pat_completeness auto
termination by (relation "measure (\<lambda>(do_dots, f, inp). length inp)") auto

definition crlf_filter :: "camel_mime_filter_crlf \<Rightarrow> byte list \<Rightarrow> byte list \<times> camel_mime_filter_crlf" where
  "crlf_filter f inp =
     (let do_dots = (crlf_mode f = CAMEL_MIME_FILTER_CRLF_MODE_CRLF_DOTS)
      in if direction f = CAMEL_MIME_FILTER_CRLF_ENCODE then crlf_encode_loop do_dots f inp
         else crlf_decode_loop do_dots f inp)"

text \<open>With no input the output variables of the caller are left as they are.\<close>

definition crlf_complete :: "camel_mime_filter_crlf \<Rightarrow> byte list \<Rightarrow> byte list option \<times> camel_mime_filter_crlf" where
  "crlf_complete f inp = (if length inp > 0 then apfst Some (crlf_filter f inp) else (None, f))"

definition crlf_reset :: "camel_mime_filter_crlf \<Rightarrow> camel_mime_filter_crlf" where
  "crlf_reset f = f\<lparr>saw_cr := False, saw_lf := True, saw_dot := False\<rparr>"

definition camel_mime_filter_crlf_new ::
    "camel_mime_filter_crlf_direction \<Rightarrow> camel_mime_filter_crlf_mode \<Rightarrow> camel_mime_filter_crlf" where
  "camel_mime_filter_crlf_new d m =
     \<lparr>backbuf = [], direction = d, crlf_mode = m, saw_cr = False, saw_lf = True, saw_dot = False\<rparr>"

text \<open>What is left in the variables of a caller that passes its buffer in and out.\<close>

definition crlf_compl :: "camel_mime_filter_crlf \<Rightarrow> byte list \<Rightarrow> byte list" where
  "crlf_compl f inp = (case fst (filter_run crlf_complete f inp) of None \<Rightarrow> inp | Some out \<Rightarrow> out)"

definition crlf_inv :: "camel_mime_filter_crlf \<Rightarrow> bool" where
  "crlf_inv f \<longleftrightarrow> backbuf f = [] \<and> (direction f = CAMEL_MIME_FILTER_CRLF_ENCODE \<or> crlf_mode f = CAMEL_MIME_FILTER_CRLF_MODE_CRLF_ONLY)"

lemma crlf_encode_append:
  "crlf_encode_loop d f (xs @ ys) =
    (let (o1, f1) = crlf_encode_loop d f xs; (o2, f2) = crlf_encode_loop d f1 ys in (o1 @ o2, f2))"
  by (induction xs arbitrary: f) (simp_all add: case_prod_unfold Let_def)

lemma crlf_decode_append:
  "crlf_decode_loop False f (xs @ ys) =
    (let (o1, f1) = crlf_decode_loop False f xs; (o2, f2) = crlf_decode_loop False f1 ys in (o1 @ o2, f2))"
proof (induction xs arbitrary: f)
  case (Cons c xs)
  have "\<not> fst (snd (crlf_decode_char False f c))" by (simp add: crlf_decode_char_def case_prod_unfold)
  then show ?case using Cons by (simp add: case_prod_unfold Let_def)
qed simp

lemma crlf_encode_frame:
  "backbuf (snd (crlf_encode_loop d f xs)) = backbuf f" "direction (snd (crlf_encode_loop d f xs)) = direction f"
  "crlf_mode (snd (crlf_encode_loop d f xs)) = crlf_mode f"
  by (induction xs arbitrary: f) (simp_all add: case_prod_unfold Let_def)

lemma crlf_decode_frame:
  "backbuf (snd (crlf_decode_loop d f xs)) = backbuf f \<and> direction (snd (crlf_decode_loop d f xs)) = direction f
    \<and> crlf_mode (snd (crlf_decode_loop d f xs)) = crlf_mode f"
proof (induction d f xs rule: crlf_decode_loop.induct)
  case (2 d f c xs)
  obtain out skip f' where c: "crlf_decode_char d f c = (out, skip, f')" by (cases "crlf_decode_char d f c")
  then have "backbuf f' = backbuf f \<and> direction f' = direction f \<and> crlf_mode f' = crlf_mode f"
    by (auto simp: crlf_decode_char_def Let_def split: if_splits)
  then show ?case using "2.IH" [OF refl, of out "(skip, f')"] c by (auto simp: case_prod_unfold Let_def)
qed simp

lemma crlf_filter_append:
  assumes "crlf_inv f"
  shows "crlf_filter f (xs @ ys) = (let (o1, f1) = crlf_filter f xs; (o2, f2) = crlf_filter f1 ys in (o1 @ o2, f2))"
    "crlf_inv (snd (crlf_filter f xs))"
proof -
  show "crlf_inv (snd (crlf_filter f xs))"
    using assms crlf_decode_frame by (auto simp: crlf_inv_def crlf_filter_def Let_def crlf_encode_frame)
  show "crlf_filter f (xs @ ys) = (let (o1, f1) = crlf_filter f xs; (o2, f2) = crlf_filter f1 ys in (o1 @ o2, f2))"
  proof (cases "direction f = CAMEL_MIME_FILTER_CRLF_ENCODE")
    case True
    then show ?thesis by (simp add: crlf_filter_def Let_def crlf_encode_append crlf_encode_frame case_prod_unfold)
  next
    case False
    then have "crlf_mode f = CAMEL_MIME_FILTER_CRLF_MODE_CRLF_ONLY" using assms by (simp add: crlf_inv_def)
    then show ?thesis using False crlf_decode_frame [of False f xs]
      by (simp add: crlf_filter_def Let_def crlf_decode_append case_prod_unfold)
  qed
qed

lemma crlf_compl_filter:
  assumes "crlf_inv f"
  shows "crlf_compl f xs = fst (crlf_filter f xs)"
proof -
  have "fst (crlf_filter f []) = []" by (simp add: crlf_filter_def Let_def)
  then show ?thesis using assms by (auto simp: crlf_compl_def crlf_complete_def filter_run_def crlf_inv_def)
qed

interpretation crlf: chunked_filter "\<lambda>f xs. Some (filter_run crlf_filter f xs)" "\<lambda>f xs. Some (crlf_compl f xs)" crlf_inv
proof unfold_locales
  fix f xs
  assume inv: "crlf_inv f"
  then have f: "filter_run crlf_filter f xs = crlf_filter f xs" by (simp add: filter_run_def crlf_inv_def)
  obtain out f' where o: "crlf_filter f xs = (out, f')" by fastforce
  have "crlf_inv f'" using crlf_filter_append(2) [OF inv, of xs] o by simp
  moreover have "crlf_compl f (xs @ ys) = out @ crlf_compl f' ys" for ys
    using crlf_filter_append(1) [OF inv, of xs ys] o crlf_compl_filter [OF inv] crlf_compl_filter [OF \<open>crlf_inv f'\<close>]
    by (simp add: case_prod_unfold Let_def)
  ultimately show "\<exists>out f'. Some (filter_run crlf_filter f xs) = Some (out, f') \<and> crlf_inv f'
      \<and> (\<forall>ys. Some (crlf_compl f (xs @ ys)) = map_option ((@) out) (Some (crlf_compl f' ys)))"
    using f o by simp
qed simp

text \<open>The decoder follows the encoder: both know whether they are at the start of a line.\<close>

lemma crlf_decode_follows:
  assumes "0x0d \<notin> set xs" "\<not> saw_cr f" "\<not> saw_cr g" "saw_lf g = saw_lf f"
  shows "fst (crlf_decode_loop d g (fst (crlf_encode_loop d f xs))) = xs"
  using assms
proof (induction xs arbitrary: f g)
  case (Cons c xs)
  consider "c = 0x0a" | "c \<noteq> 0x0a" "d \<and> c = 0x2e \<and> saw_lf f" | "c \<noteq> 0x0a" "\<not> (d \<and> c = 0x2e \<and> saw_lf f)" by blast
  then show ?case
  proof cases
    case 1
    then show ?thesis using Cons.prems
        Cons.IH [of "f\<lparr>saw_lf := True, saw_cr := False\<rparr>" "g\<lparr>saw_cr := False, saw_lf := True\<rparr>"]
      by (simp add: case_prod_unfold Let_def crlf_decode_char_def)
  next
    case 2
    then show ?thesis using Cons.prems
        Cons.IH [of "f\<lparr>saw_cr := False, saw_lf := False\<rparr>" "g\<lparr>saw_dot := True, saw_lf := False\<rparr>"]
      by (simp add: case_prod_unfold Let_def crlf_decode_char_def)
  next
    case 3
    have IH: "fst (crlf_decode_loop d g' (fst (crlf_encode_loop d (f\<lparr>saw_cr := False, saw_lf := False\<rparr>) xs))) = xs"
      if "\<not> saw_cr g'" "\<not> saw_lf g'" for g'
      using Cons.IH [of "f\<lparr>saw_cr := False, saw_lf := False\<rparr>" g'] Cons.prems that by simp
    let ?g = "snd (snd (crlf_decode_char d g c))"
    have "crlf_decode_char d g c = ([c], False, ?g) \<and> \<not> saw_cr ?g \<and> \<not> saw_lf ?g"
      using 3 Cons.prems by (auto simp: crlf_decode_char_def case_prod_unfold Let_def)
    then obtain g' where g: "crlf_decode_char d g c = ([c], False, g')" "\<not> saw_cr g'" "\<not> saw_lf g'" by blast
    have "fst (crlf_encode_loop d f (c # xs)) = c # fst (crlf_encode_loop d (f\<lparr>saw_cr := False, saw_lf := False\<rparr>) xs)"
      using 3 Cons.prems by (auto simp: case_prod_unfold Let_def)
    then show ?thesis using IH [OF g(2,3)] g(1) by (simp add: case_prod_unfold)
  qed
qed simp

text \<open>
  C16. Data without carriage returns that is encoded in any chunks, with or without dots, is decoded
  to itself by one call of the decoder, and without dots by any chunks of calls.
\<close>

theorem crlf_round_trip:
  assumes "0x0d \<notin> set (concat css @ final)"
  shows "\<exists>e. filter_chunks (\<lambda>f xs. Some (filter_run crlf_filter f xs)) (\<lambda>f xs. Some (crlf_compl f xs))
      (camel_mime_filter_crlf_new CAMEL_MIME_FILTER_CRLF_ENCODE m) css final = Some e
    \<and> crlf_compl (camel_mime_filter_crlf_new CAMEL_MIME_FILTER_CRLF_DECODE m) e = concat css @ final
    \<and> (m = CAMEL_MIME_FILTER_CRLF_MODE_CRLF_ONLY \<and> concat ess @ efinal = e \<longrightarrow>
        filter_chunks (\<lambda>f xs. Some (filter_run crlf_filter f xs)) (\<lambda>f xs. Some (crlf_compl f xs))
          (camel_mime_filter_crlf_new CAMEL_MIME_FILTER_CRLF_DECODE m) ess efinal = Some (concat css @ final))"
proof -
  let ?enc = "camel_mime_filter_crlf_new CAMEL_MIME_FILTER_CRLF_ENCODE m"
  let ?dec = "camel_mime_filter_crlf_new CAMEL_MIME_FILTER_CRLF_DECODE m"
  let ?x = "concat css @ final"
  let ?e = "fst (crlf_filter ?enc ?x)"
  have enc: "crlf_inv ?enc" by (simp add: crlf_inv_def camel_mime_filter_crlf_new_def)
  have e: "filter_chunks (\<lambda>f xs. Some (filter_run crlf_filter f xs)) (\<lambda>f xs. Some (crlf_compl f xs)) ?enc css final = Some ?e"
    using crlf.chunks_do_not_matter [OF enc] crlf_compl_filter [OF enc] by simp
  have d: "crlf_compl ?dec ?e = ?x"
    using crlf_decode_follows [OF assms, of ?enc ?dec "m = CAMEL_MIME_FILTER_CRLF_MODE_CRLF_DOTS"]
    by (cases "?e = []") (simp_all add: crlf_compl_def crlf_complete_def filter_run_def crlf_filter_def camel_mime_filter_crlf_new_def Let_def)
  have "crlf_inv ?dec" if "m = CAMEL_MIME_FILTER_CRLF_MODE_CRLF_ONLY"
    using that by (simp add: crlf_inv_def camel_mime_filter_crlf_new_def)
  then show ?thesis using e d crlf.chunks_do_not_matter by auto
qed

text \<open>The flag \<^verbatim>\<open>saw_dot\<close> is never used.\<close>

lemma crlf_decode_same_output:
  assumes "saw_cr g = saw_cr f" "saw_lf g = saw_lf f"
  shows "fst (crlf_decode_loop d g xs) = fst (crlf_decode_loop d f xs)"
  using assms
proof (induction d f xs arbitrary: g rule: crlf_decode_loop.induct)
  case (2 d f c xs)
  obtain out skip f' where f: "crlf_decode_char d f c = (out, skip, f')" by (cases "crlf_decode_char d f c")
  let ?g = "snd (snd (crlf_decode_char d g c))" and ?f = "snd (snd (crlf_decode_char d f c))"
  have "fst (crlf_decode_char d g c) = fst (crlf_decode_char d f c) \<and> fst (snd (crlf_decode_char d g c)) = fst (snd (crlf_decode_char d f c))
      \<and> saw_cr ?g = saw_cr ?f \<and> saw_lf ?g = saw_lf ?f"
    using "2.prems" by (auto simp: crlf_decode_char_def case_prod_unfold Let_def)
  then obtain g' where "crlf_decode_char d g c = (out, skip, g')" "saw_cr g' = saw_cr f'" "saw_lf g' = saw_lf f'"
    using f by (cases "crlf_decode_char d g c") simp
  then show ?case using "2.IH" [OF refl, of out "(skip, f')" skip f' g'] f by (simp add: case_prod_unfold Let_def)
qed simp

text \<open>
  A dot at the start of a line that the encoder doubled is decoded to one dot in one call, but to
  two if the input is cut between the dots; what follows is the same.
\<close>

theorem crlf_dots_cut:
  assumes "direction f = CAMEL_MIME_FILTER_CRLF_DECODE" "crlf_mode f = CAMEL_MIME_FILTER_CRLF_MODE_CRLF_DOTS"
    "saw_lf f" "\<not> saw_cr f"
  shows "\<exists>rest. fst (crlf_filter f (0x2e # 0x2e # inp)) = 0x2e # rest
    \<and> (case crlf_filter f [0x2e] of (out, f') \<Rightarrow> out @ fst (crlf_filter f' (0x2e # inp)) = 0x2e # 0x2e # rest)"
proof -
  let ?g = "f\<lparr>saw_dot := True, saw_lf := False\<rparr>"
  have "fst (crlf_decode_loop True (f\<lparr>saw_dot := False, saw_lf := False\<rparr>) inp) = fst (crlf_decode_loop True ?g inp)"
    by (rule crlf_decode_same_output) simp_all
  then show ?thesis using assms
    by (simp add: crlf_filter_def crlf_decode_char_def Let_def case_prod_unfold)
qed

theorem crlf_dots_cut_witness:
  "\<exists>rest. fst (crlf_filter (camel_mime_filter_crlf_new CAMEL_MIME_FILTER_CRLF_DECODE CAMEL_MIME_FILTER_CRLF_MODE_CRLF_DOTS) [0x2e, 0x2e, 0x61]) = 0x2e # rest
    \<and> (case crlf_filter (camel_mime_filter_crlf_new CAMEL_MIME_FILTER_CRLF_DECODE CAMEL_MIME_FILTER_CRLF_MODE_CRLF_DOTS) [0x2e] of
        (out, f') \<Rightarrow> out @ fst (crlf_filter f' [0x2e, 0x61]) = 0x2e # 0x2e # rest)"
  by (rule crlf_dots_cut) (simp_all add: camel_mime_filter_crlf_new_def)

theorem crlf_round_trip_witness:
  "\<exists>e. filter_chunks (\<lambda>f xs. Some (filter_run crlf_filter f xs)) (\<lambda>f xs. Some (crlf_compl f xs))
      (camel_mime_filter_crlf_new CAMEL_MIME_FILTER_CRLF_ENCODE CAMEL_MIME_FILTER_CRLF_MODE_CRLF_DOTS) [[0x61, 0x0a], [0x2e]] [0x2e, 0x0a] = Some e
    \<and> crlf_compl (camel_mime_filter_crlf_new CAMEL_MIME_FILTER_CRLF_DECODE CAMEL_MIME_FILTER_CRLF_MODE_CRLF_DOTS) e = [0x61, 0x0a, 0x2e, 0x2e, 0x0a]"
  using crlf_round_trip [of "[[0x61, 0x0a], [0x2e]]" "[0x2e, 0x0a]" CAMEL_MIME_FILTER_CRLF_MODE_CRLF_DOTS] by auto

end
