(* ===== verification/Camel_Line_Filters.thy ===== *)
theory Camel_Line_Filters
  imports Camel_Mime_Filter
begin

text \<open>
  The filters that work on whole lines: \<^verbatim>\<open>camel-mime-filter-canon.c\<close>, which brings lines into the form that
  is signed, and \<^verbatim>\<open>camel-mime-filter-from.c\<close>, which escapes lines that start with \<^verbatim>\<open>From\<close> in a mailbox file.
  Both back up what they cannot decide until more input is there.
\<close>

section \<open>Canonical lines\<close>

text \<open>The bits of \<^verbatim>\<open>flags\<close> are booleans.\<close>

record camel_mime_filter_canon = camel_mime_filter +
  canon_crlf :: bool
  canon_from :: bool
  canon_strip :: bool

text \<open>
  The test for \<^verbatim>\<open>From\<close> at the start of a line: \<^const>\<open>None\<close> if more input is needed, otherwise the output and
  what is left of the input.
\<close>

definition canon_line_start :: "camel_mime_filter_canon \<Rightarrow> bool \<Rightarrow> byte list \<Rightarrow> (byte list \<times> byte list) option" where
  "canon_line_start f final inp =
     (if canon_from f \<and> hd inp = 0x46 then
        (let inp = tl inp
         in if length inp > 4 then
              (if take 4 inp = octets ''rom '' then Some (octets ''=46rom '', drop 4 inp) else Some ([0x46], inp))
            else if final then Some ([0x46], inp)
            else None)
      else Some ([], inp))"

definition is_blank :: "byte \<Rightarrow> bool" where
  "is_blank c \<longleftrightarrow> c = 0x20 \<or> c = 0x09 \<or> c = 0x0d"

definition strip_blanks :: "byte list \<Rightarrow> byte list" where
  "strip_blanks line = rev (dropWhile is_blank (rev line))"

definition canon_line_end :: "camel_mime_filter_canon \<Rightarrow> byte list \<Rightarrow> byte list" where
  "canon_line_end f line =
     (let line = (if canon_strip f then strip_blanks line else line)
      in if line \<noteq> [] then
           (if canon_crlf f then (if last line \<noteq> 0x0d then line @ [0x0d] else line)
            else (if last line = 0x0d then butlast line else line))
         else if canon_crlf f then [0x0d]
         else [])"

text \<open>The scan for the end of the line: whether it was found, the octets before it and what is left.\<close>

fun canon_scan :: "byte list \<Rightarrow> byte list \<Rightarrow> bool \<times> byte list \<times> byte list" where
  "canon_scan line [] = (False, line, [])"
| "canon_scan line (c # inp) = (if c = 0x0a then (True, line, inp) else canon_scan (line @ [c]) inp)"

lemma canon_scan_length: "length (snd (snd (canon_scan line inp))) \<le> length inp"
  by (induction line inp rule: canon_scan.induct) auto

lemma canon_scan_shorter: "canon_scan line inp = (True, line', inp') \<Longrightarrow> length inp' < length inp"
  by (induction line inp rule: canon_scan.induct) (auto split: if_splits)

lemma canon_line_start_length: "canon_line_start f final inp = Some (line, inp') \<Longrightarrow> length inp' \<le> length inp"
  by (auto simp: canon_line_start_def Let_def split: if_splits)

text \<open>
  The loop over the lines. The result is the output of whole lines, the output of the last, incomplete
  line, and the input from the start of that line on.
\<close>

function canon_loop :: "camel_mime_filter_canon \<Rightarrow> bool \<Rightarrow> byte list \<Rightarrow> byte list \<times> byte list \<times> byte list" where
  "canon_loop f final inp =
     (if inp = [] then ([], [], [])
      else (case canon_line_start f final inp of
              None \<Rightarrow> ([], [], inp)
            | Some (line, rest) \<Rightarrow>
                (case canon_scan line rest of
                   (found, line, rest) \<Rightarrow>
                     (if found then apfst ((@) (canon_line_end f line @ [0x0a])) (canon_loop f final rest)
                      else ([], line, inp)))))"
  by pat_completeness auto
termination
  by (relation "measure (\<lambda>(f, final, inp). length inp)")
    (auto dest!: canon_scan_shorter [OF sym] canon_line_start_length)

declare canon_loop.simps [simp del]

definition canon_filter_run :: "bool \<Rightarrow> camel_mime_filter_canon \<Rightarrow> byte list \<Rightarrow> byte list \<times> camel_mime_filter_canon" where
  "canon_filter_run final f inp =
     (case canon_loop f final inp of
        (out, line, start) \<Rightarrow>
          (if final then (out @ line, f) else (out, camel_mime_filter_backup f start)))"

definition canon_filter :: "camel_mime_filter_canon \<Rightarrow> byte list \<Rightarrow> byte list \<times> camel_mime_filter_canon" where
  "canon_filter = canon_filter_run False"

definition canon_complete :: "camel_mime_filter_canon \<Rightarrow> byte list \<Rightarrow> byte list \<times> camel_mime_filter_canon" where
  "canon_complete = canon_filter_run True"

definition canon_reset :: "camel_mime_filter_canon \<Rightarrow> camel_mime_filter_canon" where
  "canon_reset f = f"

definition camel_mime_filter_canon_new :: "bool \<Rightarrow> bool \<Rightarrow> bool \<Rightarrow> camel_mime_filter_canon" where
  "camel_mime_filter_canon_new crlf from strip =
     \<lparr>backbuf = [], canon_crlf = crlf, canon_from = from, canon_strip = strip\<rparr>"

section \<open>Lines that start with From\<close>

record camel_mime_filter_from = camel_mime_filter +
  midline :: bool

fun skip_to_eol :: "byte list \<Rightarrow> bool \<times> byte list" where
  "skip_to_eol [] = (False, [])"
| "skip_to_eol (c # inp) = (if c = 0x0a then (True, inp) else skip_to_eol inp)"

lemma skip_to_eol_length: "(eol, rest) = skip_to_eol inp \<Longrightarrow> inp \<noteq> [] \<Longrightarrow> length rest < length inp"
proof (induction inp rule: skip_to_eol.induct)
  case (2 c inp)
  then show ?case by (cases inp) (auto split: if_splits)
qed simp

text \<open>
  The scan of a buffer from \<^verbatim>\<open>inptr\<close>, at offset \<open>pos\<close>, on. The result is \<^verbatim>\<open>midline\<close>, the offsets of the nodes in
  the list, the offset of \<^verbatim>\<open>inend\<close> and the octets that are backed up.
\<close>

function from_scan :: "bool \<Rightarrow> nat \<Rightarrow> byte list \<Rightarrow> bool \<times> nat list \<times> nat \<times> byte list option" where
  "from_scan mid pos inp =
     (if inp = [] then (mid, [], pos, None)
      else
        (let (eol, rest) = (if mid then skip_to_eol inp else (False, inp));
             pos = pos + (length inp - length rest)
         in if eol \<or> \<not> mid then
              (if rest \<noteq> [] then
                 (if length rest < 5 then
                    (if hd rest = 0x46 then (False, [], pos, Some rest) else from_scan True pos rest)
                  else if take 5 rest = octets ''From '' then
                    (case from_scan True (pos + 5) (drop 5 rest) of (mid, ns, inend, bk) \<Rightarrow> (mid, pos # ns, inend, bk))
                  else from_scan True pos rest)
               else (False, [], pos, None))
            else from_scan mid pos rest))"
  by pat_completeness auto
termination
  by (relation "measure (\<lambda>(mid, pos, inp). 2 * length inp + (if mid then 0 else 1))")
    (auto split: if_splits dest: skip_to_eol_length)

declare from_scan.simps [simp del]

fun from_insert :: "byte list \<Rightarrow> nat \<Rightarrow> nat \<Rightarrow> nat list \<Rightarrow> byte list" where
  "from_insert inp inend inptr [] = take (inend - inptr) (drop inptr inp)"
| "from_insert inp inend inptr (n # ns) = take (n - inptr) (drop inptr inp) @ 0x3e # from_insert inp inend n ns"

definition from_filter :: "camel_mime_filter_from \<Rightarrow> byte list \<Rightarrow> byte list \<times> camel_mime_filter_from" where
  "from_filter f inp =
     (case from_scan (midline f) 0 inp of
        (mid, ns, inend, bk) \<Rightarrow>
          (let f = (case bk of None \<Rightarrow> f | Some data \<Rightarrow> camel_mime_filter_backup f data)
           in (if length ns > 0 then from_insert inp inend 0 ns else take inend inp, f\<lparr>midline := mid\<rparr>)))"

definition from_complete :: "camel_mime_filter_from \<Rightarrow> byte list \<Rightarrow> byte list \<times> camel_mime_filter_from" where
  "from_complete f inp = (inp, f)"

definition camel_mime_filter_from_new :: camel_mime_filter_from where
  "camel_mime_filter_from_new = \<lparr>backbuf = [], midline = False\<rparr>"

section \<open>Canonical lines in chunks\<close>

definition canon_compl :: "camel_mime_filter_canon \<Rightarrow> byte list \<Rightarrow> byte list" where
  "canon_compl f inp = fst (filter_run canon_complete f inp)"

lemma canon_scan_append: "canon_scan line xs = (True, line', rest) \<Longrightarrow> canon_scan line (xs @ ys) = (True, line', rest @ ys)"
  by (induction line xs rule: canon_scan.induct) (auto split: if_splits)

lemma canon_line_start_append:
  assumes "canon_line_start f False xs = Some (line, rest)" "xs \<noteq> []"
  shows "canon_line_start f True (xs @ ys) = Some (line, rest @ ys)"
  using assms by (auto simp: canon_line_start_def Let_def split: if_splits)

lemma canon_loop_split:
  "canon_loop f True (xs @ ys) =
    (case canon_loop f False xs of (out, line, start) \<Rightarrow> apfst ((@) out) (canon_loop f True (start @ ys)))"
proof (induction xs rule: length_induct)
  case (1 xs)
  have nil: "apfst ((@) []) z = z" for z :: "byte list \<times> byte list \<times> byte list" by (cases z) simp
  show ?case
  proof (cases "xs = []")
    case True
    then show ?thesis by (simp add: canon_loop.simps [of f False "[]"] nil)
  next
    case False
    show ?thesis
    proof (cases "canon_line_start f False xs")
      case None
      then show ?thesis using False by (simp add: canon_loop.simps [of f False xs] nil)
    next
      case (Some lr)
      obtain l r where lr: "canon_line_start f False xs = Some (l, r)" using Some by (cases lr) simp
      obtain found l' r' where sc: "canon_scan l r = (found, l', r')" by (cases "canon_scan l r")
      show ?thesis
      proof (cases found)
        case False
        then show ?thesis using \<open>xs \<noteq> []\<close> lr sc by (simp add: canon_loop.simps [of f False xs] nil)
      next
        case True
        have "length r' < length xs"
          using canon_line_start_length [OF lr] canon_scan_shorter [of l r l' r'] sc True by simp
        then have "canon_loop f True (r' @ ys) =
            (case canon_loop f False r' of (out, line, start) \<Rightarrow> apfst ((@) out) (canon_loop f True (start @ ys)))"
          using 1 by blast
        moreover have "canon_loop f True (xs @ ys) = apfst ((@) (canon_line_end f l' @ [0x0a])) (canon_loop f True (r' @ ys))"
          using canon_line_start_append [OF lr False, of ys] canon_scan_append [of l r l' r' ys] sc True False
          by (simp add: canon_loop.simps [of f True "xs @ ys"])
        moreover have "canon_loop f False xs = apfst ((@) (canon_line_end f l' @ [0x0a])) (canon_loop f False r')"
          using lr sc True False by (simp add: canon_loop.simps [of f False xs])
        ultimately show ?thesis by (simp add: case_prod_unfold apfst_def map_prod_def)
      qed
    qed
  qed
qed

interpretation canon: chunked_filter "\<lambda>f xs. Some (filter_run canon_filter f xs)" "\<lambda>f xs. Some (canon_compl f xs)" "\<lambda>f. True"
proof unfold_locales
  fix f :: camel_mime_filter_canon and xs
  let ?f = "f\<lparr>backbuf := []\<rparr>"
  obtain out line start where l: "canon_loop ?f False (backbuf f @ xs) = (out, line, start)"
    by (cases "canon_loop ?f False (backbuf f @ xs)")
  have "canon_compl f (xs @ ys) = out @ canon_compl (?f\<lparr>backbuf := start\<rparr>) ys" for ys
    using canon_loop_split [of ?f "backbuf f @ xs" ys] l
    by (simp add: canon_compl_def filter_run_def canon_complete_def canon_filter_run_def case_prod_unfold)
  then show "\<exists>out f'. Some (filter_run canon_filter f xs) = Some (out, f') \<and> True
      \<and> (\<forall>ys. Some (canon_compl f (xs @ ys)) = map_option ((@) out) (Some (canon_compl f' ys)))"
    using l by (simp add: filter_run_def canon_filter_def canon_filter_run_def camel_mime_filter_backup_def)
qed simp

text \<open>The lines of a text that are terminated, without the line feed.\<close>

fun whole_lines :: "byte list \<Rightarrow> byte list \<Rightarrow> byte list list" where
  "whole_lines line [] = []"
| "whole_lines line (c # cs) = (if c = 0x0a then line # whole_lines [] cs else whole_lines (line @ [c]) cs)"

lemma whole_lines_append:
  "0x0a \<notin> set xs \<Longrightarrow> whole_lines line (xs @ 0x0a # ys) = (line @ xs) # whole_lines [] ys"
  "0x0a \<notin> set xs \<Longrightarrow> whole_lines line xs = []"
  by (induction xs arbitrary: line) auto

definition canonical_line :: "camel_mime_filter_canon \<Rightarrow> byte list \<Rightarrow> bool" where
  "canonical_line f line \<longleftrightarrow>
     (let body = (if canon_crlf f then butlast line else line)
      in (canon_crlf f \<longrightarrow> line \<noteq> [] \<and> last line = 0x0d)
         \<and> (canon_strip f \<longrightarrow> body = [] \<or> \<not> is_blank (last body))
         \<and> (canon_from f \<longrightarrow> take 5 line \<noteq> octets ''From ''))"

lemma canon_scan_parts:
  "canon_scan line xs = (found, line', rest) \<Longrightarrow>
    \<exists>m. line' = line @ m \<and> 0x0a \<notin> set m \<and> xs = (if found then m @ 0x0a # rest else m)"
  by (induction line xs arbitrary: rule: canon_scan.induct) (force split: if_splits)+

lemma strip_blanks_form:
  "\<exists>z. line = strip_blanks line @ z" "strip_blanks line = [] \<or> \<not> is_blank (last (strip_blanks line))"
proof -
  have "line = rev (takeWhile is_blank (rev line) @ dropWhile is_blank (rev line))" by simp
  then have "line = strip_blanks line @ rev (takeWhile is_blank (rev line))" unfolding strip_blanks_def rev_append .
  then show "\<exists>z. line = strip_blanks line @ z" by (rule exI)
  show "strip_blanks line = [] \<or> \<not> is_blank (last (strip_blanks line))"
    using hd_dropWhile [of is_blank "rev line"] by (auto simp: strip_blanks_def last_rev)
qed

lemma canon_line_end_form:
  "(canon_crlf f \<longrightarrow> canon_line_end f line \<noteq> [] \<and> last (canon_line_end f line) = 0x0d)"
  "canon_strip f \<Longrightarrow> body = (if canon_crlf f then butlast (canon_line_end f line) else canon_line_end f line) \<Longrightarrow>
     body = [] \<or> \<not> is_blank (last body)"
  "\<exists>w z. line = w @ z \<and> (canon_line_end f line = w \<or> canon_line_end f line = w @ [0x0d])"
  "0x0a \<notin> set line \<Longrightarrow> 0x0a \<notin> set (canon_line_end f line)"
proof -
  note st = strip_blanks_form [of line]
  have cr: "is_blank 0x0d" by (simp add: is_blank_def)
  show "canon_crlf f \<longrightarrow> canon_line_end f line \<noteq> [] \<and> last (canon_line_end f line) = 0x0d"
    by (simp add: canon_line_end_def Let_def)
  show "body = [] \<or> \<not> is_blank (last body)"
    if "canon_strip f" "body = (if canon_crlf f then butlast (canon_line_end f line) else canon_line_end f line)"
  proof (cases "strip_blanks line = []")
    case True
    then show ?thesis using that by (auto simp: canon_line_end_def Let_def)
  next
    case False
    then have "last (strip_blanks line) \<noteq> 0x0d" using st(2) cr by metis
    then show ?thesis using that False st(2) by (auto simp: canon_line_end_def Let_def)
  qed
  define w where "w = (if canon_strip f then strip_blanks line else line)"
  obtain z where z: "line = w @ z"
    using st(1) by (cases "canon_strip f") (auto simp: w_def)
  show pre: "\<exists>w z. line = w @ z \<and> (canon_line_end f line = w \<or> canon_line_end f line = w @ [0x0d])"
  proof (cases "canon_line_end f line = butlast w \<and> w \<noteq> []")
    case True
    then have "line = butlast w @ ([last w] @ z)" using z by simp
    then show ?thesis using True by blast
  next
    case False
    moreover have "canon_line_end f line =
        (if w \<noteq> [] then (if canon_crlf f then (if last w \<noteq> 0x0d then w @ [0x0d] else w) else (if last w = 0x0d then butlast w else w))
         else if canon_crlf f then [0x0d] else [])"
      by (simp add: canon_line_end_def w_def Let_def)
    ultimately have "canon_line_end f line = w \<or> canon_line_end f line = w @ [0x0d]"
      by (cases "w = []"; cases "canon_crlf f"; cases "last w = 0x0d"; simp)
    then show ?thesis using z by blast
  qed
  show "0x0a \<notin> set (canon_line_end f line)" if "0x0a \<notin> set line" using pre that by auto
qed

lemma octets_From: "octets ''From '' = [0x46, 0x72, 0x6f, 0x6d, 0x20]" "octets ''rom '' = [0x72, 0x6f, 0x6d, 0x20]"
  "octets ''=46rom '' = [0x3d, 0x34, 0x36, 0x72, 0x6f, 0x6d, 0x20]"
  by (simp_all add: octets_def of_char_def)

lemma take_5_iff:
  "take 5 line = [a, b, c, d, e] \<longleftrightarrow> (\<exists>z. line = a # b # c # d # e # z)"
proof
  assume "take 5 line = [a, b, c, d, e]"
  then have "line = [a, b, c, d, e] @ drop 5 line" by (metis append_take_drop_id)
  then show "\<exists>z. line = a # b # c # d # e # z" by auto
qed auto

lemma canon_line_from:
  assumes "canon_line_start f final inp = Some (l0, rest)" "canon_scan l0 rest = (True, line, rest')" "canon_from f" "inp \<noteq> []"
  shows "take 5 line \<noteq> octets ''From ''"
proof
  assume "take 5 line = octets ''From ''"
  then obtain z where line: "line = 0x46 # 0x72 # 0x6f # 0x6d # 0x20 # z" unfolding octets_From take_5_iff by blast
  obtain m where m: "line = l0 @ m" "rest = m @ 0x0a # rest'" using canon_scan_parts [OF assms(2)] by auto
  show False using assms(1,3,4) line m
    by (cases inp) (auto simp: canon_line_start_def Let_def octets_From Cons_eq_append_conv split: if_splits)
qed

lemma canon_line_end_from:
  assumes "take 5 (canon_line_end f line) = octets ''From ''"
  shows "take 5 line = octets ''From ''"
proof -
  obtain w z where w: "line = w @ z" "canon_line_end f line = w \<or> canon_line_end f line = w @ [0x0d]"
    using canon_line_end_form(3) by blast
  then have "take 5 w = octets ''From ''" using assms unfolding octets_From take_5_iff by (auto simp: Cons_eq_append_conv append_eq_Cons_conv)
  then show ?thesis using w(1) unfolding octets_From take_5_iff by auto
qed

lemma canon_loop_lines:
  "case canon_loop f final inp of (out, line, start) \<Rightarrow> \<forall>l\<in>set (whole_lines [] (out @ line)). canonical_line f l"
proof (induction inp rule: length_induct)
  case (1 inp)
  show ?case
  proof (cases "inp = [] \<or> canon_line_start f final inp = None")
    case True
    then show ?thesis by (auto simp: canon_loop.simps [of f final inp])
  next
    case False
    then obtain l0 rest where s: "canon_line_start f final inp = Some (l0, rest)" "inp \<noteq> []" by auto
    obtain found line rest' where c: "canon_scan l0 rest = (found, line, rest')" by (cases "canon_scan l0 rest")
    have "0x0a \<notin> set l0" using s by (auto simp: canon_line_start_def Let_def octets_From split: if_splits)
    then have lf: "0x0a \<notin> set line" using canon_scan_parts [OF c] by auto
    show ?thesis
    proof (cases found)
      case False
      then show ?thesis using s c lf by (simp add: canon_loop.simps [of f final inp] whole_lines_append(2))
    next
      case True
      let ?e = "canon_line_end f line"
      have "length rest' < length inp" using canon_scan_shorter [of l0 rest line rest'] canon_line_start_length [OF s(1)] c True by simp
      then have IH: "case canon_loop f final rest' of (out, line, start) \<Rightarrow> \<forall>l\<in>set (whole_lines [] (out @ line)). canonical_line f l"
        by (rule 1 [rule_format])
      have "take 5 ?e \<noteq> octets ''From ''" if "canon_from f"
        using canon_line_from [OF s(1) _ that s(2), of line rest'] c True canon_line_end_from [of f line] by auto
      then have "canonical_line f ?e"
        using canon_line_end_form(1) [of f line] canon_line_end_form(2) [of f _ line, OF _ refl] unfolding canonical_line_def Let_def by blast
      moreover obtain out l start where r: "canon_loop f final rest' = (out, l, start)" by (cases "canon_loop f final rest'")
      moreover have "canon_loop f final inp = (?e @ 0x0a # out, l, start)"
        using s c True r by (simp add: canon_loop.simps [of f final inp])
      moreover have "whole_lines [] (?e @ 0x0a # out @ l) = ?e # whole_lines [] (out @ l)"
        using whole_lines_append(1) [OF canon_line_end_form(4) [OF lf], of "[]"] by simp
      ultimately show ?thesis using IH by simp
    qed
  qed
qed

text \<open>
  C15. Whatever the chunks the input comes in, the canonicalising filter returns the same output as
  for the whole input, and every terminated line of it is canonical: it ends in CR LF if asked for,
  has no trailing white space if it is to be stripped, and does not start with From and a space if
  that is to be escaped.
\<close>

theorem canon_output_canonical:
  "\<exists>out. filter_chunks (\<lambda>f xs. Some (filter_run canon_filter f xs)) (\<lambda>f xs. Some (canon_compl f xs))
       (camel_mime_filter_canon_new crlf from strip) css final = Some out
     \<and> out = fst (canon_complete (camel_mime_filter_canon_new crlf from strip) (concat css @ final))
     \<and> list_all (canonical_line (camel_mime_filter_canon_new crlf from strip)) (whole_lines [] out)"
proof -
  let ?f = "camel_mime_filter_canon_new crlf from strip"
  have c: "canon_compl ?f xs = fst (canon_complete ?f xs)" for xs
    by (simp add: canon_compl_def filter_run_def camel_mime_filter_canon_new_def)
  show ?thesis using canon.chunks_do_not_matter [of ?f css final] canon_loop_lines [of ?f True "concat css @ final"] c
    by (auto simp: canon_complete_def canon_filter_run_def list_all_iff case_prod_unfold)
qed

section \<open>Escaping From in chunks\<close>

text \<open>The specification: a line that starts with From and a space gets a \<^verbatim>\<open>>\<close> in front.\<close>

fun from_escape :: "bool \<Rightarrow> byte list \<Rightarrow> byte list" where
  "from_escape bol [] = []"
| "from_escape bol (c # cs) =
     (if bol \<and> take 5 (c # cs) = octets ''From '' then [0x3e] else []) @ c # from_escape (c = 0x0a) cs"

lemma from_escape_skip:
  "0x0a \<notin> set xs \<Longrightarrow> from_escape False (xs @ ys) = xs @ from_escape False ys"
  by (induction xs) auto

lemma from_escape_other: "take 5 xs \<noteq> octets ''From '' \<Longrightarrow> from_escape bol xs = from_escape False xs"
  by (cases xs) auto

lemma from_escape_short: "length xs < 5 \<Longrightarrow> from_escape bol xs = xs"
  by (induction xs arbitrary: bol) (auto simp: octets_From dest: arg_cong [of _ _ length])

lemma from_escape_From:
  assumes "take 5 xs = octets ''From ''"
  shows "from_escape True (xs @ ys) = 0x3e # take 5 xs @ from_escape False (drop 5 xs @ ys)"
proof -
  obtain z where "xs = 0x46 # 0x72 # 0x6f # 0x6d # 0x20 # z" using assms unfolding octets_From take_5_iff by blast
  then show ?thesis by (simp add: octets_From)
qed

lemma skip_to_eol_parts:
  "skip_to_eol xs = (eol, rest) \<Longrightarrow>
    \<exists>l. 0x0a \<notin> set l \<and> (if eol then xs = l @ 0x0a # rest else xs = l \<and> rest = [])"
proof (induction xs)
  case (Cons c xs)
  show ?case
  proof (cases "c = 0x0a")
    case True
    then show ?thesis using Cons.prems by (intro exI [of _ "[]"]) auto
  next
    case False
    then obtain l where "0x0a \<notin> set l" "if eol then xs = l @ 0x0a # rest else xs = l \<and> rest = []"
      using Cons by auto
    then show ?thesis using False by (intro exI [of _ "c # l"]) (auto split: if_splits)
  qed
qed auto

lemma from_insert_advance:
  assumes "pos \<le> p" "p \<le> (case ns of [] \<Rightarrow> inend | n # _ \<Rightarrow> n)"
  shows "from_insert whole inend pos ns = take (p - pos) (drop pos whole) @ from_insert whole inend p ns"
proof -
  have sp: "take (n - pos) (drop pos whole) = take (p - pos) (drop pos whole) @ take (n - p) (drop p whole)" if "p \<le> n" for n
  proof -
    have e: "n - pos = (p - pos) + (n - p)" using assms(1) that by simp
    have d: "drop (p - pos) (drop pos whole) = drop p whole" using assms(1) by simp
    show ?thesis unfolding e take_add d ..
  qed
  show ?thesis
  proof (cases ns)
    case Nil
    then show ?thesis using sp [of inend] assms(2) unfolding Nil from_insert.simps by simp
  next
    case (Cons n ns')
    then have "p \<le> n" using assms(2) by simp
    then show ?thesis unfolding Cons from_insert.simps sp [OF \<open>p \<le> n\<close>] by simp
  qed
qed

lemma from_scan_escape:
  assumes "from_scan mid pos rest = (mid', ns, inend, bk)" "pos = length pre"
  shows "length (case bk of None \<Rightarrow> [] | Some d \<Rightarrow> d) < 5 \<and> pos \<le> (case ns of [] \<Rightarrow> inend | n # _ \<Rightarrow> n)
    \<and> (\<forall>ys. from_escape (\<not> mid) (rest @ ys) =
         from_insert (pre @ rest) inend pos ns @ from_escape (\<not> mid') ((case bk of None \<Rightarrow> [] | Some d \<Rightarrow> d) @ ys))"
  using assms
proof (induction mid pos rest arbitrary: pre mid' ns inend bk rule: from_scan.induct)
  case (1 mid pos inp)
  show ?case
  proof (cases "inp = []")
    case True
    then show ?thesis using "1.prems" by (auto simp: from_scan.simps)
  next
    case False
    obtain eol rest where er: "(eol, rest) = (if mid then skip_to_eol inp else (False, inp))" by (metis surj_pair)
    obtain l where l: "inp = l @ rest" "\<And>ys. from_escape (\<not> mid) (inp @ ys) = l @ from_escape (eol \<or> \<not> mid) (rest @ ys)"
        "\<not> (eol \<or> \<not> mid) \<Longrightarrow> rest = []"
    proof (cases mid)
      case True
      then obtain k where k: "0x0a \<notin> set k" "if eol then inp = k @ 0x0a # rest else inp = k \<and> rest = []"
        using skip_to_eol_parts [of inp eol rest] er by auto
      show ?thesis
      proof (cases eol)
        case True
        then show ?thesis using k \<open>mid\<close> from_escape_skip [OF k(1)] that [of "k @ [0x0a]"] by simp
      next
        case False
        then show ?thesis using k \<open>mid\<close> from_escape_skip [OF k(1)] that [of k] by simp
      qed
    next
      case False
      then show ?thesis using er that [of "[]"] by simp
    qed
    define p where "p = pos + (length inp - length rest)"
    have p: "p = length (pre @ l)" using l(1) "1.prems"(2) by (simp add: p_def)
    have adv: "from_insert (pre @ inp) e pos ks = l @ from_insert ((pre @ l) @ rest) e p ks"
      if "p \<le> (case ks of [] \<Rightarrow> e | n # _ \<Rightarrow> n)" for e ks
      using from_insert_advance [OF _ that, of pos "pre @ inp"] l(1) "1.prems"(2) p by simp
    have at: "from_insert (pre @ inp) p pos [] = l" using adv [of p "[]"] by simp
    have step: "from_scan mid pos inp =
        (if eol \<or> \<not> mid then
           (if rest \<noteq> [] then
              (if length rest < 5 then
                 (if hd rest = 0x46 then (False, [], p, Some rest) else from_scan True p rest)
               else if take 5 rest = octets ''From '' then
                 (case from_scan True (p + 5) (drop 5 rest) of (mid, ns, inend, bk) \<Rightarrow> (mid, p # ns, inend, bk))
               else from_scan True p rest)
            else (False, [], p, None))
         else from_scan mid p rest)"
      by (subst from_scan.simps) (simp add: False er [symmetric] p_def Let_def)
    have pp: "pos \<le> p" by (simp add: p_def)
    consider (none) "rest = []" | (held) "eol \<or> \<not> mid" "rest \<noteq> []" "length rest < 5" "hd rest = 0x46"
      | (esc) "eol \<or> \<not> mid" "rest \<noteq> []" "\<not> length rest < 5" "take 5 rest = octets ''From ''"
      | (plain) "eol \<or> \<not> mid" "rest \<noteq> []" "length rest < 5 \<longrightarrow> hd rest \<noteq> 0x46" "length rest < 5 \<or> take 5 rest \<noteq> octets ''From ''"
      using l(3) by blast
    then show ?thesis
    proof cases
      case none
      then have "(mid', ns, inend, bk) = (\<not> (eol \<or> \<not> mid), [], p, None)"
        using "1.prems"(1) l(3) step by (auto simp: from_scan.simps [of _ _ "[]"] split: if_splits)
      then show ?thesis using none l(2) at pp by (simp del: from_insert.simps de_Morgan_disj)
    next
      case held
      then have "(mid', ns, inend, bk) = (False, [], p, Some rest)" using "1.prems"(1) step by simp
      then show ?thesis using held l(2) at pp by (auto simp del: from_insert.simps)
    next
      case esc
      obtain m1 n1 e1 b1 where r: "from_scan True (p + 5) (drop 5 rest) = (m1, n1, e1, b1)" by (metis prod_cases4)
      then have res: "mid' = m1" "ns = p # n1" "inend = e1" "bk = b1" using "1.prems"(1) step esc by auto
      let ?W = "(pre @ l) @ rest"
      have "p + 5 = length (pre @ l @ take 5 rest)" using p esc(3) by simp
      note IH = "1.IH"(2) [OF False refl er p_def esc(1-4) r this]
      have W: "(pre @ l @ take 5 rest) @ drop 5 rest = ?W" by simp
      have d: "drop p ?W = rest" using p by simp
      have a: "from_insert ?W e1 p n1 = take 5 rest @ from_insert ?W e1 (p + 5) n1"
        using from_insert_advance [of p "p + 5" e1 n1 ?W] IH unfolding d by simp
      have "from_insert (pre @ inp) e1 pos (p # n1) = l @ from_insert ?W e1 p (p # n1)"
        by (rule adv) simp
      then have "from_insert (pre @ inp) e1 pos (p # n1) = l @ 0x3e # take 5 rest @ from_insert ?W e1 (p + 5) n1"
        unfolding from_insert.simps(2) [of ?W e1 p p n1] a by simp
      then show ?thesis using IH l(2) from_escape_From [OF esc(4)] esc(1) pp
        unfolding res W by (simp del: from_insert.simps)
    next
      case plain
      then have r: "from_scan True p rest = (mid', ns, inend, bk)"
        using "1.prems"(1) step by (cases "length rest < 5") simp_all
      have IH: "length (case bk of None \<Rightarrow> [] | Some d \<Rightarrow> d) < 5 \<and> p \<le> (case ns of [] \<Rightarrow> inend | n # _ \<Rightarrow> n)
          \<and> (\<forall>ys. from_escape False (rest @ ys) =
               from_insert ((pre @ l) @ rest) inend p ns @ from_escape (\<not> mid') ((case bk of None \<Rightarrow> [] | Some d \<Rightarrow> d) @ ys))"
        using "1.IH"(1) [OF False refl er p_def plain(1,2) _ _ r p] "1.IH"(3) [OF False refl er p_def plain(1,2) _ _ r p] plain(3,4)
        by (cases "length rest < 5") auto
      have "take 5 (rest @ ys) \<noteq> octets ''From ''" for ys
      proof (cases "length rest < 5")
        case True
        then have "hd rest \<noteq> 0x46" using plain(3) by simp
        then show ?thesis using plain(2) unfolding octets_From take_5_iff by (cases rest) auto
      next
        case False
        then show ?thesis using plain(4) by simp
      qed
      then have "from_escape True (rest @ ys) = from_escape False (rest @ ys)" for ys by (rule from_escape_other)
      then show ?thesis using IH adv [of inend ns] l(2) plain(1) pp by (auto split: list.splits)
    qed
  qed
qed

definition from_compl :: "camel_mime_filter_from \<Rightarrow> byte list \<Rightarrow> byte list" where
  "from_compl f inp = fst (filter_run from_complete f inp)"

lemma from_filter_escape:
  assumes "length (backbuf f) < 5" "filter_run from_filter f xs = (out, f')"
  shows "length (backbuf f') < 5"
    "from_escape (\<not> midline f) (backbuf f @ xs @ ys) = out @ from_escape (\<not> midline f') (backbuf f' @ ys)"
proof -
  let ?in = "backbuf f @ xs"
  obtain mid ns inend bk where r: "from_scan (midline f) 0 ?in = (mid, ns, inend, bk)" by (metis prod_cases4)
  note sp = from_scan_escape [OF r, of "[]"]
  have "from_insert ?in inend 0 ns = (if length ns > 0 then from_insert ?in inend 0 ns else take inend ?in)" by (cases ns) auto
  then have o: "out = from_insert ?in inend 0 ns" "backbuf f' = (case bk of None \<Rightarrow> [] | Some d \<Rightarrow> d)" "midline f' = mid"
    using assms(2) r by (auto simp: filter_run_def from_filter_def camel_mime_filter_backup_def Let_def split: option.splits)
  show "length (backbuf f') < 5"
    "from_escape (\<not> midline f) (backbuf f @ xs @ ys) = out @ from_escape (\<not> midline f') (backbuf f' @ ys)"
    using sp unfolding o by auto
qed

text \<open>
  C11. Whatever the chunks the input comes in, the filter returns the input with a \<^verbatim>\<open>>\<close> in front of every
  line that starts with From and a space, provided the last call, complete, is made without new input,
  as the end of a stream does for the first filter.
\<close>

theorem from_filter_escapes:
  "filter_chunks (\<lambda>f xs. Some (filter_run from_filter f xs)) (\<lambda>f xs. Some (from_compl f xs))
     camel_mime_filter_from_new css [] = Some (from_escape True (concat css))"
proof -
  have "filter_chunks (\<lambda>f xs. Some (filter_run from_filter f xs)) (\<lambda>f xs. Some (from_compl f xs)) f css []
      = Some (from_escape (\<not> midline f) (backbuf f @ concat css))" if "length (backbuf f) < 5" for f
    using that
  proof (induction css arbitrary: f)
    case Nil
    then show ?case by (simp add: from_compl_def filter_run_def from_complete_def from_escape_short)
  next
    case (Cons c css)
    obtain out f' where r: "filter_run from_filter f c = (out, f')" by fastforce
    show ?case using r Cons.IH [OF from_filter_escape(1) [OF Cons.prems r]] from_filter_escape(2) [OF Cons.prems r, of "concat css"]
      by simp
  qed
  from this [of camel_mime_filter_from_new] show ?thesis by (simp add: camel_mime_filter_from_new_def)
qed

text \<open>Input that only reaches the call to complete is not escaped.\<close>

lemma from_complete_unescaped: "from_compl camel_mime_filter_from_new inp = inp"
  by (simp add: from_compl_def filter_run_def from_complete_def camel_mime_filter_from_new_def)

section \<open>The size of the output\<close>

lemma crlf_encode_size: "length (fst (crlf_encode_loop d f xs)) \<le> 2 * length xs"
proof (induction xs arbitrary: f)
  case (Cons c xs)
  obtain out g where "fst (crlf_encode_loop d f (c # xs)) = out @ c # fst (crlf_encode_loop d g xs)" "length out \<le> 1"
  proof
    let ?s = "if c = 0x0d then ([] :: byte list, f\<lparr>saw_cr := True\<rparr>)
         else if c = 0x0a then (if \<not> saw_cr f then [0x0d] else [], f\<lparr>saw_lf := True, saw_cr := False\<rparr>)
         else (if d \<and> c = 0x2e \<and> saw_lf f then [0x2e] else [], f\<lparr>saw_cr := False, saw_lf := False\<rparr>)"
    show "fst (crlf_encode_loop d f (c # xs)) = fst ?s @ c # fst (crlf_encode_loop d (snd ?s) xs)"
      by (simp only: crlf_encode_loop.simps Let_def case_prod_unfold fst_conv)
    show "length (fst ?s) \<le> 1" by simp
  qed
  then show ?case using Cons.IH [of g] by simp
qed simp

lemma crlf_decode_size: "length (fst (crlf_decode_loop d f xs)) \<le> length xs + (if saw_cr f then 1 else 0)"
proof (induction d f xs rule: crlf_decode_loop.induct)
  case (2 d f c xs)
  obtain out skip f' where c: "crlf_decode_char d f c = (out, skip, f')" by (cases "crlf_decode_char d f c")
  have "length out + (if saw_cr f' then 1 else 0) \<le> 1 + (if saw_cr f then 1 else 0)"
    using c by (auto simp: crlf_decode_char_def Let_def split: if_splits)
  moreover have "length (if skip then drop 1 xs else xs) \<le> length xs" by simp
  ultimately show ?case using "2.IH" [OF c [symmetric] refl] c by (simp add: case_prod_unfold Let_def)
qed simp

lemma canon_line_start_size:
  assumes "canon_line_start f final inp = Some (l0, rest)" "inp \<noteq> []"
  shows "length l0 + length rest \<le> length inp + 2" "\<exists>k. rest = drop k inp"
proof -
  show "length l0 + length rest \<le> length inp + 2"
    using assms by (cases inp) (auto simp: canon_line_start_def Let_def octets_From split: if_splits)
  show "\<exists>k. rest = drop k inp"
    using assms by (cases inp) (auto simp: canon_line_start_def Let_def split: if_splits intro: exI [of _ 0] exI [of _ 1] exI [of _ 5])
qed

lemma canon_loop_size:
  "case canon_loop f final inp of (out, line, start) \<Rightarrow> length out + length line \<le> length inp + 3 * count_list inp 0x0a + 2"
proof (induction inp rule: length_induct)
  case (1 inp)
  show ?case
  proof (cases "inp = [] \<or> canon_line_start f final inp = None")
    case True
    then show ?thesis by (auto simp: canon_loop.simps [of f final inp])
  next
    case False
    then obtain l0 rest where s: "canon_line_start f final inp = Some (l0, rest)" "inp \<noteq> []" by auto
    note sz = canon_line_start_size [OF s]
    obtain found line rest' where c: "canon_scan l0 rest = (found, line, rest')" by (cases "canon_scan l0 rest")
    obtain m where m: "line = l0 @ m" "rest = (if found then m @ 0x0a # rest' else m)" using canon_scan_parts [OF c] by blast
    show ?thesis
    proof (cases found)
      case False
      then show ?thesis using s c m sz(1) by (simp add: canon_loop.simps [of f final inp])
    next
      case True
      obtain k where k: "rest = drop k inp" using sz(2) by blast
      have "count_list inp 0x0a = count_list (take k inp) 0x0a + count_list rest 0x0a"
        unfolding k by (metis append_take_drop_id count_list_append)
      then have n: "1 + count_list rest' 0x0a \<le> count_list inp 0x0a" using m(2) True by simp
      have "length (canon_line_end f line) \<le> length line + 1" using canon_line_end_form(3) [of line f] by auto
      moreover have "length rest' < length inp" using canon_scan_shorter [of l0 rest line rest'] canon_line_start_length [OF s(1)] c True by simp
      then have "case canon_loop f final rest' of (out, line, start) \<Rightarrow> length out + length line \<le> length rest' + 3 * count_list rest' 0x0a + 2"
        by (rule 1 [rule_format])
      ultimately show ?thesis using s c True m sz(1) n
        by (simp add: canon_loop.simps [of f final inp] case_prod_unfold)
    qed
  qed
qed

text \<open>
  The output of the line filters fits the buffer that they ask for: three times the input for the
  CR LF encoder, one octet more than the input for the decoder, and three octets per line and four
  in all more than the input for the canonicalising filter.
\<close>

theorem line_filters_fit:
  "length (fst (crlf_filter c inp)) \<le> (if direction c = CAMEL_MIME_FILTER_CRLF_ENCODE then 3 * length inp else length inp + 1)
   \<and> length (fst (canon_filter f inp)) \<le> length inp + count_list inp 0x0a * 3 + 4
   \<and> length (fst (canon_complete f inp)) \<le> length inp + count_list inp 0x0a * 3 + 4"
proof (intro conjI)
  have "length (fst (crlf_encode_loop d c inp)) \<le> 3 * length inp" for d using crlf_encode_size [of d c inp] by linarith
  moreover have "length (fst (crlf_decode_loop d c inp)) \<le> length inp + 1" for d
    using crlf_decode_size [of d c inp] by (cases "saw_cr c") simp_all
  ultimately show "length (fst (crlf_filter c inp)) \<le> (if direction c = CAMEL_MIME_FILTER_CRLF_ENCODE then 3 * length inp else length inp + 1)"
    by (simp add: crlf_filter_def Let_def)
  show "length (fst (canon_filter f inp)) \<le> length inp + count_list inp 0x0a * 3 + 4"
    using canon_loop_size [where f = f and final = False and inp = inp] by (simp add: canon_filter_def canon_filter_run_def case_prod_unfold)
  show "length (fst (canon_complete f inp)) \<le> length inp + count_list inp 0x0a * 3 + 4"
    using canon_loop_size [where f = f and final = True and inp = inp] by (simp add: canon_complete_def canon_filter_run_def case_prod_unfold)
qed

end
