(* ===== verification/Camel_Basic_Filter.thy ===== *)
theory Camel_Basic_Filter
  imports Camel_Quoted Camel_Uu Camel_Line_Filters
begin

text \<open>
  The filter around the transfer encodings, \<^verbatim>\<open>camel/camel-mime-filter-basic.c\<close>. The integers \<^verbatim>\<open>state\<close> and \<^verbatim>\<open>save\<close> of
  the struct mean something else to each encoding; the record has the view of each. The base64
  functions are GLib's and a parameter, as are \<^verbatim>\<open>camel_mime_special_table\<close> and the contents of a fresh
  buffer. A call that does not return is \<^const>\<open>None\<close>.
\<close>

datatype camel_mime_filter_basic_type =
    CAMEL_MIME_FILTER_BASIC_BASE64_ENC | CAMEL_MIME_FILTER_BASIC_BASE64_DEC
  | CAMEL_MIME_FILTER_BASIC_QP_ENC | CAMEL_MIME_FILTER_BASIC_QP_DEC
  | CAMEL_MIME_FILTER_BASIC_UU_ENC | CAMEL_MIME_FILTER_BASIC_UU_DEC

record camel_mime_filter_basic = camel_mime_filter +
  basic_type :: camel_mime_filter_basic_type
  b64 :: "int \<times> int"
  qp_enc :: "byte option \<times> nat"
  qp_dec :: "nat \<times> byte"
  uu :: "uu_state \<times> guint32"
  uubuf :: "byte list"

record basic_lib =
  g_base64_encode_step :: "byte list \<Rightarrow> int \<times> int \<Rightarrow> byte list \<times> (int \<times> int)"
  g_base64_encode_close :: "int \<times> int \<Rightarrow> byte list \<times> (int \<times> int)"
  g_base64_decode_step :: "byte list \<Rightarrow> int \<times> int \<Rightarrow> byte list \<times> (int \<times> int)"
  special_tbl :: "byte \<Rightarrow> 16 word"
  fresh_buffer :: "nat \<Rightarrow> byte list"

definition basic_reset :: "camel_mime_filter_basic \<Rightarrow> camel_mime_filter_basic" where
  "basic_reset f = f\<lparr>b64 := (0, 0), qp_enc := (None, 0), qp_dec := (0, 0), uu := (uu_init, 0)\<rparr>"

text \<open>The search for the line \<^verbatim>\<open>begin mode name\<close>: the input after it, or the octets to back up.\<close>

function uu_find_begin :: "byte list \<Rightarrow> byte list option \<times> byte list option" where
  "uu_find_begin inp =
     (if inp = [] then (None, None)
      else if length inp < 6 then
        (None, if inp = take (length inp) (octets ''begin '') then Some inp else None)
      else if take 6 inp = octets ''begin '' then
        (case skip_to_eol inp of (eol, rest) \<Rightarrow> (if eol then (Some rest, None) else (None, Some inp)))
      else uu_find_begin (snd (skip_to_eol inp)))"
  by pat_completeness auto
termination by (relation "measure length") (auto intro: skip_to_eol_length [OF prod.collapse])

declare uu_find_begin.simps [simp del]

definition uu_decoding :: "camel_mime_filter_basic \<Rightarrow> bool" where
  "uu_decoding f \<longleftrightarrow> uu_begin (fst (uu f)) \<and> \<not> uu_end (fst (uu f))"

definition basic_uudecode :: "camel_mime_filter_basic \<Rightarrow> byte list \<Rightarrow> byte list \<times> camel_mime_filter_basic" where
  "basic_uudecode f inp =
     (if uu_decoding f then
        (case camel_uudecode_step inp (fst (uu f)) (snd (uu f)) of (out, st, sv) \<Rightarrow> (out, f\<lparr>uu := (st, sv)\<rparr>))
      else ([], f))"

definition basic_filter ::
    "basic_lib \<Rightarrow> camel_mime_filter_basic \<Rightarrow> byte list \<Rightarrow> (byte list \<times> camel_mime_filter_basic) option" where
  "basic_filter lib f inp =
     (case basic_type f of
        CAMEL_MIME_FILTER_BASIC_BASE64_ENC \<Rightarrow>
          (case g_base64_encode_step lib inp (b64 f) of (out, st) \<Rightarrow> Some (out, f\<lparr>b64 := st\<rparr>))
      | CAMEL_MIME_FILTER_BASIC_QP_ENC \<Rightarrow>
          (case camel_quoted_encode_step (special_tbl lib) inp (fst (qp_enc f)) (snd (qp_enc f)) of
             (out, st) \<Rightarrow> Some (out, f\<lparr>qp_enc := st\<rparr>))
      | CAMEL_MIME_FILTER_BASIC_UU_ENC \<Rightarrow>
          map_option (\<lambda>(out, buf, st). (out, f\<lparr>uubuf := buf, uu := st\<rparr>))
            (camel_uuencode_step inp (uubuf f) (fst (uu f)) (snd (uu f)))
      | CAMEL_MIME_FILTER_BASIC_BASE64_DEC \<Rightarrow>
          (case g_base64_decode_step lib inp (b64 f) of (out, st) \<Rightarrow> Some (out, f\<lparr>b64 := st\<rparr>))
      | CAMEL_MIME_FILTER_BASIC_QP_DEC \<Rightarrow>
          (case camel_quoted_decode_step inp (fst (qp_dec f)) (snd (qp_dec f)) of
             (out, st) \<Rightarrow> Some (out, f\<lparr>qp_dec := st\<rparr>))
      | CAMEL_MIME_FILTER_BASIC_UU_DEC \<Rightarrow>
          (if uu_begin (fst (uu f)) then Some (basic_uudecode f inp)
           else
             (case uu_find_begin inp of
                (Some rest, _) \<Rightarrow> Some (basic_uudecode (f\<lparr>uu := ((fst (uu f))\<lparr>uu_begin := True\<rparr>, snd (uu f))\<rparr>) rest)
              | (None, Some held) \<Rightarrow> Some ([], camel_mime_filter_backup f held)
              | (None, None) \<Rightarrow> Some ([], f))))"

text \<open>
  The closing call of base64 writes its octets to the start of the buffer, over those of the step, and
  the lengths are added: the octets that nobody wrote are those of the fresh buffer.
\<close>

definition basic_complete ::
    "basic_lib \<Rightarrow> camel_mime_filter_basic \<Rightarrow> byte list \<Rightarrow> (byte list \<times> camel_mime_filter_basic) option" where
  "basic_complete lib f inp =
     (case basic_type f of
        CAMEL_MIME_FILTER_BASIC_BASE64_ENC \<Rightarrow>
          (let (s, st) = (if length inp > 0 then g_base64_encode_step lib inp (b64 f) else ([], b64 f));
               (c, st) = g_base64_encode_close lib st;
               newlen = length s + length c
           in Some (take newlen (c @ drop (length c) (s @ drop (length s) (fresh_buffer lib newlen))), f\<lparr>b64 := st\<rparr>))
      | CAMEL_MIME_FILTER_BASIC_QP_ENC \<Rightarrow>
          (case camel_quoted_encode_close (special_tbl lib) inp (fst (qp_enc f)) (snd (qp_enc f)) of
             (out, st) \<Rightarrow> Some (out, f\<lparr>qp_enc := st\<rparr>))
      | CAMEL_MIME_FILTER_BASIC_UU_ENC \<Rightarrow>
          map_option (\<lambda>out. (out, f\<lparr>uu := (uu_init, 0)\<rparr>))
            (camel_uuencode_close inp (uubuf f) (fst (uu f)) (snd (uu f)))
      | CAMEL_MIME_FILTER_BASIC_BASE64_DEC \<Rightarrow>
          (case g_base64_decode_step lib inp (b64 f) of (out, st) \<Rightarrow> Some (out, f\<lparr>b64 := st\<rparr>))
      | CAMEL_MIME_FILTER_BASIC_QP_DEC \<Rightarrow>
          (case camel_quoted_decode_step inp (fst (qp_dec f)) (snd (qp_dec f)) of
             (out, st) \<Rightarrow> Some (out, f\<lparr>qp_dec := st\<rparr>))
      | CAMEL_MIME_FILTER_BASIC_UU_DEC \<Rightarrow> Some (basic_uudecode f inp))"

definition camel_mime_filter_basic_new_type :: "camel_mime_filter_basic_type \<Rightarrow> camel_mime_filter_basic" where
  "camel_mime_filter_basic_new_type t =
     mime_filter_reset (Some basic_reset)
       \<lparr>backbuf = [], basic_type = t, b64 = (0, 0), qp_enc = (None, 0), qp_dec = (0, 0), uu = (uu_init, 0), uubuf = []\<rparr>"

section \<open>The encodings that do not depend on the chunks\<close>

definition basic_inv :: "camel_mime_filter_basic \<Rightarrow> bool" where
  "basic_inv f \<longleftrightarrow> backbuf f = [] \<and>
     (case basic_type f of
        CAMEL_MIME_FILTER_BASIC_QP_ENC \<Rightarrow> True
      | CAMEL_MIME_FILTER_BASIC_QP_DEC \<Rightarrow> True
      | CAMEL_MIME_FILTER_BASIC_UU_ENC \<Rightarrow> \<exists>line. uu_rep line (uubuf f) (fst (uu f)) (snd (uu f))
      | _ \<Rightarrow> False)"

definition basic_compl :: "basic_lib \<Rightarrow> camel_mime_filter_basic \<Rightarrow> byte list \<Rightarrow> byte list option" where
  "basic_compl lib f inp = map_option fst (filter_run (basic_complete lib) f inp)"

lemma quoted_encode_append:
  "quoted_encode_loop tbl l n (xs @ ys) =
    (let (o1, l1, n1) = quoted_encode_loop tbl l n xs; (o2, st) = quoted_encode_loop tbl l1 n1 ys in (o1 @ o2, st))"
  by (induction xs arbitrary: l n) (simp_all add: case_prod_unfold Let_def)

lemma quoted_decode_append:
  "quoted_decode_loop st sv (xs @ ys) =
    (let (o1, s1, v1) = quoted_decode_loop st sv xs; (o2, r) = quoted_decode_loop s1 v1 ys in (o1 @ o2, r))"
  by (induction xs arbitrary: st sv) (simp_all add: case_prod_unfold Let_def)

lemma quoted_close_append:
  "fst (camel_quoted_encode_close tbl (xs @ ys) l n) =
    (case camel_quoted_encode_step tbl xs l n of (o1, l1, n1) \<Rightarrow> o1 @ fst (camel_quoted_encode_close tbl ys l1 n1))"
proof -
  have "camel_quoted_encode_close tbl zs k m =
      (case quoted_encode_loop tbl k m zs of (o1, l1, n1) \<Rightarrow> (o1 @ (case l1 of None \<Rightarrow> []
         | Some c \<Rightarrow> (if camel_mime_is_qpsafe tbl c \<and> c \<noteq> 0x20 \<and> c \<noteq> 0x09 then [c] else hex_escape c)), None, 0))" for zs k m
    by (cases zs) (simp_all add: camel_quoted_encode_close_def camel_quoted_encode_step_def case_prod_unfold Let_def)
  then show ?thesis by (simp add: camel_quoted_encode_step_def quoted_encode_append case_prod_unfold Let_def)
qed

lemma uuencode_close_append:
  assumes "uu_rep line buf st sv" "camel_uuencode_step xs buf st sv = Some (out, buf', st', sv')"
  shows "camel_uuencode_close (xs @ ys) buf st sv = map_option ((@) out) (camel_uuencode_close ys buf' st' sv')"
proof -
  obtain line' where f: "uu_feed line xs = (out, line')" "uu_rep line' buf' st' sv'"
    using uuencode_step_feed [OF assms(1), of xs] assms(2) by auto
  then show ?thesis using uuencode_close_feed [OF assms(1), of "xs @ ys"] uuencode_close_feed [OF f(2), of ys]
    by (simp add: uu_feed_append case_prod_unfold Let_def)
qed

interpretation basic: chunked_filter "filter_run (basic_filter lib)" "basic_compl lib" basic_inv
proof unfold_locales
  fix f xs
  assume inv: "basic_inv f"
  then have b: "backbuf f = []" by (simp add: basic_inv_def)
  show "\<exists>out f'. filter_run (basic_filter lib) f xs = Some (out, f') \<and> basic_inv f'
      \<and> (\<forall>ys. basic_compl lib f (xs @ ys) = map_option ((@) out) (basic_compl lib f' ys))"
  proof (cases "basic_type f")
    case CAMEL_MIME_FILTER_BASIC_QP_ENC
    then show ?thesis using b
      by (simp add: filter_run_def basic_filter_def basic_compl_def basic_complete_def basic_inv_def quoted_close_append case_prod_unfold)
  next
    case CAMEL_MIME_FILTER_BASIC_QP_DEC
    then show ?thesis using b
      by (simp add: filter_run_def basic_filter_def basic_compl_def basic_complete_def basic_inv_def
          camel_quoted_decode_step_def quoted_decode_append case_prod_unfold Let_def)
  next
    case CAMEL_MIME_FILTER_BASIC_UU_ENC
    then obtain line where rep: "uu_rep line (uubuf f) (fst (uu f)) (snd (uu f))" using inv by (auto simp: basic_inv_def)
    obtain out line' buf st sv where s: "camel_uuencode_step xs (uubuf f) (fst (uu f)) (snd (uu f)) = Some (out, buf, st, sv)"
        "uu_rep line' buf st sv"
      using uuencode_step_feed [OF rep, of xs] by blast
    show ?thesis using CAMEL_MIME_FILTER_BASIC_UU_ENC b s uuencode_close_append [OF rep s(1)]
      by (auto simp: filter_run_def basic_filter_def basic_compl_def basic_complete_def basic_inv_def option.map_comp comp_def)
  qed (use inv in \<open>simp_all add: basic_inv_def\<close>)
next
  fix f xs
  assume inv: "basic_inv f"
  then have b: "backbuf f = []" by (simp add: basic_inv_def)
  show "basic_compl lib f xs \<noteq> None"
  proof (cases "basic_type f")
    case CAMEL_MIME_FILTER_BASIC_UU_ENC
    then obtain line where "uu_rep line (uubuf f) (fst (uu f)) (snd (uu f))" using inv by (auto simp: basic_inv_def)
    from uuencode_close_feed [OF this, of xs] show ?thesis using CAMEL_MIME_FILTER_BASIC_UU_ENC b
      by (simp add: filter_run_def basic_compl_def basic_complete_def case_prod_unfold)
  qed (use inv b in \<open>simp_all add: basic_inv_def filter_run_def basic_compl_def basic_complete_def case_prod_unfold\<close>)
qed

end
