(* ===== verification/Camel_Stream.thy ===== *)
theory Camel_Stream
  imports Camel_Bytes
begin

text \<open>
  The abstract stream of \<^verbatim>\<open>camel/camel-stream.c\<close>: the methods of the class as a record, and the copy of
  one stream into another, which may not return. A method that does not return or goes outside its
  memory is \<^const>\<open>None\<close>; a read that fails gives \<^verbatim>\<open>-1\<close>, the inner \<^const>\<open>None\<close>. The locales state what the
  copy relies on and its result.
\<close>

record 's stream_ops =
  s_read :: "'s \<Rightarrow> nat \<Rightarrow> (byte list option \<times> 's) option"
  s_write :: "'s \<Rightarrow> byte list \<Rightarrow> (int \<times> 's) option"
  s_eos :: "'s \<Rightarrow> bool"
  s_flush :: "'s \<Rightarrow> (int \<times> 's) option"
  s_close :: "'s \<Rightarrow> (int \<times> 's) option"
  s_reset :: "'s \<Rightarrow> int \<times> 's"

text \<open>The inner loop returns \<^const>\<open>False\<close> after a failed write.\<close>

partial_function (option) write_fully ::
    "('s \<Rightarrow> byte list \<Rightarrow> (int \<times> 's) option) \<Rightarrow> 's \<Rightarrow> byte list \<Rightarrow> (bool \<times> 's) option" where
  "write_fully swrite s xs =
     (if xs \<noteq> [] then
        (case swrite s xs of
           None \<Rightarrow> None
         | Some (len, s') \<Rightarrow> (if len < 0 then Some (False, s') else write_fully swrite s' (drop (nat len) xs)))
      else Some (True, s))"

partial_function (option) write_to_stream_loop ::
    "('s \<Rightarrow> nat \<Rightarrow> (byte list option \<times> 's) option) \<Rightarrow> ('s \<Rightarrow> bool) \<Rightarrow> ('d \<Rightarrow> byte list \<Rightarrow> (int \<times> 'd) option) \<Rightarrow>
       int \<Rightarrow> 's \<Rightarrow> 'd \<Rightarrow> (int \<times> 's \<times> 'd) option" where
  "write_to_stream_loop sread eos swrite tot s d =
     (if \<not> eos s then
        (case sread s 4096 of
           None \<Rightarrow> None
         | Some (None, s') \<Rightarrow> Some (-1, s', d)
         | Some (Some xs, s') \<Rightarrow>
             (case write_fully swrite d xs of
                None \<Rightarrow> None
              | Some (done, d') \<Rightarrow>
                  (if done then write_to_stream_loop sread eos swrite (tot + int (length xs)) s' d' else Some (-1, s', d'))))
      else Some (tot, s, d))"

definition camel_stream_write_to_stream :: "'s stream_ops \<Rightarrow> 'd stream_ops \<Rightarrow> 's \<Rightarrow> 'd \<Rightarrow> (int \<times> 's \<times> 'd) option" where
  "camel_stream_write_to_stream src dst s d = write_to_stream_loop (s_read src) (s_eos src) (s_write dst) 0 s d"

section \<open>What clients of a stream rely on\<close>

text \<open>A stream that takes everything that is written to it.\<close>

locale byte_sink =
  fixes swrite :: "'d \<Rightarrow> byte list \<Rightarrow> (int \<times> 'd) option"
    and contents :: "'d \<Rightarrow> byte list"
    and dok :: "'d \<Rightarrow> bool"
  assumes write_appends: "dok d \<Longrightarrow> \<exists>d'. swrite d xs = Some (int (length xs), d') \<and> dok d' \<and> contents d' = contents d @ xs"
begin

lemma write_fully_appends:
  assumes "dok d"
  shows "\<exists>d'. write_fully swrite d xs = Some (True, d') \<and> dok d' \<and> contents d' = contents d @ xs"
proof (cases "xs = []")
  case True
  then show ?thesis using assms by (simp add: write_fully.simps)
next
  case False
  obtain d' where "swrite d xs = Some (int (length xs), d')" "dok d'" "contents d' = contents d @ xs"
    using write_appends [OF assms] by blast
  then show ?thesis using False by (simp add: write_fully.simps [of swrite d xs] write_fully.simps [of swrite d' "[]"])
qed

end

text \<open>
  A stream that delivers the octets \<open>todo\<close> piece by piece and tells its end. A read may deliver nothing
  without being at the end, but not forever.
\<close>

locale byte_source =
  fixes sread :: "'s \<Rightarrow> nat \<Rightarrow> (byte list option \<times> 's) option"
    and eos :: "'s \<Rightarrow> bool"
    and todo :: "'s \<Rightarrow> byte list"
    and sok :: "'s \<Rightarrow> bool"
    and rel :: "('s \<times> 's) set"
  assumes wf_rel: "wf rel"
    and eos_todo: "sok s \<Longrightarrow> eos s \<Longrightarrow> todo s = []"
    and read_progress: "sok s \<Longrightarrow> \<not> eos s \<Longrightarrow> 0 < n \<Longrightarrow> n \<le> 4096 \<Longrightarrow>
      \<exists>xs s'. sread s n = Some (Some xs, s') \<and> sok s' \<and> todo s = xs @ todo s' \<and> length xs \<le> n \<and> (s', s) \<in> rel"

text \<open>A stream that can be read at its end, where it delivers nothing.\<close>

locale quiet_source = byte_source +
  assumes read_at_eos: "sok s \<Longrightarrow> eos s \<Longrightarrow> n \<le> 4096 \<Longrightarrow> \<exists>s'. sread s n = Some (Some [], s') \<and> sok s' \<and> eos s'"

locale stream_copy = byte_source sread eos todo sok rel + byte_sink swrite contents dok
  for sread :: "'s \<Rightarrow> nat \<Rightarrow> (byte list option \<times> 's) option"
    and eos :: "'s \<Rightarrow> bool"
    and todo :: "'s \<Rightarrow> byte list"
    and sok :: "'s \<Rightarrow> bool"
    and rel :: "('s \<times> 's) set"
    and swrite :: "'d \<Rightarrow> byte list \<Rightarrow> (int \<times> 'd) option"
    and contents :: "'d \<Rightarrow> byte list"
    and dok :: "'d \<Rightarrow> bool"
begin

lemma copies_everything:
  assumes "sok s" "dok d"
  shows "\<exists>s' d'. write_to_stream_loop sread eos swrite tot s d = Some (tot + int (length (todo s)), s', d')
    \<and> contents d' = contents d @ todo s"
  using assms
proof (induction s arbitrary: d tot rule: wf_induct_rule [OF wf_rel])
  case (1 s)
  show ?case
  proof (cases "eos s")
    case True
    then show ?thesis using eos_todo [OF "1.prems"(1)] by (simp add: write_to_stream_loop.simps)
  next
    case False
    obtain xs s' where r: "sread s 4096 = Some (Some xs, s')" "sok s'" "todo s = xs @ todo s'" "(s', s) \<in> rel"
      using read_progress [OF "1.prems"(1) False, of 4096] by auto
    obtain d' where w: "write_fully swrite d xs = Some (True, d')" "dok d'" "contents d' = contents d @ xs"
      using write_fully_appends [OF "1.prems"(2)] by blast
    have "write_to_stream_loop sread eos swrite tot s d = write_to_stream_loop sread eos swrite (tot + int (length xs)) s' d'"
      using False r(1) w(1) by (simp add: write_to_stream_loop.simps [of sread eos swrite tot s d])
    then show ?thesis using "1.IH" [OF r(4,2) w(2), of "tot + int (length xs)"] w(3) r(3) by (auto simp: add.assoc)
  qed
qed

end

end
