(* ===== verification/Camel_Stream_Mem.thy ===== *)
theory Camel_Stream_Mem
  imports Camel_Stream
begin

text \<open>
  Memory streams: \<^verbatim>\<open>camel/camel-stream-mem.c\<close> on top of \<^verbatim>\<open>camel-seekable-stream.c\<close>. Positions and bounds are
  \<^verbatim>\<open>off_t\<close>, 64-bit signed integers, and compare as unsigned ones where the code mixes them with a
  \<^verbatim>\<open>size_t\<close>. The octets that \<^verbatim>\<open>g_byte_array_set_size\<close> adds are not initialised; they are the parameter
  \<open>junk\<close>. Copying to or from outside the array is \<^const>\<open>None\<close>. What a client that only appends
  relies on is the locale \<open>byte_sink\<close>, what one that only reads, the locale \<open>byte_source\<close>.
\<close>

section \<open>The stream\<close>

definition CAMEL_STREAM_UNBOUND :: int where
  "CAMEL_STREAM_UNBOUND = -1"

record camel_seekable_stream =
  position :: int
  bound_start :: int
  bound_end :: int

record camel_stream_mem = camel_seekable_stream +
  buffer :: "byte list"

datatype camel_stream_seek_policy = CAMEL_STREAM_SET | CAMEL_STREAM_CUR | CAMEL_STREAM_END

definition umin :: "int \<Rightarrow> int \<Rightarrow> int" where
  "umin a b = (if a mod 2 ^ 64 < b mod 2 ^ 64 then a else b)"

definition camel_stream_mem_new_with_byte_array :: "byte list \<Rightarrow> camel_stream_mem" where
  "camel_stream_mem_new_with_byte_array data =
     \<lparr>position = 0, bound_start = 0, bound_end = CAMEL_STREAM_UNBOUND, buffer = data\<rparr>"

definition camel_stream_mem_set_byte_array :: "camel_stream_mem \<Rightarrow> byte list \<Rightarrow> camel_stream_mem" where
  "camel_stream_mem_set_byte_array mem data = mem\<lparr>buffer := data\<rparr>"

text \<open>\<^verbatim>\<open>memcpy\<close> out of and into an array.\<close>

definition copy_out :: "byte list \<Rightarrow> int \<Rightarrow> int \<Rightarrow> byte list option" where
  "copy_out data pos n =
     (if 0 \<le> pos \<and> pos + n \<le> int (length data) then Some (take (nat n) (drop (nat pos) data)) else None)"

definition copy_in :: "byte list \<Rightarrow> int \<Rightarrow> byte list \<Rightarrow> byte list option" where
  "copy_in data pos xs =
     (if 0 \<le> pos \<and> pos + int (length xs) \<le> int (length data)
      then Some (take (nat pos) data @ xs @ drop (nat pos + length xs) data) else None)"

definition stream_read :: "camel_stream_mem \<Rightarrow> nat \<Rightarrow> (byte list \<times> camel_stream_mem) option" where
  "stream_read s n =
     (let n = (if bound_end s \<noteq> CAMEL_STREAM_UNBOUND then umin (bound_end s - position s) (int n) else int n);
          nread = umin n (int (length (buffer s)) - position s)
      in if nread > 0
         then map_option (\<lambda>xs. (xs, s\<lparr>position := position s + nread\<rparr>)) (copy_out (buffer s) (position s) nread)
         else Some ([], s))"

definition stream_write :: "(nat \<Rightarrow> byte list) \<Rightarrow> camel_stream_mem \<Rightarrow> byte list \<Rightarrow> (int \<times> camel_stream_mem) option" where
  "stream_write junk s xs =
     (let nwrite = (if bound_end s \<noteq> CAMEL_STREAM_UNBOUND then umin (bound_end s - position s) (int (length xs)) else int (length xs));
          out = take (nat nwrite) xs
      in map_option (\<lambda>data. (nwrite, s\<lparr>buffer := data, position := position s + nwrite\<rparr>))
           (if position s = int (length (buffer s)) then Some (buffer s @ out)
            else copy_in (buffer s @ junk (nat nwrite)) (position s) out))"

definition stream_eos :: "camel_stream_mem \<Rightarrow> bool" where
  "stream_eos s \<longleftrightarrow> int (length (buffer s)) \<le> position s"

definition stream_seek :: "camel_stream_mem \<Rightarrow> int \<Rightarrow> camel_stream_seek_policy \<Rightarrow> int \<times> camel_stream_mem" where
  "stream_seek s off policy =
     (let pos = (case policy of
                   CAMEL_STREAM_SET \<Rightarrow> off
                 | CAMEL_STREAM_CUR \<Rightarrow> position s + off
                 | CAMEL_STREAM_END \<Rightarrow> int (length (buffer s)) + off);
          pos = (if bound_end s \<noteq> CAMEL_STREAM_UNBOUND then min pos (bound_end s) else pos);
          pos = (if bound_start s \<noteq> CAMEL_STREAM_UNBOUND then max pos 0 else max pos (bound_start s));
          s = (if pos > int (length (buffer s))
               then s\<lparr>buffer := buffer s @ replicate (nat pos - length (buffer s)) 0\<rparr> else s)
      in (pos, s\<lparr>position := pos\<rparr>))"

definition stream_tell :: "camel_stream_mem \<Rightarrow> int" where
  "stream_tell s = position s"

definition seekable_set_bounds :: "camel_stream_mem \<Rightarrow> int \<Rightarrow> int \<Rightarrow> int \<times> camel_stream_mem" where
  "seekable_set_bounds s start end' =
     (let s = s\<lparr>bound_start := start, bound_end := end'\<rparr>
      in if start > position s then stream_seek s start CAMEL_STREAM_SET else (0, s))"

definition camel_seekable_stream_set_bounds :: "camel_stream_mem \<Rightarrow> int \<Rightarrow> int \<Rightarrow> int \<times> camel_stream_mem" where
  "camel_seekable_stream_set_bounds s start end' =
     (if end' = CAMEL_STREAM_UNBOUND \<or> end' \<ge> start then seekable_set_bounds s start end' else (-1, s))"

definition seekable_reset :: "camel_stream_mem \<Rightarrow> int \<times> camel_stream_mem" where
  "seekable_reset s = stream_seek s (bound_start s) CAMEL_STREAM_SET"

section \<open>Reading and writing\<close>

text \<open>
  The invariant of a stream: the position is in the array, and in front of the upper bound if there is
  one. Sizes are below \<^term>\<open>2 ^ 63\<close>.
\<close>

definition mem_ok :: "camel_stream_mem \<Rightarrow> bool" where
  "mem_ok s \<longleftrightarrow> 0 \<le> position s \<and> position s \<le> int (length (buffer s)) \<and> int (length (buffer s)) < 2 ^ 63
     \<and> (bound_end s \<noteq> CAMEL_STREAM_UNBOUND \<longrightarrow> position s \<le> bound_end s \<and> bound_end s < 2 ^ 63)"

lemma umin_small: "0 \<le> a \<Longrightarrow> a < 2 ^ 64 \<Longrightarrow> 0 \<le> b \<Longrightarrow> b < 2 ^ 64 \<Longrightarrow> umin a b = min a b"
  by (simp add: umin_def)

text \<open>What a read of at most \<open>n\<close> octets returns.\<close>

definition avail :: "camel_stream_mem \<Rightarrow> byte list" where
  "avail s = drop (nat (position s)) (if bound_end s \<noteq> CAMEL_STREAM_UNBOUND then take (nat (bound_end s)) (buffer s) else buffer s)"

lemma mem_ok_nats:
  assumes "mem_ok s"
  obtains (unbound) p where "position s = int p" "p \<le> length (buffer s)" "int (length (buffer s)) < 2 ^ 63"
      "bound_end s = CAMEL_STREAM_UNBOUND" "avail s = drop p (buffer s)"
  | (bound) p e where "position s = int p" "p \<le> length (buffer s)" "int (length (buffer s)) < 2 ^ 63"
      "bound_end s = int e" "bound_end s \<noteq> CAMEL_STREAM_UNBOUND" "p \<le> e" "int e < 2 ^ 63" "avail s = take (e - p) (drop p (buffer s))"
proof -
  obtain p where p: "position s = int p" using assms by (metis mem_ok_def nonneg_int_cases)
  show ?thesis
  proof (cases "bound_end s = CAMEL_STREAM_UNBOUND")
    case True
    then show ?thesis using assms p unbound by (simp add: mem_ok_def avail_def)
  next
    case False
    then obtain e where "bound_end s = int e" using assms p by (metis mem_ok_def int_nat_eq order_trans)
    then show ?thesis using assms p False bound by (simp add: mem_ok_def avail_def drop_take)
  qed
qed

lemma copy_out_take:
  "p \<le> length data \<Longrightarrow> copy_out data (int p) (int (min n (length data - p))) = Some (take n (drop p data))"
  by (auto simp: copy_out_def min_def)

lemma stream_read_avail:
  assumes "mem_ok s" "int n < 2 ^ 63"
  shows "stream_read s n = Some (take n (avail s), s\<lparr>position := position s + int (length (take n (avail s)))\<rparr>)"
proof -
  have core: "(if k > 0 then map_option (\<lambda>xs. (xs, s\<lparr>position := position s + k\<rparr>)) (copy_out (buffer s) (position s) k) else Some ([], s))
      = Some (take m (drop p (buffer s)), s\<lparr>position := position s + int (length (take m (drop p (buffer s))))\<rparr>)"
    if "position s = int p" "p \<le> length (buffer s)" "k = int (min m (length (buffer s) - p))" for k m p
  proof (cases "min m (length (buffer s) - p) = 0")
    case True
    then have "take m (drop p (buffer s)) = []" by (auto simp: min_def split: if_splits)
    then show ?thesis using True that(3) by simp
  next
    case False
    then show ?thesis using that copy_out_take [OF that(2), of m] by (simp add: min.commute)
  qed
  from assms(1) show ?thesis
  proof (cases rule: mem_ok_nats)
    case (unbound p)
    have "umin (int n) (int (length (buffer s)) - position s) = int (min n (length (buffer s) - p))"
      using assms(2) unbound(1-3) by (subst umin_small) (auto simp: of_nat_diff)
    then show ?thesis using core [OF unbound(1,2)] unbound(4,5) by (simp add: stream_read_def)
  next
    case (bound p e)
    have "umin (bound_end s - position s) (int n) = int (min (e - p) n)"
      using assms(2) bound(1,4,6,7) by (subst umin_small) (auto simp: of_nat_diff)
    moreover have "umin (int (min (e - p) n)) (int (length (buffer s)) - position s) = int (min (min (e - p) n) (length (buffer s) - p))"
      using assms(2) bound(1-3) by (subst umin_small) (auto simp: of_nat_diff)
    ultimately show ?thesis using core [OF bound(1,2), of _ "min (e - p) n"] bound(5,8)
      by (simp add: stream_read_def min.commute)
  qed
qed

lemma stream_write_end:
  assumes "position s = int (length (buffer s))" "bound_end s = CAMEL_STREAM_UNBOUND"
  shows "stream_write junk s xs =
    Some (int (length xs), s\<lparr>buffer := buffer s @ xs, position := int (length (buffer s @ xs))\<rparr>)"
  using assms by (simp add: stream_write_def Let_def)

lemma stream_write_ok:
  assumes "mem_ok s" "int (length (buffer s)) + int (length xs) < 2 ^ 63" "\<And>n. length (junk n) = n"
  shows "\<exists>n s'. stream_write junk s xs = Some (n, s') \<and> mem_ok s' \<and> 0 \<le> n \<and> n \<le> int (length xs)"
proof -
  define n where "n = (if bound_end s \<noteq> CAMEL_STREAM_UNBOUND then umin (bound_end s - position s) (int (length xs)) else int (length xs))"
  have n: "0 \<le> n" "n \<le> int (length xs)" "bound_end s \<noteq> CAMEL_STREAM_UNBOUND \<longrightarrow> position s + n \<le> bound_end s"
    using assms umin_small [of "bound_end s - position s" "int (length xs)"] by (auto simp: n_def mem_ok_def)
  let ?out = "take (nat n) xs"
  have out: "int (length ?out) = n" using n by simp
  have ok: "mem_ok (s\<lparr>buffer := data, position := position s + n\<rparr>)" if "length data = length (buffer s) + nat n" for data
    using assms(1,2) n that by (auto simp: mem_ok_def)
  show ?thesis
  proof (cases "position s = int (length (buffer s))")
    case True
    then show ?thesis using n ok [of "buffer s @ ?out"] by (simp add: stream_write_def n_def [symmetric])
  next
    case False
    let ?d = "take (nat (position s)) (buffer s @ junk (nat n)) @ ?out @ drop (nat (position s) + length ?out) (buffer s @ junk (nat n))"
    have p: "0 \<le> position s" "position s \<le> int (length (buffer s))" using assms(1) by (auto simp: mem_ok_def)
    have c: "copy_in (buffer s @ junk (nat n)) (position s) ?out = Some ?d"
      unfolding copy_in_def using p out assms(3) [of "nat n"] by simp
    have "length (buffer s @ junk (nat n)) = length (buffer s) + nat n" "nat (position s) \<le> length (buffer s)" "length ?out = nat n"
      using p out assms(3) [of "nat n"] by auto
    then have "length ?d = length (buffer s) + nat n" unfolding length_append [of "take _ _"] length_take length_drop
      by (simp only: length_append length_drop) linarith
    from ok [OF this] show ?thesis using False n c by (simp add: stream_write_def n_def [symmetric])
  qed
qed

lemma stream_seek_ok:
  assumes "mem_ok s" "bound_start s \<noteq> CAMEL_STREAM_UNBOUND" "bound_end s \<noteq> CAMEL_STREAM_UNBOUND \<longrightarrow> 0 \<le> bound_end s"
    "\<bar>off\<bar> + int (length (buffer s)) < 2 ^ 62"
  shows "mem_ok (snd (stream_seek s off policy))"
proof -
  define pos where "pos = (case policy of CAMEL_STREAM_SET \<Rightarrow> off | CAMEL_STREAM_CUR \<Rightarrow> position s + off
      | CAMEL_STREAM_END \<Rightarrow> int (length (buffer s)) + off)"
  have "pos < 2 ^ 63" using assms(1,4) by (cases policy) (auto simp: pos_def mem_ok_def)
  then show ?thesis using assms(1-3)
    by (auto simp: stream_seek_def pos_def [symmetric] Let_def mem_ok_def)
qed



text \<open>
  Overwriting octets in the middle of a stream makes the array longer by as many octets as are
  written, although none need be added: the octets at its end are not initialised.
\<close>

theorem mem_overwrite_grows:
  assumes "mem_ok s" "bound_end s = CAMEL_STREAM_UNBOUND" "position s + int (length xs) \<le> int (length (buffer s))"
    "xs \<noteq> []" "\<And>n. length (junk n) = n"
  shows "\<exists>s'. stream_write junk s xs = Some (int (length xs), s')
    \<and> length (buffer s') = length (buffer s) + length xs \<and> drop (length (buffer s)) (buffer s') = junk (length xs)"
proof -
  obtain p where p: "position s = int p" using assms(1) by (metis mem_ok_def nonneg_int_cases)
  have n: "p + length xs \<le> length (buffer s)" "position s \<noteq> int (length (buffer s))" using assms(3,4) p by auto
  let ?d = "take p (buffer s @ junk (length xs)) @ xs @ drop (p + length xs) (buffer s @ junk (length xs))"
  have "copy_in (buffer s @ junk (length xs)) (position s) xs = Some ?d"
    unfolding copy_in_def p using n(1) by simp
  then show ?thesis using n assms(2,5) p by (simp add: stream_write_def Let_def)
qed

theorem mem_overwrite_grows_witness:
  "\<exists>s'. stream_write (\<lambda>n. replicate n 0xbf) (camel_stream_mem_new_with_byte_array [1, 2, 3]) [9, 8] = Some (int (length [9, 8 :: byte]), s')
    \<and> length (buffer s') = length (buffer (camel_stream_mem_new_with_byte_array [1, 2, 3])) + length [9, 8 :: byte]
    \<and> drop (length (buffer (camel_stream_mem_new_with_byte_array [1, 2, 3]))) (buffer s') = replicate (length [9, 8 :: byte]) 0xbf"
  by (rule mem_overwrite_grows) (simp_all add: camel_stream_mem_new_with_byte_array_def mem_ok_def CAMEL_STREAM_UNBOUND_def)

text \<open>The lower bound is not respected, and a position behind a new, shorter array reads outside it.\<close>

lemma seek_ignores_lower_bound:
  "stream_seek (s\<lparr>bound_start := 5, bound_end := CAMEL_STREAM_UNBOUND\<rparr>) 0 CAMEL_STREAM_SET = (0, s\<lparr>bound_start := 5, bound_end := CAMEL_STREAM_UNBOUND, position := 0\<rparr>)"
  by (simp add: stream_seek_def CAMEL_STREAM_UNBOUND_def)

lemma shorter_array_overread:
  "stream_read (camel_stream_mem_set_byte_array \<lparr>position = 2, bound_start = 0, bound_end = CAMEL_STREAM_UNBOUND, buffer = [1, 2]\<rparr> [7]) 1 = None"
  by (simp add: stream_read_def camel_stream_mem_set_byte_array_def umin_def copy_out_def CAMEL_STREAM_UNBOUND_def)

section \<open>The stream as a source and as a sink\<close>

definition mem_ops :: "(nat \<Rightarrow> byte list) \<Rightarrow> camel_stream_mem stream_ops" where
  "mem_ops junk =
     \<lparr>s_read = (\<lambda>s n. map_option (apfst Some) (stream_read s n)), s_write = stream_write junk, s_eos = stream_eos,
      s_flush = (\<lambda>s. Some (0, s)), s_close = (\<lambda>s. Some (0, s)), s_reset = seekable_reset\<rparr>"

definition mem_sink_ok :: "camel_stream_mem \<Rightarrow> bool" where
  "mem_sink_ok s \<longleftrightarrow> position s = int (length (buffer s)) \<and> bound_end s = CAMEL_STREAM_UNBOUND"

definition mem_source_ok :: "camel_stream_mem \<Rightarrow> bool" where
  "mem_source_ok s \<longleftrightarrow> mem_ok s \<and> bound_end s = CAMEL_STREAM_UNBOUND"

interpretation mem_sink: byte_sink "s_write (mem_ops junk)" buffer mem_sink_ok
  by unfold_locales (simp add: stream_write_end mem_ops_def mem_sink_ok_def)

lemma mem_source_eos: "mem_source_ok s \<Longrightarrow> stream_eos s \<longleftrightarrow> avail s = []"
  by (auto simp: stream_eos_def avail_def mem_ok_def mem_source_ok_def)

lemma mem_source_read:
  assumes "mem_source_ok s" "n \<le> 4096"
  shows "\<exists>s'. stream_read s n = Some (take n (avail s), s') \<and> mem_source_ok s' \<and> avail s' = drop n (avail s)"
proof -
  obtain p where p: "position s = int p" "p \<le> length (buffer s)" "avail s = drop p (buffer s)"
    using assms(1) mem_ok_nats [of s] by (metis mem_source_ok_def)
  let ?s = "s\<lparr>position := position s + int (length (take n (avail s)))\<rparr>"
  have "mem_source_ok ?s \<and> avail ?s = drop n (avail s)"
    using assms(1) p by (auto simp: mem_ok_def mem_source_ok_def avail_def nat_int_add add.commute min_def)
  then show ?thesis using stream_read_avail [of s n] assms by (simp add: mem_source_ok_def)
qed

interpretation mem_source: quiet_source "s_read (mem_ops junk)" "s_eos (mem_ops junk)" avail mem_source_ok "measure (\<lambda>s. length (avail s))"
proof unfold_locales
  fix s :: camel_stream_mem and n :: nat
  assume s: "mem_source_ok s" and e: "\<not> s_eos (mem_ops junk) s" and n: "0 < n" "n \<le> 4096"
  obtain s' where "stream_read s n = Some (take n (avail s), s')" "mem_source_ok s'" "avail s' = drop n (avail s)"
    using mem_source_read [OF s n(2)] by blast
  moreover have "avail s \<noteq> []" using e mem_source_eos [OF s] by (simp add: mem_ops_def)
  ultimately show "\<exists>xs s'. s_read (mem_ops junk) s n = Some (Some xs, s') \<and> mem_source_ok s' \<and> avail s = xs @ avail s'
      \<and> length xs \<le> n \<and> (s', s) \<in> measure (\<lambda>s. length (avail s))"
    using n by (simp add: mem_ops_def)
next
  fix s :: camel_stream_mem and n :: nat
  assume s: "mem_source_ok s" and e: "s_eos (mem_ops junk) s" and n: "n \<le> 4096"
  have a: "avail s = []" using e mem_source_eos [OF s] by (simp add: mem_ops_def)
  show "\<exists>s'. s_read (mem_ops junk) s n = Some (Some [], s') \<and> mem_source_ok s' \<and> s_eos (mem_ops junk) s'"
    using mem_source_read [OF s n] a mem_source_eos by (auto simp: mem_ops_def)
qed (auto simp: mem_ops_def mem_source_eos)

end
