(* ===== verification/Camel_Stream_Filter.thy ===== *)
theory Camel_Stream_Filter
  imports Camel_Basic_Filter Camel_Stream_Mem
begin

text \<open>
  Streams that filter what is read from or written to another stream: \<^verbatim>\<open>camel/camel-stream-filter.c\<close> over the
  filters of the other theories. A filter object is one of the classes; the dispatch to the functions
  of its class is that of \<^verbatim>\<open>camel-mime-filter.c\<close>. The methods of the underlying stream are the record
  \<open>stream_ops\<close>. The properties compose the components: reading or writing through a chain of filters is
  the composition of the filters on the whole data, whatever the sizes of the reads and writes.
\<close>

section \<open>Filter objects\<close>

datatype camel_mime_filter_object =
    Crlf camel_mime_filter_crlf
  | Canon camel_mime_filter_canon
  | From camel_mime_filter_from
  | Basic camel_mime_filter_basic

fun camel_mime_filter_filter ::
    "basic_lib \<Rightarrow> camel_mime_filter_object \<Rightarrow> byte list \<Rightarrow> (byte list \<times> camel_mime_filter_object) option" where
  "camel_mime_filter_filter lib (Crlf f) inp = Some (apsnd Crlf (filter_run crlf_filter f inp))"
| "camel_mime_filter_filter lib (Canon f) inp = Some (apsnd Canon (filter_run canon_filter f inp))"
| "camel_mime_filter_filter lib (From f) inp = Some (apsnd From (filter_run from_filter f inp))"
| "camel_mime_filter_filter lib (Basic f) inp = map_option (apsnd Basic) (filter_run (basic_filter lib) f inp)"

text \<open>The result is what the variables of the caller hold, who passes its buffer in and out.\<close>

fun camel_mime_filter_complete ::
    "basic_lib \<Rightarrow> camel_mime_filter_object \<Rightarrow> byte list \<Rightarrow> (byte list \<times> camel_mime_filter_object) option" where
  "camel_mime_filter_complete lib (Crlf f) inp =
     (case filter_run crlf_complete f inp of
        (None, f') \<Rightarrow> Some (inp, Crlf f')
      | (Some out, f') \<Rightarrow> Some (out, Crlf f'))"
| "camel_mime_filter_complete lib (Canon f) inp = Some (apsnd Canon (filter_run canon_complete f inp))"
| "camel_mime_filter_complete lib (From f) inp = Some (apsnd From (filter_run from_complete f inp))"
| "camel_mime_filter_complete lib (Basic f) inp = map_option (apsnd Basic) (filter_run (basic_complete lib) f inp)"

fun camel_mime_filter_reset :: "camel_mime_filter_object \<Rightarrow> camel_mime_filter_object" where
  "camel_mime_filter_reset (Crlf f) = Crlf (mime_filter_reset (Some crlf_reset) f)"
| "camel_mime_filter_reset (Canon f) = Canon (mime_filter_reset (Some canon_reset) f)"
| "camel_mime_filter_reset (From f) = From (mime_filter_reset None f)"
| "camel_mime_filter_reset (Basic f) = Basic (mime_filter_reset (Some basic_reset) f)"

section \<open>The stream\<close>

record 's camel_stream_filter =
  source :: 's
  filters :: "(int \<times> camel_mime_filter_object) list"
  filterid :: int
  filtered :: "byte list"
  last_was_read :: bool
  flushed :: bool

definition camel_stream_filter_new_with_stream :: "'s \<Rightarrow> 's camel_stream_filter" where
  "camel_stream_filter_new_with_stream s =
     \<lparr>source = s, filters = [], filterid = 0, filtered = [], last_was_read = True, flushed = False\<rparr>"

definition camel_stream_filter_add :: "'s camel_stream_filter \<Rightarrow> camel_mime_filter_object \<Rightarrow> int \<times> 's camel_stream_filter" where
  "camel_stream_filter_add st f =
     (filterid st, st\<lparr>filters := filters st @ [(filterid st, f)], filterid := filterid st + 1\<rparr>)"

text \<open>After a removal the walk goes on behind the next node.\<close>

fun remove_filter :: "int \<Rightarrow> (int \<times> camel_mime_filter_object) list \<Rightarrow> (int \<times> camel_mime_filter_object) list" where
  "remove_filter i [] = []"
| "remove_filter i (fn # fs) =
     (if fst fn = i then (case fs of [] \<Rightarrow> [] | fn' # fs' \<Rightarrow> fn' # remove_filter i fs')
      else fn # remove_filter i fs)"

definition camel_stream_filter_remove :: "'s camel_stream_filter \<Rightarrow> int \<Rightarrow> 's camel_stream_filter" where
  "camel_stream_filter_remove st i = st\<lparr>filters := remove_filter i (filters st)\<rparr>"

fun filter_all ::
    "basic_lib \<Rightarrow> (int \<times> camel_mime_filter_object) list \<Rightarrow> byte list \<Rightarrow> (byte list \<times> (int \<times> camel_mime_filter_object) list) option" where
  "filter_all lib [] inp = Some (inp, [])"
| "filter_all lib ((i, f) # fs) inp =
     (case camel_mime_filter_filter lib f inp of
        None \<Rightarrow> None
      | Some (out, f') \<Rightarrow> map_option (apsnd ((#) (i, f'))) (filter_all lib fs out))"

fun complete_all ::
    "basic_lib \<Rightarrow> (int \<times> camel_mime_filter_object) list \<Rightarrow> byte list \<Rightarrow> (byte list \<times> (int \<times> camel_mime_filter_object) list) option" where
  "complete_all lib [] inp = Some (inp, [])"
| "complete_all lib ((i, f) # fs) inp =
     (case camel_mime_filter_complete lib f inp of
        None \<Rightarrow> None
      | Some (out, f') \<Rightarrow> map_option (apsnd ((#) (i, f'))) (complete_all lib fs out))"

definition READ_SIZE :: nat where
  "READ_SIZE = 4096"

definition do_read ::
    "basic_lib \<Rightarrow> 's stream_ops \<Rightarrow> 's camel_stream_filter \<Rightarrow> nat \<Rightarrow> (byte list option \<times> 's camel_stream_filter) option" where
  "do_read lib ops st n =
     (let st = st\<lparr>last_was_read := True\<rparr>;
          deliver = (\<lambda>st. Some (Some (take n (filtered st)), st\<lparr>filtered := drop n (filtered st)\<rparr>))
      in if filtered st = [] then
           (case s_read ops (source st) READ_SIZE of
              None \<Rightarrow> None
            | Some (nread, src) \<Rightarrow>
                (let st = st\<lparr>source := src\<rparr>
                 in if nread = None \<or> nread = Some [] then
                      (if s_eos ops src then
                         (case complete_all lib (filters st) [] of
                            None \<Rightarrow> None
                          | Some (out, fs) \<Rightarrow>
                              (let st = st\<lparr>filters := fs, filtered := out, flushed := True\<rparr>
                               in if out = [] then Some (Some [], st) else deliver st))
                       else Some (nread, st))
                    else
                      (case filter_all lib (filters st) (the nread) of
                         None \<Rightarrow> None
                       | Some (out, fs) \<Rightarrow> deliver (st\<lparr>filters := fs, filtered := out\<rparr>))))
         else deliver st)"

text \<open>The loop of \<^verbatim>\<open>do_write\<close>; \<^const>\<open>False\<close> after a write that failed or was short.\<close>

function do_write_loop ::
    "basic_lib \<Rightarrow> 's stream_ops \<Rightarrow> 's camel_stream_filter \<Rightarrow> byte list \<Rightarrow> (bool \<times> 's camel_stream_filter) option" where
  "do_write_loop lib ops st buf =
     (if buf = [] then Some (True, st)
      else
        (case filter_all lib (filters st) (take READ_SIZE buf) of
           None \<Rightarrow> None
         | Some (out, fs) \<Rightarrow>
             (case s_write ops (source st) out of
                None \<Rightarrow> None
              | Some (len, src) \<Rightarrow>
                  (let st = st\<lparr>filters := fs, source := src\<rparr>
                   in if len \<noteq> int (length out) then Some (False, st)
                      else do_write_loop lib ops st (drop READ_SIZE buf)))))"
  by pat_completeness auto
termination by (relation "measure (\<lambda>(lib, ops, st, buf). length buf)") (auto simp: READ_SIZE_def)

declare do_write_loop.simps [simp del]

definition do_write ::
    "basic_lib \<Rightarrow> 's stream_ops \<Rightarrow> 's camel_stream_filter \<Rightarrow> byte list \<Rightarrow> (int \<times> 's camel_stream_filter) option" where
  "do_write lib ops st buf =
     map_option (\<lambda>(ok, st). (if ok then int (length buf) else -1, st)) (do_write_loop lib ops (st\<lparr>last_was_read := False\<rparr>) buf)"

definition do_flush :: "basic_lib \<Rightarrow> 's stream_ops \<Rightarrow> 's camel_stream_filter \<Rightarrow> (int \<times> 's camel_stream_filter) option" where
  "do_flush lib ops st =
     (if last_was_read st then Some (0, st)
      else
        (case complete_all lib (filters st) [] of
           None \<Rightarrow> None
         | Some (out, fs) \<Rightarrow>
             (let st = st\<lparr>filters := fs\<rparr>
              in case (if length out > 0 then s_write ops (source st) out else Some (0, source st)) of
                   None \<Rightarrow> None
                 | Some (len, src) \<Rightarrow>
                     (if length out > 0 \<and> len = -1 then Some (-1, st\<lparr>source := src\<rparr>)
                      else map_option (\<lambda>(r, src). (r, st\<lparr>source := src\<rparr>)) (s_flush ops src)))))"

definition do_close :: "basic_lib \<Rightarrow> 's stream_ops \<Rightarrow> 's camel_stream_filter \<Rightarrow> (int \<times> 's camel_stream_filter) option" where
  "do_close lib ops st =
     (case (if \<not> last_was_read st then do_flush lib ops st else Some (0, st)) of
        None \<Rightarrow> None
      | Some (_, st) \<Rightarrow> map_option (\<lambda>(r, src). (r, st\<lparr>source := src\<rparr>)) (s_close ops (source st)))"

definition do_eos :: "'s stream_ops \<Rightarrow> 's camel_stream_filter \<Rightarrow> bool" where
  "do_eos ops st \<longleftrightarrow> (if length (filtered st) > 0 then False else if \<not> flushed st then False else s_eos ops (source st))"

definition do_reset :: "'s stream_ops \<Rightarrow> 's camel_stream_filter \<Rightarrow> int \<times> 's camel_stream_filter" where
  "do_reset ops st =
     (let st = st\<lparr>filtered := [], flushed := False, filters := map (apsnd camel_mime_filter_reset) (filters st)\<rparr>
      in case s_reset ops (source st) of (r, src) \<Rightarrow> (r, st\<lparr>source := src\<rparr>))"

definition filter_stream_ops :: "basic_lib \<Rightarrow> 's stream_ops \<Rightarrow> 's camel_stream_filter stream_ops" where
  "filter_stream_ops lib ops =
     \<lparr>s_read = do_read lib ops, s_write = do_write lib ops, s_eos = do_eos ops,
      s_flush = do_flush lib ops, s_close = do_close lib ops, s_reset = do_reset ops\<rparr>"

section \<open>A chain of filters is a filter\<close>

definition obj_inv :: "camel_mime_filter_object \<Rightarrow> bool" where
  "obj_inv f \<longleftrightarrow> (case f of Crlf f \<Rightarrow> crlf_inv f | Canon f \<Rightarrow> True | From f \<Rightarrow> False | Basic f \<Rightarrow> basic_inv f)"

definition obj_compl :: "basic_lib \<Rightarrow> camel_mime_filter_object \<Rightarrow> byte list \<Rightarrow> byte list option" where
  "obj_compl lib f inp = map_option fst (camel_mime_filter_complete lib f inp)"

definition chain_inv :: "(int \<times> camel_mime_filter_object) list \<Rightarrow> bool" where
  "chain_inv fs \<longleftrightarrow> (\<forall>(i, f)\<in>set fs. obj_inv f)"

definition chain_compl :: "basic_lib \<Rightarrow> (int \<times> camel_mime_filter_object) list \<Rightarrow> byte list \<Rightarrow> byte list option" where
  "chain_compl lib fs inp = map_option fst (complete_all lib fs inp)"

lemma obj_compl_simps:
  "obj_compl lib (Crlf f) inp = Some (crlf_compl f inp)"
  "obj_compl lib (Canon c) inp = Some (canon_compl c inp)"
  "obj_compl lib (Basic b) inp = basic_compl lib b inp"
  by (simp_all add: obj_compl_def crlf_compl_def canon_compl_def basic_compl_def option.map_comp comp_def
      split: prod.splits option.splits)

interpretation obj: chunked_filter "camel_mime_filter_filter lib" "obj_compl lib" obj_inv
proof unfold_locales
  fix f xs
  assume inv: "obj_inv f"
  show "\<exists>out f'. camel_mime_filter_filter lib f xs = Some (out, f') \<and> obj_inv f'
      \<and> (\<forall>ys. obj_compl lib f (xs @ ys) = map_option ((@) out) (obj_compl lib f' ys))"
  proof (cases f)
    case (Crlf g)
    then obtain out g' where "filter_run crlf_filter g xs = (out, g')" "crlf_inv g'" "\<forall>ys. crlf_compl g (xs @ ys) = out @ crlf_compl g' ys"
      using crlf.filt_split [of g xs] inv by (auto simp: obj_inv_def)
    then show ?thesis using Crlf by (simp add: obj_compl_simps obj_inv_def)
  next
    case (Canon g)
    obtain out g' where "filter_run canon_filter g xs = (out, g')" "\<forall>ys. canon_compl g (xs @ ys) = out @ canon_compl g' ys"
      using canon.filt_split [of g xs] by auto
    then show ?thesis using Canon by (simp add: obj_compl_simps obj_inv_def)
  next
    case (Basic g)
    then obtain out g' where "filter_run (basic_filter lib) g xs = Some (out, g')" "basic_inv g'"
        "\<forall>ys. basic_compl lib g (xs @ ys) = map_option ((@) out) (basic_compl lib g' ys)"
      using basic.filt_split [of g lib xs] inv by (auto simp: obj_inv_def)
    then show ?thesis using Basic by (simp add: obj_compl_simps obj_inv_def)
  qed (use inv in \<open>simp add: obj_inv_def\<close>)
next
  fix f xs
  assume "obj_inv f"
  then show "obj_compl lib f xs \<noteq> None"
    using basic.compl_returns [of _ lib xs] by (cases f) (auto simp: obj_inv_def obj_compl_simps)
qed

lemma chain_compl_Cons: "chain_compl lib ((i, f) # fs) inp = Option.bind (obj_compl lib f inp) (chain_compl lib fs)"
  by (simp add: chain_compl_def obj_compl_def case_prod_unfold option.map_comp comp_def split: option.splits)

interpretation chain: chunked_filter "filter_all lib" "chain_compl lib" chain_inv
proof unfold_locales
  fix fs xs
  assume "chain_inv fs"
  then show "\<exists>out fs'. filter_all lib fs xs = Some (out, fs') \<and> chain_inv fs'
      \<and> (\<forall>ys. chain_compl lib fs (xs @ ys) = map_option ((@) out) (chain_compl lib fs' ys))"
  proof (induction fs arbitrary: xs)
    case Nil
    then show ?case by (simp add: chain_compl_def)
  next
    case (Cons h fs)
    obtain i f where h: "h = (i, f)" by (cases h)
    have inv: "obj_inv f" "chain_inv fs" using Cons.prems by (auto simp: chain_inv_def h)
    obtain out f' where f: "camel_mime_filter_filter lib f xs = Some (out, f')" "obj_inv f'"
        "\<And>ys. obj_compl lib f (xs @ ys) = map_option ((@) out) (obj_compl lib f' ys)"
      using obj.filt_split [OF inv(1)] by blast
    obtain out' fs' where fs: "filter_all lib fs out = Some (out', fs')" "chain_inv fs'"
        "\<And>ys. chain_compl lib fs (out @ ys) = map_option ((@) out') (chain_compl lib fs' ys)"
      using Cons.IH [OF inv(2)] by blast
    have "chain_compl lib (h # fs) (xs @ ys) = map_option ((@) out') (chain_compl lib ((i, f') # fs') ys)" for ys
      by (simp add: h chain_compl_Cons f(3) fs(3) split: option.splits bind_splits)
    moreover have "chain_inv ((i, f') # fs')" using f(2) fs(2) by (simp add: chain_inv_def)
    ultimately show ?case using f(1) fs(1) h by simp
  qed
next
  fix fs xs
  assume "chain_inv fs"
  then show "chain_compl lib fs xs \<noteq> None"
  proof (induction fs arbitrary: xs)
    case (Cons h fs)
    obtain i f where h: "h = (i, f)" by (cases h)
    have inv: "obj_inv f" "chain_inv fs" using Cons.prems by (auto simp: chain_inv_def h)
    obtain out where "obj_compl lib f xs = Some out" using obj.compl_returns [OF inv(1), of lib xs] by blast
    then show ?case using Cons.IH [OF inv(2), of out] by (simp add: h chain_compl_Cons)
  qed (simp add: chain_compl_def)
qed

section \<open>Writing through filters\<close>

text \<open>A client that writes some buffers and flushes: the results of the calls and the stream.\<close>

fun write_then_flush ::
    "basic_lib \<Rightarrow> 's stream_ops \<Rightarrow> 's camel_stream_filter \<Rightarrow> byte list list \<Rightarrow> (int list \<times> int \<times> 's camel_stream_filter) option" where
  "write_then_flush lib ops st [] = map_option (Pair []) (do_flush lib ops st)"
| "write_then_flush lib ops st (b # bs) =
     (case do_write lib ops st b of
        None \<Rightarrow> None
      | Some (n, st) \<Rightarrow> map_option (apfst ((#) n)) (write_then_flush lib ops st bs))"

locale filtered_sink = byte_sink "s_write ops" contents dok
  for ops :: "'d stream_ops" and contents :: "'d \<Rightarrow> byte list" and dok :: "'d \<Rightarrow> bool" +
  assumes flush_keeps: "dok d \<Longrightarrow> \<exists>d'. s_flush ops d = Some (0, d') \<and> dok d' \<and> contents d' = contents d"
begin

lemma write_loop_filters:
  assumes "chain_inv (filters st)" "dok (source st)"
  shows "\<exists>out fs d. do_write_loop lib ops st buf = Some (True, st\<lparr>filters := fs, source := d\<rparr>) \<and> chain_inv fs \<and> dok d
    \<and> contents d = contents (source st) @ out
    \<and> (\<forall>ys. chain_compl lib (filters st) (buf @ ys) = map_option ((@) out) (chain_compl lib fs ys))"
  using assms
proof (induction buf arbitrary: st rule: length_induct)
  case (1 buf)
  show ?case
  proof (cases "buf = []")
    case True
    have "map_option ((@) []) z = z" for z :: "byte list option" by (cases z) simp_all
    then have "\<forall>ys. chain_compl lib (filters st) (buf @ ys) = map_option ((@) []) (chain_compl lib (filters st) ys)" using True by simp
    moreover have "do_write_loop lib ops st buf = Some (True, st\<lparr>filters := filters st, source := source st\<rparr>)"
      using True by (simp add: do_write_loop.simps)
    moreover have "contents (source st) = contents (source st) @ []" by simp
    ultimately show ?thesis using "1.prems" by blast
  next
    case False
    obtain o1 fs1 where f: "filter_all lib (filters st) (take READ_SIZE buf) = Some (o1, fs1)" "chain_inv fs1"
        "\<And>ys. chain_compl lib (filters st) (take READ_SIZE buf @ ys) = map_option ((@) o1) (chain_compl lib fs1 ys)"
      using chain.filt_split [OF "1.prems"(1)] by blast
    obtain d1 where d: "s_write ops (source st) o1 = Some (int (length o1), d1)" "dok d1" "contents d1 = contents (source st) @ o1"
      using write_appends [OF "1.prems"(2)] by blast
    let ?st = "st\<lparr>filters := fs1, source := d1\<rparr>"
    have "length (drop READ_SIZE buf) < length buf" using False by (simp add: READ_SIZE_def)
    then obtain o2 fs2 d2 where r: "do_write_loop lib ops ?st (drop READ_SIZE buf) = Some (True, ?st\<lparr>filters := fs2, source := d2\<rparr>)"
        "chain_inv fs2" "dok d2" "contents d2 = contents d1 @ o2"
        "\<And>ys. chain_compl lib fs1 (drop READ_SIZE buf @ ys) = map_option ((@) o2) (chain_compl lib fs2 ys)"
      using "1.IH" [rule_format, of "drop READ_SIZE buf" ?st] f(2) d(2) by auto
    have "do_write_loop lib ops st buf = Some (True, st\<lparr>filters := fs2, source := d2\<rparr>)"
      using False f(1) d(1) r(1) by (simp add: do_write_loop.simps [of lib ops st buf])
    moreover have "chain_compl lib (filters st) (buf @ ys) = map_option ((@) (o1 @ o2)) (chain_compl lib fs2 ys)" for ys
      using f(3) [of "drop READ_SIZE buf @ ys", unfolded append_assoc [symmetric] append_take_drop_id] r(5) [of ys]
      by (cases "chain_compl lib fs2 ys") simp_all
    ultimately show ?thesis using r(2-4) d(3) by auto
  qed
qed

lemma write_filters:
  assumes "chain_inv (filters st)" "dok (source st)"
  shows "\<exists>out st'. do_write lib ops st buf = Some (int (length buf), st') \<and> chain_inv (filters st') \<and> dok (source st')
    \<and> \<not> last_was_read st' \<and> contents (source st') = contents (source st) @ out
    \<and> (\<forall>ys. chain_compl lib (filters st) (buf @ ys) = map_option ((@) out) (chain_compl lib (filters st') ys))"
proof -
  let ?st = "st\<lparr>last_was_read := False\<rparr>"
  obtain out fs d where w: "do_write_loop lib ops ?st buf = Some (True, ?st\<lparr>filters := fs, source := d\<rparr>)" "chain_inv fs" "dok d"
      "contents d = contents (source st) @ out"
      "\<forall>ys. chain_compl lib (filters st) (buf @ ys) = map_option ((@) out) (chain_compl lib fs ys)"
    using write_loop_filters [of ?st lib buf] assms by auto
  then show ?thesis by (simp add: do_write_def)
qed

lemma flush_filters:
  assumes "chain_inv (filters st)" "dok (source st)" "\<not> last_was_read st"
  shows "\<exists>out st'. do_flush lib ops st = Some (0, st') \<and> chain_compl lib (filters st) [] = Some out
    \<and> contents (source st') = contents (source st) @ out"
proof -
  obtain out fs where c: "complete_all lib (filters st) [] = Some (out, fs)" "chain_compl lib (filters st) [] = Some out"
    using chain.compl_returns [OF assms(1), of lib "[]"] by (auto simp: chain_compl_def)
  obtain d where d: "s_write ops (source st) out = Some (int (length out), d)" "dok d" "contents d = contents (source st) @ out"
    using write_appends [OF assms(2)] by blast
  obtain d' where f: "s_flush ops (if out = [] then source st else d) = Some (0, d')" "contents d' = contents (source st) @ out"
    using flush_keeps [OF assms(2)] flush_keeps [OF d(2)] d(3) by (cases "out = []") auto
  then have "do_flush lib ops st = Some (0, st\<lparr>filters := fs, source := d'\<rparr>)"
    using assms(3) c(1) d(1) by (cases "out = []") (simp_all add: do_flush_def Let_def)
  then show ?thesis using c(2) f(2) by simp
qed

lemma writes_then_flush:
  assumes "chain_inv (filters st)" "dok (source st)" "bufs \<noteq> [] \<or> \<not> last_was_read st"
  shows "\<exists>out st'. chain_compl lib (filters st) (concat bufs) = Some out
    \<and> write_then_flush lib ops st bufs = Some (map (\<lambda>b. int (length b)) bufs, 0, st')
    \<and> contents (source st') = contents (source st) @ out"
  using assms
proof (induction bufs arbitrary: st)
  case Nil
  then show ?case using flush_filters [of st lib] by auto
next
  case (Cons b bufs)
  obtain o1 st1 where w: "do_write lib ops st b = Some (int (length b), st1)" "chain_inv (filters st1)" "dok (source st1)"
      "\<not> last_was_read st1" "contents (source st1) = contents (source st) @ o1"
      "\<And>ys. chain_compl lib (filters st) (b @ ys) = map_option ((@) o1) (chain_compl lib (filters st1) ys)"
    using write_filters [OF Cons.prems(1,2), of lib b] by blast
  obtain out st' where r: "chain_compl lib (filters st1) (concat bufs) = Some out"
      "write_then_flush lib ops st1 bufs = Some (map (\<lambda>b. int (length b)) bufs, 0, st')"
      "contents (source st') = contents (source st1) @ out"
    using Cons.IH [OF w(2,3)] w(4) by blast
  show ?case using w(1,5,6) r by simp
qed

end

interpretation mem_filtered_sink: filtered_sink "mem_ops junk" buffer mem_sink_ok
  by unfold_locales (simp add: mem_ops_def)


definition sample_chain :: "(int \<times> camel_mime_filter_object) list" where
  "sample_chain = [(0, Canon (camel_mime_filter_canon_new True True True)),
     (1, Basic (camel_mime_filter_basic_new_type CAMEL_MIME_FILTER_BASIC_UU_ENC)),
     (2, Crlf (camel_mime_filter_crlf_new CAMEL_MIME_FILTER_CRLF_ENCODE CAMEL_MIME_FILTER_CRLF_MODE_CRLF_DOTS))]"

definition sample_lib :: basic_lib where
  "sample_lib = \<lparr>g_base64_encode_step = (\<lambda>xs st. (xs, st)), g_base64_encode_close = (\<lambda>st. ([], st)),
     g_base64_decode_step = (\<lambda>xs st. (xs, st)), special_tbl = gentables, fresh_buffer = (\<lambda>n. replicate n 0)\<rparr>"

lemma sample_chain_inv: "chain_inv sample_chain"
proof -
  have "uu_rep [] [] uu_init 0" by (simp add: uu_rep_def uu_init_def pack_def)
  then show ?thesis
    by (auto simp: chain_inv_def sample_chain_def obj_inv_def basic_inv_def crlf_inv_def camel_mime_filter_crlf_new_def
        camel_mime_filter_basic_new_type_def mime_filter_reset_def basic_reset_def)
qed


section \<open>Reading through filters\<close>

text \<open>What is still to be delivered, and in what order the stream makes progress.\<close>

definition ftodo :: "basic_lib \<Rightarrow> ('s \<Rightarrow> byte list) \<Rightarrow> 's camel_stream_filter \<Rightarrow> byte list" where
  "ftodo lib todo st = filtered st @ (if flushed st then [] else the (chain_compl lib (filters st) (todo (source st))))"

definition fok :: "'s stream_ops \<Rightarrow> ('s \<Rightarrow> bool) \<Rightarrow> 's camel_stream_filter \<Rightarrow> bool" where
  "fok ops sok st \<longleftrightarrow> sok (source st) \<and> (if flushed st then s_eos ops (source st) else chain_inv (filters st))"

definition frel :: "('s \<times> 's) set \<Rightarrow> ('s camel_stream_filter \<times> 's camel_stream_filter) set" where
  "frel rel = inv_image (less_than <*lex*> (rel <*lex*> less_than))
     (\<lambda>st. (if flushed st then 0 else 1 :: nat, source st, length (filtered st)))"

locale filtered_source = quiet_source "s_read ops" "s_eos ops" todo sok rel
  for ops :: "'s stream_ops" and todo :: "'s \<Rightarrow> byte list" and sok :: "'s \<Rightarrow> bool" and rel :: "('s \<times> 's) set" +
  fixes lib :: basic_lib
begin

lemma read_completes:
  assumes "chain_inv (filters st)" "filtered st = []" "\<not> flushed st" "todo (source st) = []"
    "s_read ops (source st) READ_SIZE = Some (Some [], src)" "sok src" "s_eos ops src"
  shows "\<exists>xs st'. do_read lib ops st n = Some (Some xs, st') \<and> fok ops sok st' \<and> ftodo lib todo st = xs @ ftodo lib todo st'
    \<and> length xs \<le> n \<and> (st', st) \<in> frel rel"
proof -
  obtain out fs where c: "complete_all lib (filters st) [] = Some (out, fs)" "chain_compl lib (filters st) [] = Some out"
    using chain.compl_returns [OF assms(1), of lib "[]"] by (auto simp: chain_compl_def)
  show ?thesis using assms c
    by (cases "out = []") (auto simp: do_read_def fok_def ftodo_def frel_def Let_def)
qed

lemma do_read_progress:
  assumes "fok ops sok st" "\<not> do_eos ops st" "0 < n"
  shows "\<exists>xs st'. do_read lib ops st n = Some (Some xs, st') \<and> fok ops sok st' \<and> ftodo lib todo st = xs @ ftodo lib todo st'
    \<and> length xs \<le> n \<and> (st', st) \<in> frel rel"
proof (cases "filtered st = []")
  case False
  then show ?thesis using assms by (auto simp: do_read_def fok_def ftodo_def frel_def Let_def)
next
  case True
  have nf: "\<not> flushed st" using assms(1,2) True by (auto simp: fok_def do_eos_def)
  then have ok: "sok (source st)" "chain_inv (filters st)" using assms(1) by (auto simp: fok_def)
  show ?thesis
  proof (cases "s_eos ops (source st)")
    case eos: True
    obtain src where "s_read ops (source st) READ_SIZE = Some (Some [], src)" "sok src" "s_eos ops src"
      using read_at_eos [OF ok(1) eos, of READ_SIZE] by (auto simp: READ_SIZE_def)
    then show ?thesis using read_completes [OF ok(2) True nf eos_todo [OF ok(1) eos]] by blast
  next
    case neos: False
    obtain xs src where r: "s_read ops (source st) READ_SIZE = Some (Some xs, src)" "sok src" "todo (source st) = xs @ todo src" "(src, source st) \<in> rel"
      using read_progress [OF ok(1) neos, of READ_SIZE] by (auto simp: READ_SIZE_def)
    show ?thesis
    proof (cases "xs = []")
      case xs: True
      show ?thesis
      proof (cases "s_eos ops src")
        case eos: True
        then have "todo (source st) = []" using eos_todo [OF r(2)] r(3) xs by simp
        then show ?thesis using read_completes [OF ok(2) True nf _ _ r(2) eos] r(1) xs by blast
      next
        case False
        then show ?thesis using True nf ok r xs by (auto simp: do_read_def fok_def ftodo_def frel_def Let_def)
      qed
    next
      case xs: False
      obtain out fs where f: "filter_all lib (filters st) xs = Some (out, fs)" "chain_inv fs"
          "\<And>ys. chain_compl lib (filters st) (xs @ ys) = map_option ((@) out) (chain_compl lib fs ys)"
        using chain.filt_split [OF ok(2)] by blast
      obtain rest where rest: "chain_compl lib fs (todo src) = Some rest" using chain.compl_returns [OF f(2)] by blast
      have "ftodo lib todo st = out @ rest" using True nf r(3) f(3) rest by (simp add: ftodo_def)
      then show ?thesis using True nf r xs f(1,2) rest by (auto simp: do_read_def fok_def ftodo_def frel_def Let_def)
    qed
  qed
qed

end

sublocale filtered_source \<subseteq> filtered: byte_source "do_read lib ops" "do_eos ops" "ftodo lib todo" "fok ops sok" "frel rel"
proof unfold_locales
  show "wf (frel rel)" unfolding frel_def by (intro wf_inv_image wf_lex_prod wf_less_than wf_rel)
next
  fix st assume "fok ops sok st" "do_eos ops st"
  then show "ftodo lib todo st = []" by (simp add: do_eos_def ftodo_def split: if_splits)
qed (rule do_read_progress)

interpretation mem_filtered_source: filtered_source "mem_ops junk" avail mem_source_ok "measure (\<lambda>s. length (avail s))" lib
  for junk lib
  by unfold_locales

interpretation mem_copy: stream_copy "do_read lib (mem_ops junk)" "do_eos (mem_ops junk)" "ftodo lib avail"
  "fok (mem_ops junk) mem_source_ok" "frel (measure (\<lambda>s. length (avail s)))" "s_write (mem_ops junk)" buffer mem_sink_ok
  for lib junk
  by unfold_locales



section \<open>Reading at the end\<close>

text \<open>
  A read at the end of a filtering stream completes the filters again: a stream that uuencodes
  delivers a second end line, although it had told its end.
\<close>

theorem read_at_end_completes_again:
  assumes "mem_source_ok (source st)" "do_eos (mem_ops junk) st" "filters st = [(i, Basic f)]"
    "basic_type f = CAMEL_MIME_FILTER_BASIC_UU_ENC" "backbuf f = []" "uu f = (uu_init, 0)"
  shows "\<exists>st'. do_read lib (mem_ops junk) st n = Some (Some (take n [0x60, 0x0a]), st')"
proof -
  have e: "filtered st = []" "stream_eos (source st)" using assms(2) by (auto simp: do_eos_def mem_ops_def split: if_splits)
  obtain src where r: "s_read (mem_ops junk) (source st) READ_SIZE = Some (Some [], src)" "s_eos (mem_ops junk) src"
    using mem_source.read_at_eos [OF assms(1), of junk READ_SIZE] e(2) by (auto simp: mem_ops_def READ_SIZE_def)
  have "uu_rep [] (uubuf f) uu_init 0" by (simp add: uu_rep_def uu_init_def pack_def)
  from uuencode_close_rep [OF this] have "camel_uuencode_close [] (uubuf f) uu_init 0 = Some [0x60, 0x0a]"
    by (simp add: uu_finish_def)
  then show ?thesis using assms(3-6) e r by (simp add: do_read_def filter_run_def basic_complete_def Let_def)
qed

theorem read_at_end_completes_again_witness:
  "\<exists>st'. do_read sample_lib (mem_ops (\<lambda>n. replicate n 0))
      \<lparr>source = camel_stream_mem_new_with_byte_array [], filters = [(0, Basic (camel_mime_filter_basic_new_type CAMEL_MIME_FILTER_BASIC_UU_ENC))],
       filterid = 1, filtered = [], last_was_read = True, flushed = True\<rparr> 10 = Some (Some (take 10 [0x60, 0x0a]), st')"
  by (rule read_at_end_completes_again [where i = 0 and f = "camel_mime_filter_basic_new_type CAMEL_MIME_FILTER_BASIC_UU_ENC"])
    (simp_all add: mem_source_ok_def mem_ok_def camel_stream_mem_new_with_byte_array_def do_eos_def mem_ops_def stream_eos_def
      camel_mime_filter_basic_new_type_def mime_filter_reset_def basic_reset_def)

text \<open>
  A filter that escapes From does so only for what reaches it before the end: the last line that a
  canonicalising filter in front of it held back passes unescaped.
\<close>

lemma from_after_canon_unescaped:
  "chain_compl lib [(0, Canon (camel_mime_filter_canon_new False False False)), (1, From camel_mime_filter_from_new)] (octets ''From '')
    = Some (octets ''From '')"
  by (simp add: chain_compl_def filter_run_def canon_complete_def canon_filter_run_def from_complete_def canon_loop.simps
      canon_line_start_def camel_mime_filter_canon_new_def camel_mime_filter_from_new_def octets_From)

text \<open>Nor does resetting it forget that it was inside a line.\<close>

lemma from_reset_keeps_midline: "camel_mime_filter_reset (From (f\<lparr>midline := True\<rparr>)) = From (f\<lparr>midline := True, backbuf := []\<rparr>)"
  by (simp add: mime_filter_reset_def)

end
