(* ===== verification/Camel_Yenc.thy ===== *)
theory Camel_Yenc
  imports Camel_Basic_Filter
begin

text \<open>
  The yEnc encoding and its filter: \<^verbatim>\<open>camel/camel-mime-filter-yenc.c\<close>. The integer \<^verbatim>\<open>state\<close> of the filter is the
  length of the line so far when encoding and a set of flags when decoding; the record has both views.
\<close>

section \<open>The checksum\<close>

definition yenc_crc_table :: "guint32 list" where
  "yenc_crc_table =
    [0x00000000, 0x77073096, 0xee0e612c, 0x990951ba, 0x076dc419, 0x706af48f, 0xe963a535, 0x9e6495a3,
     0x0edb8832, 0x79dcb8a4, 0xe0d5e91e, 0x97d2d988, 0x09b64c2b, 0x7eb17cbd, 0xe7b82d07, 0x90bf1d91,
     0x1db71064, 0x6ab020f2, 0xf3b97148, 0x84be41de, 0x1adad47d, 0x6ddde4eb, 0xf4d4b551, 0x83d385c7,
     0x136c9856, 0x646ba8c0, 0xfd62f97a, 0x8a65c9ec, 0x14015c4f, 0x63066cd9, 0xfa0f3d63, 0x8d080df5,
     0x3b6e20c8, 0x4c69105e, 0xd56041e4, 0xa2677172, 0x3c03e4d1, 0x4b04d447, 0xd20d85fd, 0xa50ab56b,
     0x35b5a8fa, 0x42b2986c, 0xdbbbc9d6, 0xacbcf940, 0x32d86ce3, 0x45df5c75, 0xdcd60dcf, 0xabd13d59,
     0x26d930ac, 0x51de003a, 0xc8d75180, 0xbfd06116, 0x21b4f4b5, 0x56b3c423, 0xcfba9599, 0xb8bda50f,
     0x2802b89e, 0x5f058808, 0xc60cd9b2, 0xb10be924, 0x2f6f7c87, 0x58684c11, 0xc1611dab, 0xb6662d3d,
     0x76dc4190, 0x01db7106, 0x98d220bc, 0xefd5102a, 0x71b18589, 0x06b6b51f, 0x9fbfe4a5, 0xe8b8d433,
     0x7807c9a2, 0x0f00f934, 0x9609a88e, 0xe10e9818, 0x7f6a0dbb, 0x086d3d2d, 0x91646c97, 0xe6635c01,
     0x6b6b51f4, 0x1c6c6162, 0x856530d8, 0xf262004e, 0x6c0695ed, 0x1b01a57b, 0x8208f4c1, 0xf50fc457,
     0x65b0d9c6, 0x12b7e950, 0x8bbeb8ea, 0xfcb9887c, 0x62dd1ddf, 0x15da2d49, 0x8cd37cf3, 0xfbd44c65,
     0x4db26158, 0x3ab551ce, 0xa3bc0074, 0xd4bb30e2, 0x4adfa541, 0x3dd895d7, 0xa4d1c46d, 0xd3d6f4fb,
     0x4369e96a, 0x346ed9fc, 0xad678846, 0xda60b8d0, 0x44042d73, 0x33031de5, 0xaa0a4c5f, 0xdd0d7cc9,
     0x5005713c, 0x270241aa, 0xbe0b1010, 0xc90c2086, 0x5768b525, 0x206f85b3, 0xb966d409, 0xce61e49f,
     0x5edef90e, 0x29d9c998, 0xb0d09822, 0xc7d7a8b4, 0x59b33d17, 0x2eb40d81, 0xb7bd5c3b, 0xc0ba6cad,
     0xedb88320, 0x9abfb3b6, 0x03b6e20c, 0x74b1d29a, 0xead54739, 0x9dd277af, 0x04db2615, 0x73dc1683,
     0xe3630b12, 0x94643b84, 0x0d6d6a3e, 0x7a6a5aa8, 0xe40ecf0b, 0x9309ff9d, 0x0a00ae27, 0x7d079eb1,
     0xf00f9344, 0x8708a3d2, 0x1e01f268, 0x6906c2fe, 0xf762575d, 0x806567cb, 0x196c3671, 0x6e6b06e7,
     0xfed41b76, 0x89d32be0, 0x10da7a5a, 0x67dd4acc, 0xf9b9df6f, 0x8ebeeff9, 0x17b7be43, 0x60b08ed5,
     0xd6d6a3e8, 0xa1d1937e, 0x38d8c2c4, 0x4fdff252, 0xd1bb67f1, 0xa6bc5767, 0x3fb506dd, 0x48b2364b,
     0xd80d2bda, 0xaf0a1b4c, 0x36034af6, 0x41047a60, 0xdf60efc3, 0xa867df55, 0x316e8eef, 0x4669be79,
     0xcb61b38c, 0xbc66831a, 0x256fd2a0, 0x5268e236, 0xcc0c7795, 0xbb0b4703, 0x220216b9, 0x5505262f,
     0xc5ba3bbe, 0xb2bd0b28, 0x2bb45a92, 0x5cb36a04, 0xc2d7ffa7, 0xb5d0cf31, 0x2cd99e8b, 0x5bdeae1d,
     0x9b64c2b0, 0xec63f226, 0x756aa39c, 0x026d930a, 0x9c0906a9, 0xeb0e363f, 0x72076785, 0x05005713,
     0x95bf4a82, 0xe2b87a14, 0x7bb12bae, 0x0cb61b38, 0x92d28e9b, 0xe5d5be0d, 0x7cdcefb7, 0x0bdbdf21,
     0x86d3d2d4, 0xf1d4e242, 0x68ddb3f8, 0x1fda836e, 0x81be16cd, 0xf6b9265b, 0x6fb077e1, 0x18b74777,
     0x88085ae6, 0xff0f6a70, 0x66063bca, 0x11010b5c, 0x8f659eff, 0xf862ae69, 0x616bffd3, 0x166ccf45,
     0xa00ae278, 0xd70dd2ee, 0x4e048354, 0x3903b3c2, 0xa7672661, 0xd06016f7, 0x4969474d, 0x3e6e77db,
     0xaed16a4a, 0xd9d65adc, 0x40df0b66, 0x37d83bf0, 0xa9bcae53, 0xdebb9ec5, 0x47b2cf7f, 0x30b5ffe9,
     0xbdbdf21c, 0xcabac28a, 0x53b39330, 0x24b4a3a6, 0xbad03605, 0xcdd70693, 0x54de5729, 0x23d967bf,
     0xb3667a2e, 0xc4614ab8, 0x5d681b02, 0x2a6f2b94, 0xb40bbe37, 0xc30c8ea1, 0x5a05df1b, 0x2d02ef8d]"

definition yenc_crc_add :: "guint32 \<Rightarrow> byte \<Rightarrow> guint32" where
  "yenc_crc_add crc c = (yenc_crc_table ! unat ((crc XOR ucast c) AND 0xff)) XOR (drop_bit 8 crc AND 0x00ffffff)"

definition camel_mime_yencode_crc_init :: guint32 where
  "camel_mime_yencode_crc_init = NOT 0"

definition camel_mime_yencode_crc_final :: "guint32 \<Rightarrow> guint32" where
  "camel_mime_yencode_crc_final crc = NOT crc"

section \<open>Encoding and decoding\<close>

record ydecode_state =
  y_eoln :: bool
  y_escape :: bool
  y_begin :: bool
  y_part :: bool
  y_decode :: bool
  y_end :: bool

definition ydecode_state_init :: ydecode_state where
  "ydecode_state_init = \<lparr>y_eoln = False, y_escape = False, y_begin = False, y_part = False, y_decode = False, y_end = False\<rparr>"

text \<open>The two checksums, of the part and of all the parts.\<close>

type_synonym ycrcs = "guint32 \<times> guint32"

definition ycrcs_add :: "ycrcs \<Rightarrow> byte \<Rightarrow> ycrcs" where
  "ycrcs_add crcs c = (yenc_crc_add (fst crcs) c, yenc_crc_add (snd crcs) c)"

fun ydecode_loop :: "ydecode_state \<Rightarrow> ycrcs \<Rightarrow> byte list \<Rightarrow> byte list \<times> ydecode_state \<times> ycrcs" where
  "ydecode_loop st crcs [] = ([], st, crcs)"
| "ydecode_loop st crcs (ch # inp) =
     (let both = y_eoln st \<and> y_escape st;
          st = (if both then st\<lparr>y_eoln := False\<rparr> else st)
      in if both \<and> ch = 0x79 then ([], st\<lparr>y_end := True\<rparr>, crcs)
         else if ch = 0x0a then ydecode_loop (st\<lparr>y_eoln := True\<rparr>) crcs inp
         else if \<not> y_escape st \<and> ch = 0x3d then ydecode_loop (st\<lparr>y_escape := True\<rparr>) crcs inp
         else (let ch = (if y_escape st then ch - 64 else ch) - 42;
                   (out, r) = ydecode_loop (st\<lparr>y_escape := False, y_eoln := False\<rparr>) (ycrcs_add crcs ch) inp
               in (ch # out, r)))"

definition camel_ydecode_step :: "byte list \<Rightarrow> ydecode_state \<Rightarrow> ycrcs \<Rightarrow> byte list \<times> ydecode_state \<times> ycrcs" where
  "camel_ydecode_step inp st crcs = (if y_end st then ([], st, crcs) else ydecode_loop st crcs inp)"

fun camel_yencode_step :: "byte list \<Rightarrow> int \<Rightarrow> ycrcs \<Rightarrow> byte list \<times> int \<times> ycrcs" where
  "camel_yencode_step [] already crcs = ([], already, crcs)"
| "camel_yencode_step (ch # inp) already crcs =
     (let crcs = ycrcs_add crcs ch;
          ch = ch + 42;
          (out, already) =
            (if ch = 0 \<or> ch = 0x09 \<or> ch = 0x0d \<or> ch = 0x0a \<or> ch = 0x3d then ([0x3d, ch + 64], already + 2) else ([ch], already + 1));
          (out, already) = (if already \<ge> 128 then (out @ [0x0a], 0) else (out, already));
          (rest, r) = camel_yencode_step inp already crcs
      in (out @ rest, r))"

definition camel_yencode_close :: "byte list \<Rightarrow> int \<Rightarrow> ycrcs \<Rightarrow> byte list \<times> int \<times> ycrcs" where
  "camel_yencode_close inp already crcs =
     (let (out, already, crcs) = (if inp \<noteq> [] then camel_yencode_step inp already crcs else ([], already, crcs))
      in (if already \<noteq> 0 then out @ [0x0a] else out, 0, crcs))"

section \<open>The filter\<close>

datatype camel_mime_filter_yenc_direction = CAMEL_MIME_FILTER_YENC_DIRECTION_ENCODE | CAMEL_MIME_FILTER_YENC_DIRECTION_DECODE

record camel_mime_filter_yenc = camel_mime_filter +
  yenc_direction :: camel_mime_filter_yenc_direction
  y_already :: int
  y_state :: ydecode_state
  y_crcs :: ycrcs

text \<open>The search for the line \<^verbatim>\<open>=ybegin\<close>: the input after it, or the octets to back up.\<close>

function yenc_find_begin :: "byte list \<Rightarrow> byte list option \<times> byte list option" where
  "yenc_find_begin inp =
     (if inp = [] then (None, None)
      else if length inp < 8 then
        (None, if inp = take (length inp) (octets ''=ybegin '') then Some inp else None)
      else if take 8 inp = octets ''=ybegin '' then
        (case skip_to_eol inp of (eol, rest) \<Rightarrow> (if eol then (Some rest, None) else (None, Some inp)))
      else yenc_find_begin (snd (skip_to_eol inp)))"
  by pat_completeness auto
termination by (relation "measure length") (auto intro: skip_to_eol_length [OF prod.collapse])

declare yenc_find_begin.simps [simp del]

text \<open>The line \<^verbatim>\<open>=ypart\<close> after it: the input to decode and the state.\<close>

definition yenc_find_part :: "camel_mime_filter_yenc \<Rightarrow> byte list \<Rightarrow> byte list \<times> camel_mime_filter_yenc" where
  "yenc_find_part f inp =
     (if inp = [] then (inp, f)
      else if length inp < 7 \<and> inp = take (length inp) (octets ''=ypart '') then (inp, camel_mime_filter_backup f inp)
      else if take 7 inp = octets ''=ypart '' then
        (case skip_to_eol inp of
           (eol, rest) \<Rightarrow>
             (if eol then (rest, f\<lparr>y_state := (y_state f)\<lparr>y_part := True, y_decode := True\<rparr>\<rparr>)
              else (inp, camel_mime_filter_backup f inp)))
      else (inp, f\<lparr>y_state := (y_state f)\<lparr>y_decode := True\<rparr>\<rparr>))"

definition yenc_decode :: "camel_mime_filter_yenc \<Rightarrow> byte list \<Rightarrow> byte list \<times> camel_mime_filter_yenc" where
  "yenc_decode f inp =
     (if y_decode (y_state f) \<and> \<not> y_end (y_state f) then
        (case camel_ydecode_step inp (y_state f) (y_crcs f) of (out, st, crcs) \<Rightarrow> (out, f\<lparr>y_state := st, y_crcs := crcs\<rparr>))
      else ([], f))"

definition yenc_filter :: "camel_mime_filter_yenc \<Rightarrow> byte list \<Rightarrow> byte list \<times> camel_mime_filter_yenc" where
  "yenc_filter f inp =
     (case yenc_direction f of
        CAMEL_MIME_FILTER_YENC_DIRECTION_ENCODE \<Rightarrow>
          (case camel_yencode_step inp (y_already f) (y_crcs f) of (out, a, crcs) \<Rightarrow> (out, f\<lparr>y_already := a, y_crcs := crcs\<rparr>))
      | CAMEL_MIME_FILTER_YENC_DIRECTION_DECODE \<Rightarrow>
          (if y_decode (y_state f) then yenc_decode f inp
           else if y_begin (y_state f) then (case yenc_find_part f inp of (inp, f) \<Rightarrow> yenc_decode f inp)
           else
             (case yenc_find_begin inp of
                (Some rest, _) \<Rightarrow>
                  (case yenc_find_part (f\<lparr>y_state := (y_state f)\<lparr>y_begin := True\<rparr>\<rparr>) rest of (inp, f) \<Rightarrow> yenc_decode f inp)
              | (None, Some held) \<Rightarrow> ([], camel_mime_filter_backup f held)
              | (None, None) \<Rightarrow> ([], f))))"

definition yenc_complete :: "camel_mime_filter_yenc \<Rightarrow> byte list \<Rightarrow> byte list \<times> camel_mime_filter_yenc" where
  "yenc_complete f inp =
     (case yenc_direction f of
        CAMEL_MIME_FILTER_YENC_DIRECTION_ENCODE \<Rightarrow>
          (case camel_yencode_close inp (y_already f) (y_crcs f) of (out, a, crcs) \<Rightarrow> (out, f\<lparr>y_already := a, y_crcs := crcs\<rparr>))
      | CAMEL_MIME_FILTER_YENC_DIRECTION_DECODE \<Rightarrow> yenc_decode f inp)"

definition yenc_reset :: "camel_mime_filter_yenc \<Rightarrow> camel_mime_filter_yenc" where
  "yenc_reset f = f\<lparr>y_already := 0, y_state := ydecode_state_init, y_crcs := (camel_mime_yencode_crc_init, camel_mime_yencode_crc_init)\<rparr>"

definition camel_mime_filter_yenc_new :: "camel_mime_filter_yenc_direction \<Rightarrow> camel_mime_filter_yenc" where
  "camel_mime_filter_yenc_new d =
     \<lparr>backbuf = [], yenc_direction = d, y_already = 0, y_state = ydecode_state_init,
      y_crcs = (camel_mime_yencode_crc_init, camel_mime_yencode_crc_init)\<rparr>"

definition camel_mime_filter_yenc_set_crc :: "camel_mime_filter_yenc \<Rightarrow> guint32 \<Rightarrow> camel_mime_filter_yenc" where
  "camel_mime_filter_yenc_set_crc f crc = f\<lparr>y_crcs := (fst (y_crcs f), crc)\<rparr>"

definition camel_mime_filter_yenc_get_pcrc :: "camel_mime_filter_yenc \<Rightarrow> guint32" where
  "camel_mime_filter_yenc_get_pcrc f = camel_mime_yencode_crc_final (fst (y_crcs f))"

definition camel_mime_filter_yenc_get_crc :: "camel_mime_filter_yenc \<Rightarrow> guint32" where
  "camel_mime_filter_yenc_get_crc f = camel_mime_yencode_crc_final (snd (y_crcs f))"

section \<open>The table is that of CRC-32\<close>

text \<open>One bit of the division by the polynomial, and an octet.\<close>

definition crc32_bit :: "guint32 \<Rightarrow> guint32" where
  "crc32_bit x = (if bit x 0 then drop_bit 1 x XOR 0xedb88320 else drop_bit 1 x)"

definition crc32_add :: "guint32 \<Rightarrow> byte \<Rightarrow> guint32" where
  "crc32_add crc c = (crc32_bit ^^ 8) (crc XOR ucast c)"

lemma crc32_bit_xor: "crc32_bit (x XOR y) = crc32_bit x XOR crc32_bit y"
  by (auto simp: crc32_bit_def bit_xor_iff bit_simps intro!: bit_eqI)

lemma crc32_bits_xor: "(crc32_bit ^^ n) (x XOR y) = (crc32_bit ^^ n) x XOR (crc32_bit ^^ n) y"
  by (induction n) (simp_all add: crc32_bit_xor)

lemma crc32_bits_shift: "(\<forall>i < n. \<not> bit x i) \<Longrightarrow> (crc32_bit ^^ n) x = drop_bit n x"
proof (induction n)
  case (Suc n)
  then have "(crc32_bit ^^ n) x = drop_bit n x" "\<not> bit (drop_bit n x) 0" by (simp_all add: bit_simps)
  then show ?case by (simp add: crc32_bit_def [of "drop_bit n x"])
qed simp

text \<open>The table is built by doubling, since the division is linear: the second half of each stage is the first with the next power added.\<close>

definition crc32_octet :: "nat \<Rightarrow> guint32" where
  "crc32_octet i = (crc32_bit ^^ 8) (of_nat i)"

lemma crc32_octet_add: "i < 2 ^ k \<Longrightarrow> k < 8 \<Longrightarrow> crc32_octet (2 ^ k + i) = crc32_octet (2 ^ k) XOR crc32_octet i"
proof -
  assume i: "i < 2 ^ k" and k: "k < 8"
  have "of_nat i AND 2 ^ k = (0 :: guint32)"
  proof (rule bit_eqI)
    fix n
    have "\<not> bit i k" using i by (metis bit_take_bit_iff less_irrefl take_bit_nat_eq_self)
    then show "bit (of_nat i AND 2 ^ k :: guint32) n = bit 0 n" by (auto simp: bit_and_iff bit_exp_iff bit_simps)
  qed
  then have "(of_nat (2 ^ k + i) :: guint32) = 2 ^ k XOR of_nat i"
    using disjunctive_add_eq_xor [of "2 ^ k" "of_nat i :: guint32"] by (simp add: and.commute)
  then show ?thesis by (simp add: crc32_octet_def crc32_bits_xor)
qed

lemma crc32_double:
  assumes "k < 8" "map crc32_octet [0..<2 ^ k] = xs"
  shows "map crc32_octet [0..<2 ^ Suc k] = xs @ map (\<lambda>x. crc32_octet (2 ^ k) XOR x) xs"
proof -
  have "[0..<2 ^ Suc k] = [0..<2 ^ k] @ map (\<lambda>i. 2 ^ k + i) [0..<2 ^ k]"
    by (simp add: upt_add_eq_append [of 0 "2 ^ k" "2 ^ k"] map_add_upt mult_2 flip: map_add_upt)
  then show ?thesis using assms by (auto simp: crc32_octet_add)
qed

lemma crc32_basis:
  "crc32_octet 1 = 0x77073096"
  "crc32_octet 2 = 0xee0e612c"
  "crc32_octet 4 = 0x076dc419"
  "crc32_octet 8 = 0x0edb8832"
  "crc32_octet 16 = 0x1db71064"
  "crc32_octet 32 = 0x3b6e20c8"
  "crc32_octet 64 = 0x76dc4190"
  "crc32_octet 128 = 0xedb88320"
  by code_simp+

lemma crc32_octet_zero: "crc32_octet 0 = 0"
  by (simp add: crc32_octet_def crc32_bits_shift)

fun crc32_stages :: "nat \<Rightarrow> guint32 list" where
  "crc32_stages 0 = [0]"
| "crc32_stages (Suc k) = crc32_stages k @ map (\<lambda>x. crc32_octet (2 ^ k) XOR x) (crc32_stages k)"

lemma crc32_stages_map: "k \<le> 8 \<Longrightarrow> map crc32_octet [0..<2 ^ k] = crc32_stages k"
proof (induction k)
  case (Suc k)
  then show ?case using crc32_double [of k "crc32_stages k"] by simp
qed (simp add: crc32_octet_zero)

lemma crc32_table: "yenc_crc_table = map crc32_octet [0..<256]"
proof -
  have e: "(8 :: nat) = Suc (Suc (Suc (Suc (Suc (Suc (Suc (Suc 0)))))))" by simp
  have "yenc_crc_table = crc32_stages 8" unfolding e yenc_crc_table_def by (simp add: crc32_basis crc32_basis(1) [unfolded One_nat_def])
  also have "\<dots> = map crc32_octet [0..<2 ^ 8]" by (rule crc32_stages_map [symmetric]) simp
  finally show ?thesis by simp
qed

lemma mask_24: "(0x00ffffff :: guint32) = mask 24"
  by (simp add: mask_eq_exp_minus_1)

lemma unat_and_octet: "unat (x AND 0xff :: guint32) < 256"
proof -
  have "x AND 0xff = take_bit 8 x" by (simp add: take_bit_eq_mask mask_numerals)
  then show ?thesis using take_bit_nat_less_exp [of 8 "unat x"] by (simp add: unsigned_take_bit_eq)
qed

text \<open>
  C21. The table-driven checksum is the division by the CRC-32 polynomial, bit by bit.
\<close>

theorem yenc_crc_is_crc32: "yenc_crc_add crc c = crc32_add crc c"
proof -
  let ?x = "crc XOR ucast c :: guint32"
  let ?low = "?x AND 0xff"
  have low: "unat ?low < 256" by (rule unat_and_octet)
  have split: "?x = ?low XOR (?x AND NOT 0xff)" by (rule bit_eqI) (auto simp: bit_simps)
  have "yenc_crc_table ! unat ?low = (crc32_bit ^^ 8) ?low" using low by (simp add: crc32_table crc32_octet_def)
  moreover have "(crc32_bit ^^ 8) (?x AND NOT 0xff) = drop_bit 8 (?x AND NOT 0xff)"
    by (rule crc32_bits_shift) (auto simp: bit_simps mask_numerals)
  moreover have "drop_bit 8 (?x AND NOT 0xff) = drop_bit 8 crc AND 0x00ffffff"
    by (rule bit_eqI) (auto simp: bit_simps mask_numerals mask_24 dest: bit_imp_le_length)
  ultimately show ?thesis unfolding yenc_crc_add_def crc32_add_def by (metis split crc32_bits_xor)
qed

section \<open>Round trip\<close>

lemma ydecode_loop_append:
  "ydecode_loop st crcs (xs @ ys) =
    (let (o1, st1, c1) = ydecode_loop st crcs xs
     in if y_end st1 \<and> \<not> y_end st then (o1, st1, c1) else (let (o2, r) = ydecode_loop st1 c1 ys in (o1 @ o2, r)))"
  if "\<not> y_end st"
  using that by (induction xs arbitrary: st crcs) (auto simp: Let_def case_prod_unfold)

lemma ydecode_chunks:
  "\<not> y_end st \<Longrightarrow> camel_ydecode_step (xs @ ys) st crcs =
    (let (o1, st1, c1) = camel_ydecode_step xs st crcs; (o2, r) = camel_ydecode_step ys st1 c1 in (o1 @ o2, r))"
  using ydecode_loop_append [of st crcs xs ys] by (auto simp: camel_ydecode_step_def Let_def case_prod_unfold split: if_splits)

lemma yencode_append:
  "camel_yencode_step (xs @ ys) a crcs =
    (let (o1, a1, c1) = camel_yencode_step xs a crcs; (o2, r) = camel_yencode_step ys a1 c1 in (o1 @ o2, r))"
  by (induction xs arbitrary: a crcs) (simp_all add: Let_def case_prod_unfold)

definition yenc_escaped :: "byte \<Rightarrow> bool" where
  "yenc_escaped c \<longleftrightarrow> c = 0 \<or> c = 0x09 \<or> c = 0x0d \<or> c = 0x0a \<or> c = 0x3d"

definition yenc_octet :: "byte \<Rightarrow> byte list" where
  "yenc_octet ch = (if yenc_escaped (ch + 42) then [0x3d, ch + 42 + 64] else [ch + 42])"

lemma yencode_step_Cons:
  "camel_yencode_step (ch # inp) a crcs =
    (let n = a + int (length (yenc_octet ch)); (rest, r) = camel_yencode_step inp (if n \<ge> 128 then 0 else n) (ycrcs_add crcs ch)
     in (yenc_octet ch @ (if n \<ge> 128 then [0x0a] else []) @ rest, r))"
  by (simp add: yenc_octet_def yenc_escaped_def Let_def case_prod_unfold) (simp add: add.commute)

declare camel_yencode_step.simps(2) [simp del]

lemma yenc_escaped_octet:
  assumes "yenc_escaped c"
  shows "c + 64 \<noteq> 0x79" "c + 64 \<noteq> 0x0a"
  using assms by (auto simp: yenc_escaped_def)

lemma ydecode_octet:
  assumes "\<not> y_escape st"
  shows "ydecode_loop st crcs (yenc_octet ch @ rest) =
    (let (out, r) = ydecode_loop (st\<lparr>y_eoln := False\<rparr>) (ycrcs_add crcs ch) rest in (ch # out, r))"
proof (cases "yenc_escaped (ch + 42)")
  case True
  then show ?thesis using assms yenc_escaped_octet [OF True]
    by (cases st) (simp add: yenc_octet_def Let_def case_prod_unfold)
next
  case False
  then have "ch + 42 \<noteq> 0x0a" "ch + 42 \<noteq> 0x3d" by (auto simp: yenc_escaped_def)
  then show ?thesis using False assms by (cases st) (simp add: yenc_octet_def Let_def case_prod_unfold)
qed

text \<open>The decoder reads an encoded text as the data; before the next octet it is at the start of a line exactly if the encoder is.\<close>

lemma ydecode_line_end: "\<not> y_escape st \<Longrightarrow> ydecode_loop st crcs (0x0a # rest) = ydecode_loop (st\<lparr>y_eoln := True\<rparr>) crcs rest"
  by simp

lemma ydecode_encoded:
  assumes "\<not> y_escape st" "0 \<le> a" "camel_yencode_step data a crcs = (out, a', crcs')"
  shows "0 \<le> a' \<and> ydecode_loop st crcs (out @ rest) =
      (let (o2, r) = ydecode_loop (st\<lparr>y_eoln := (if data = [] then y_eoln st else a' = 0)\<rparr>) crcs' rest in (data @ o2, r))"
  using assms
proof (induction data arbitrary: st a crcs out)
  case Nil
  then show ?case by (simp add: case_prod_unfold)
next
  case (Cons ch data)
  let ?n = "a + int (length (yenc_octet ch))"
  let ?a = "if ?n \<ge> 128 then 0 else ?n" and ?c = "ycrcs_add crcs ch" and ?st = "st\<lparr>y_eoln := ?n \<ge> 128\<rparr>"
  obtain o' where o': "camel_yencode_step data ?a ?c = (o', a', crcs')" "out = yenc_octet ch @ (if ?n \<ge> 128 then [0x0a] else []) @ o'"
    using Cons.prems(3) by (cases "camel_yencode_step data ?a ?c") (auto simp: yencode_step_Cons Let_def)
  have n: "0 < ?n" using Cons.prems(2) by (simp add: yenc_octet_def)
  have "ydecode_loop st crcs (out @ rest) =
      (let (o2, r) = ydecode_loop (st\<lparr>y_eoln := False\<rparr>) ?c ((if ?n \<ge> 128 then [0x0a] else []) @ o' @ rest) in (ch # o2, r))"
    using ydecode_octet [OF Cons.prems(1)] o'(2) by simp
  also have "ydecode_loop (st\<lparr>y_eoln := False\<rparr>) ?c ((if ?n \<ge> 128 then [0x0a] else []) @ o' @ rest) = ydecode_loop ?st ?c (o' @ rest)"
    using ydecode_line_end [of "st\<lparr>y_eoln := False\<rparr>" ?c "o' @ rest"] Cons.prems(1) by simp
  finally have step: "ydecode_loop st crcs (out @ rest) = (let (o2, r) = ydecode_loop ?st ?c (o' @ rest) in (ch # o2, r))" .
  have "0 \<le> a' \<and> ydecode_loop ?st ?c (o' @ rest) =
      (let (o2, r) = ydecode_loop (?st\<lparr>y_eoln := (if data = [] then y_eoln ?st else a' = 0)\<rparr>) crcs' rest in (data @ o2, r))"
    using Cons.IH [of ?st ?a ?c o'] Cons.prems(1) o'(1) n by auto
  moreover have "(if data = [] then y_eoln ?st else a' = 0) \<longleftrightarrow> a' = 0" using o'(1) n by (auto split: if_splits)
  ultimately show ?case using step by (simp add: case_prod_unfold Let_def)
qed

lemma yencode_out_crcs:
  "fst (camel_yencode_step data a crcs) = fst (camel_yencode_step data a crcs')
    \<and> fst (snd (camel_yencode_step data a crcs)) = fst (snd (camel_yencode_step data a crcs'))"
  by (induction data arbitrary: a crcs crcs') (simp_all add: yencode_step_Cons Let_def case_prod_unfold)

lemma yencode_crcs: "snd (snd (camel_yencode_step data a crcs)) = foldl ycrcs_add crcs data"
  by (induction data arbitrary: a crcs) (simp_all add: yencode_step_Cons Let_def case_prod_unfold)

section \<open>Chunks\<close>

definition yenc_enc_inv :: "camel_mime_filter_yenc \<Rightarrow> bool" where
  "yenc_enc_inv f \<longleftrightarrow> backbuf f = [] \<and> yenc_direction f = CAMEL_MIME_FILTER_YENC_DIRECTION_ENCODE \<and> 0 \<le> y_already f"

definition yenc_filt :: "camel_mime_filter_yenc \<Rightarrow> byte list \<Rightarrow> (byte list \<times> camel_mime_filter_yenc) option" where
  "yenc_filt f inp = Some (filter_run yenc_filter f inp)"

definition yenc_compl :: "camel_mime_filter_yenc \<Rightarrow> byte list \<Rightarrow> byte list option" where
  "yenc_compl f inp = Some (fst (filter_run yenc_complete f inp))"

lemma yencode_close_step:
  "fst (camel_yencode_close inp a crcs) = (case camel_yencode_step inp a crcs of (out, a', c) \<Rightarrow> if a' \<noteq> 0 then out @ [0x0a] else out)"
  by (cases inp) (auto simp: camel_yencode_close_def Let_def case_prod_unfold)

lemma yencode_nonneg: "0 \<le> a \<Longrightarrow> 0 \<le> fst (snd (camel_yencode_step data a crcs))"
  by (induction data arbitrary: a crcs) (simp_all add: yencode_step_Cons Let_def case_prod_unfold)

interpretation yenc_enc: chunked_filter yenc_filt yenc_compl yenc_enc_inv
proof
  fix f xs
  assume f: "yenc_enc_inv f"
  obtain out a c where step: "camel_yencode_step xs (y_already f) (y_crcs f) = (out, a, c)" by (metis prod_cases3)
  let ?f = "f\<lparr>y_already := a, y_crcs := c\<rparr>"
  have "yenc_filt f xs = Some (out, ?f)"
    using f step by (simp add: yenc_enc_inv_def yenc_filt_def filter_run_def yenc_filter_def)
  moreover have "yenc_enc_inv ?f" using f step yencode_nonneg [of "y_already f" xs "y_crcs f"] by (simp add: yenc_enc_inv_def)
  moreover have "yenc_compl f (xs @ ys) = map_option ((@) out) (yenc_compl ?f ys)" for ys
    using f step by (simp add: yenc_enc_inv_def yenc_compl_def filter_run_def yenc_complete_def case_prod_unfold yencode_close_step yencode_append Let_def)
  ultimately show "\<exists>out f'. yenc_filt f xs = Some (out, f') \<and> yenc_enc_inv f' \<and> (\<forall>ys. yenc_compl f (xs @ ys) = map_option ((@) out) (yenc_compl f' ys))"
    by blast
qed (simp add: yenc_compl_def)

text \<open>The decoder fed with one piece after the other.\<close>

fun ydecode_steps :: "byte list list \<Rightarrow> ydecode_state \<Rightarrow> ycrcs \<Rightarrow> byte list \<times> ydecode_state \<times> ycrcs" where
  "ydecode_steps [] st crcs = ([], st, crcs)"
| "ydecode_steps (d # ds) st crcs =
     (case camel_ydecode_step d st crcs of (out, st, crcs) \<Rightarrow> (case ydecode_steps ds st crcs of (rest, r) \<Rightarrow> (out @ rest, r)))"

lemma ydecode_steps_ended: "y_end st \<Longrightarrow> ydecode_steps ds st crcs = ([], st, crcs)"
  by (induction ds) (simp_all add: camel_ydecode_step_def)

lemma ydecode_steps_concat: "\<not> y_end st \<Longrightarrow> ydecode_steps ds st crcs = camel_ydecode_step (concat ds) st crcs"
proof (induction ds arbitrary: st crcs)
  case (Cons d ds)
  obtain out st1 c1 where d: "camel_ydecode_step d st crcs = (out, st1, c1)" by (metis prod_cases3)
  show ?case
  proof (cases "y_end st1")
    case True
    then show ?thesis using ydecode_chunks [OF Cons.prems, of d "concat ds" crcs] d ydecode_steps_ended [OF True] by (simp add: camel_ydecode_step_def)
  next
    case False
    then show ?thesis using ydecode_chunks [OF Cons.prems, of d "concat ds" crcs] d Cons.IH [OF False] by (simp add: case_prod_unfold Let_def)
  qed
qed (simp add: camel_ydecode_step_def)



section \<open>The size of the output\<close>

lemma yencode_size:
  assumes "0 \<le> a"
  shows "128 * int (length (fst (camel_yencode_step data a crcs))) + fst (snd (camel_yencode_step data a crcs)) \<le> a + 258 * int (length data)"
  using assms
proof (induction data arbitrary: a crcs)
  case (Cons ch data)
  let ?n = "a + int (length (yenc_octet ch))"
  have "length (yenc_octet ch) = 1 \<or> length (yenc_octet ch) = 2" by (simp add: yenc_octet_def)
  then show ?case using Cons.IH [of "if ?n \<ge> 128 then 0 else ?n" "ycrcs_add crcs ch"] Cons.prems
    by (auto simp: yencode_step_Cons Let_def case_prod_unfold)
qed simp

text \<open>
  C39. The output of the encoder fits the buffer the filter asks for, with at most 4224 octets of input when
  filtering and at most 4160 when completing.
\<close>

theorem yencode_fits:
  assumes "0 \<le> a" "a < 128"
  shows "(length inp \<le> 4224 \<longrightarrow> length (fst (camel_yencode_step inp a crcs)) \<le> (length inp + 2) * 2 + 62)
    \<and> (length inp \<le> 4160 \<longrightarrow> length (fst (camel_yencode_close inp a crcs)) \<le> (length inp + 2) * 2 + 62)"
  using yencode_size [OF assms(1), of inp crcs] yencode_nonneg [OF assms(1), of inp crcs] assms(2)
  by (auto simp: yencode_close_step case_prod_unfold)

theorem yencode_fits_witness:
  "length (fst (camel_yencode_step (octets ''yEnc'') 127 (0, 0))) \<le> (length (octets ''yEnc'') + 2) * 2 + 62
    \<and> length (fst (camel_yencode_close (octets ''yEnc'') 127 (0, 0))) \<le> (length (octets ''yEnc'') + 2) * 2 + 62"
  using yencode_fits [of 127 "octets ''yEnc''" "(0, 0)"] by (simp add: octets_def)

text \<open>Octets that are all escaped: 64 of them are a line of 129.\<close>

lemma yencode_escaped_run:
  "a + 2 * int n < 128 \<Longrightarrow> length (fst (camel_yencode_step (replicate n 0xd6) a crcs)) = 2 * n
    \<and> fst (snd (camel_yencode_step (replicate n 0xd6) a crcs)) = a + 2 * int n"
proof (induction n arbitrary: a crcs)
  case (Suc n)
  then show ?case using Suc.IH [of "a + 2" "ycrcs_add crcs 0xd6"]
    by (simp add: yencode_step_Cons yenc_octet_def yenc_escaped_def Let_def case_prod_unfold)
qed simp

lemma yencode_escaped_line:
  "length (fst (camel_yencode_step (replicate 64 0xd6) 0 crcs)) = 129 \<and> fst (snd (camel_yencode_step (replicate 64 0xd6) 0 crcs)) = 0"
proof -
  have "replicate 64 (0xd6 :: byte) = replicate 63 0xd6 @ [0xd6]" by (simp add: replicate_append_same flip: replicate_Suc)
  then show ?thesis using yencode_escaped_run [of 0 63 crcs]
    by (simp add: yencode_append Let_def case_prod_unfold yencode_step_Cons yenc_octet_def yenc_escaped_def)
qed

lemma yencode_escaped_lines:
  "length (fst (camel_yencode_step (replicate (64 * m) 0xd6) 0 crcs)) = 129 * m \<and> fst (snd (camel_yencode_step (replicate (64 * m) 0xd6) 0 crcs)) = 0"
proof (induction m arbitrary: crcs)
  case (Suc m)
  have "replicate (64 * Suc m) (0xd6 :: byte) = replicate 64 0xd6 @ replicate (64 * m) 0xd6" by (simp only: mult_Suc_right replicate_add)
  then show ?case using yencode_escaped_line [of crcs] Suc by (simp only: yencode_append Let_def case_prod_unfold fst_conv snd_conv length_append) simp
qed simp

text \<open>
  More octets than that do not always fit: the output of 4288 octets that are all escaped is longer than the
  buffer the filter asks for.
\<close>

theorem yencode_overflows:
  "\<exists>inp. length inp = 4288 \<and> length (fst (camel_yencode_step inp 0 crcs)) > (length inp + 2) * 2 + 62"
  using yencode_escaped_lines [of 67 crcs] by (intro exI [of _ "replicate (64 * 67) 0xd6"]) simp

text \<open>
  The decoder does not start at the beginning of a line: the \<^verbatim>\<open>=yend\<close> line of an empty part is decoded as data.
\<close>

lemma empty_part_not_ended:
  "\<not> y_end (fst (snd (camel_ydecode_step (octets ''=yend size=0'') ydecode_state_init crcs)))
    \<and> fst (camel_ydecode_step (octets ''=yend size=0'') ydecode_state_init crcs) \<noteq> []"
  by (simp add: camel_ydecode_step_def ydecode_state_init_def octets_def Let_def case_prod_unfold)

end
