(* ===== verification/Camel_Object_Bag.thy ===== *)
theory Camel_Object_Bag
  imports Main
begin

text \<open>
  Object bags, \<^verbatim>\<open>camel/camel-object.c\<close>: tables of objects by key that threads update by reserving a key and
  committing an object to it. All the functions run under one lock, so that each is a step, except that
  waiting for a condition gives up the lock: those are two steps. A failed assertion or an \<^verbatim>\<open>abort\<close> is
  \<^const>\<open>None\<close>.

  A condition variable is the list of the threads that wait for it and the number of signals that no thread has
  woken up by yet. A signal that finds no thread is lost. Any thread that waits may take a signal,
  also one that began to wait after it. A thread does not wake up without a signal.
\<close>

section \<open>The bag\<close>

record bag_key =
  res_key :: string
  waiters :: int
  owner :: nat
  have_owner :: bool
  cond_waiting :: "nat list"
  cond_signals :: nat

record object_bag =
  object_table :: "string \<rightharpoonup> nat"
  key_table :: "nat \<rightharpoonup> string"
  reserved :: "bag_key list"
  bag_hooks :: "nat set"
  ref_count :: "nat \<Rightarrow> int"

definition camel_object_bag_new :: object_bag where
  "camel_object_bag_new =
     \<lparr>object_table = Map.empty, key_table = Map.empty, reserved = [], bag_hooks = {}, ref_count = (\<lambda>obj. 1)\<rparr>"

definition object_ref :: "nat option \<Rightarrow> object_bag \<Rightarrow> object_bag" where
  "object_ref obj bag = (case obj of None \<Rightarrow> bag | Some obj \<Rightarrow> bag\<lparr>ref_count := (ref_count bag)(obj := ref_count bag obj + 1)\<rparr>)"

text \<open>The loops over the reservations find the first with the key.\<close>

fun find_res :: "string \<Rightarrow> bag_key list \<Rightarrow> bag_key option" where
  "find_res key [] = None"
| "find_res key (r # rs) = (if res_key r = key then Some r else find_res key rs)"

fun update_res :: "string \<Rightarrow> (bag_key \<Rightarrow> bag_key) \<Rightarrow> bag_key list \<Rightarrow> bag_key list" where
  "update_res key f [] = []"
| "update_res key f (r # rs) = (if res_key r = key then f r # rs else r # update_res key f rs)"

fun remove_res :: "string \<Rightarrow> bag_key list \<Rightarrow> bag_key list" where
  "remove_res key [] = []"
| "remove_res key (r # rs) = (if res_key r = key then rs else r # remove_res key rs)"

definition cond_signal :: "bag_key \<Rightarrow> bag_key" where
  "cond_signal r = (if cond_signals r < length (cond_waiting r) then r\<lparr>cond_signals := cond_signals r + 1\<rparr> else r)"

definition co_bag_unreserve :: "nat \<Rightarrow> string \<Rightarrow> object_bag \<Rightarrow> object_bag option" where
  "co_bag_unreserve self key bag =
     (case find_res key (reserved bag) of
        None \<Rightarrow> None
      | Some res \<Rightarrow>
          (if \<not> (have_owner res \<and> owner res = self) then None
           else if waiters res > 0 then
             Some (bag\<lparr>reserved := update_res key (\<lambda>r. cond_signal (r\<lparr>have_owner := False\<rparr>)) (reserved bag)\<rparr>)
           else Some (bag\<lparr>reserved := remove_res key (reserved bag)\<rparr>)))"

definition camel_object_bag_add :: "nat \<Rightarrow> string \<Rightarrow> nat \<Rightarrow> object_bag \<Rightarrow> object_bag option" where
  "camel_object_bag_add self key vo bag =
     (if vo \<in> bag_hooks bag then Some bag
      else co_bag_unreserve self key
        (bag\<lparr>bag_hooks := insert vo (bag_hooks bag), object_table := (object_table bag)(key \<mapsto> vo), key_table := (key_table bag)(vo \<mapsto> key)\<rparr>))"

datatype bag_outcome = Returned "nat option" | Waits

text \<open>The start of the wait, with the assertion that the thread does not wait for itself.\<close>

definition bag_wait :: "nat \<Rightarrow> string \<Rightarrow> bag_key \<Rightarrow> object_bag \<Rightarrow> (bag_outcome \<times> object_bag) option" where
  "bag_wait self key res bag =
     (if have_owner res \<and> owner res = self then None
      else Some (Waits, bag\<lparr>reserved :=
             update_res key (\<lambda>r. r\<lparr>waiters := waiters r + 1, cond_waiting := self # cond_waiting r\<rparr>) (reserved bag)\<rparr>))"

definition camel_object_bag_get :: "nat \<Rightarrow> string \<Rightarrow> object_bag \<Rightarrow> (bag_outcome \<times> object_bag) option" where
  "camel_object_bag_get self key bag =
     (case object_table bag key of
        Some obj \<Rightarrow> Some (Returned (Some obj), object_ref (Some obj) bag)
      | None \<Rightarrow>
          (case find_res key (reserved bag) of
             None \<Rightarrow> Some (Returned None, bag)
           | Some res \<Rightarrow> bag_wait self key res bag))"

definition camel_object_bag_peek :: "string \<Rightarrow> object_bag \<Rightarrow> nat option \<times> object_bag" where
  "camel_object_bag_peek key bag = (object_table bag key, object_ref (object_table bag key) bag)"

definition camel_object_bag_reserve :: "nat \<Rightarrow> string \<Rightarrow> object_bag \<Rightarrow> (bag_outcome \<times> object_bag) option" where
  "camel_object_bag_reserve self key bag =
     (case object_table bag key of
        Some obj \<Rightarrow> Some (Returned (Some obj), object_ref (Some obj) bag)
      | None \<Rightarrow>
          (case find_res key (reserved bag) of
             Some res \<Rightarrow> bag_wait self key res bag
           | None \<Rightarrow>
               Some (Returned None, bag\<lparr>reserved :=
                 \<lparr>res_key = key, waiters = 0, owner = self, have_owner = True, cond_waiting = [], cond_signals = 0\<rparr> # reserved bag\<rparr>)))"

text \<open>What a thread does when it has a signal and the lock again, first in both functions and then in each of them.\<close>

definition bag_woken :: "nat \<Rightarrow> string \<Rightarrow> object_bag \<Rightarrow> object_bag" where
  "bag_woken self key bag =
     bag\<lparr>reserved :=
       update_res key (\<lambda>r. r\<lparr>waiters := waiters r - 1, cond_waiting := remove1 self (cond_waiting r), cond_signals := cond_signals r - 1\<rparr>) (reserved bag)\<rparr>"

definition bag_own :: "nat \<Rightarrow> string \<Rightarrow> object_bag \<Rightarrow> object_bag" where
  "bag_own self key bag = bag\<lparr>reserved := update_res key (\<lambda>r. r\<lparr>owner := self, have_owner := True\<rparr>) (reserved bag)\<rparr>"

definition bag_get_woken :: "nat \<Rightarrow> string \<Rightarrow> object_bag \<Rightarrow> (nat option \<times> object_bag) option" where
  "bag_get_woken self key bag =
     (let bag = bag_woken self key bag;
          obj = object_table bag key
      in map_option (\<lambda>bag. (obj, bag)) (co_bag_unreserve self key (bag_own self key (object_ref obj bag))))"

definition bag_reserve_woken :: "nat \<Rightarrow> string \<Rightarrow> object_bag \<Rightarrow> (nat option \<times> object_bag) option" where
  "bag_reserve_woken self key bag =
     (let bag = bag_woken self key bag
      in case object_table bag key of
           Some obj \<Rightarrow> map_option (\<lambda>bag. (Some obj, bag)) (co_bag_unreserve self key (bag_own self key (object_ref (Some obj) bag)))
         | None \<Rightarrow> Some (None, bag_own self key bag))"

definition camel_object_bag_abort :: "nat \<Rightarrow> string \<Rightarrow> object_bag \<Rightarrow> object_bag option" where
  "camel_object_bag_abort self key bag = co_bag_unreserve self key bag"

definition camel_object_bag_rekey :: "nat \<Rightarrow> string \<Rightarrow> object_bag \<Rightarrow> object_bag option" where
  "camel_object_bag_rekey obj newkey bag =
     (case key_table bag obj of
        None \<Rightarrow> None
      | Some oldkey \<Rightarrow>
          Some (bag\<lparr>object_table := (object_table bag)(oldkey := None, newkey \<mapsto> obj), key_table := (key_table bag)(obj \<mapsto> newkey)\<rparr>))"

definition camel_object_bag_remove :: "nat \<Rightarrow> object_bag \<Rightarrow> object_bag" where
  "camel_object_bag_remove obj bag =
     (if obj \<in> bag_hooks bag then
        (let bag = bag\<lparr>bag_hooks := bag_hooks bag - {obj}\<rparr>
         in case key_table bag obj of
              None \<Rightarrow> bag
            | Some oldkey \<Rightarrow> bag\<lparr>key_table := (key_table bag)(obj := None), object_table := (object_table bag)(oldkey := None)\<rparr>)
      else bag)"

section \<open>Threads\<close>

text \<open>
  The threads that are waiting, with the function and the key, and the keys each thread has reserved: those for
  which \<^verbatim>\<open>camel_object_bag_reserve\<close> returned \<^verbatim>\<open>NULL\<close> to it.
\<close>

datatype bag_call = Get string | Reserve string

fun call_key :: "bag_call \<Rightarrow> string" where
  "call_key (Get key) = key"
| "call_key (Reserve key) = key"

record bag_system =
  bag :: object_bag
  blocked :: "nat \<rightharpoonup> bag_call"
  holds :: "(nat \<times> string) set"

text \<open>
  The steps of a program that keeps to the documentation: a thread commits or aborts only what it has reserved, does
  not reserve or get what it has reserved itself, commits only objects that are not in the bag, and gives an
  object only a new key that is neither in use nor reserved.
\<close>

inductive bag_step :: "bag_system \<Rightarrow> bag_system \<Rightarrow> bool" where
  get: "blocked s t = None \<Longrightarrow> (t, k) \<notin> holds s \<Longrightarrow> camel_object_bag_get t k (bag s) = Some (r, b) \<Longrightarrow>
    bag_step s (s\<lparr>bag := b, blocked := (if r = Waits then (blocked s)(t \<mapsto> Get k) else blocked s)\<rparr>)"
| reserve: "blocked s t = None \<Longrightarrow> (t, k) \<notin> holds s \<Longrightarrow> camel_object_bag_reserve t k (bag s) = Some (r, b) \<Longrightarrow>
    bag_step s (s\<lparr>bag := b, blocked := (if r = Waits then (blocked s)(t \<mapsto> Reserve k) else blocked s),
      holds := (if r = Returned None then insert (t, k) (holds s) else holds s)\<rparr>)"
| get_wakes: "blocked s t = Some (Get k) \<Longrightarrow> find_res k (reserved (bag s)) = Some res \<Longrightarrow> cond_signals res > 0 \<Longrightarrow>
    bag_get_woken t k (bag s) = Some (obj, b) \<Longrightarrow>
    bag_step s (s\<lparr>bag := b, blocked := (blocked s)(t := None)\<rparr>)"
| reserve_wakes: "blocked s t = Some (Reserve k) \<Longrightarrow> find_res k (reserved (bag s)) = Some res \<Longrightarrow> cond_signals res > 0 \<Longrightarrow>
    bag_reserve_woken t k (bag s) = Some (obj, b) \<Longrightarrow>
    bag_step s (s\<lparr>bag := b, blocked := (blocked s)(t := None), holds := (if obj = None then insert (t, k) (holds s) else holds s)\<rparr>)"
| add: "blocked s t = None \<Longrightarrow> (t, k) \<in> holds s \<Longrightarrow> vo \<notin> bag_hooks (bag s) \<Longrightarrow> camel_object_bag_add t k vo (bag s) = Some b \<Longrightarrow>
    bag_step s (s\<lparr>bag := b, holds := holds s - {(t, k)}\<rparr>)"
| abort: "blocked s t = None \<Longrightarrow> (t, k) \<in> holds s \<Longrightarrow> camel_object_bag_abort t k (bag s) = Some b \<Longrightarrow>
    bag_step s (s\<lparr>bag := b, holds := holds s - {(t, k)}\<rparr>)"
| peek: "blocked s t = None \<Longrightarrow> bag_step s (s\<lparr>bag := snd (camel_object_bag_peek k (bag s))\<rparr>)"
| rekey: "blocked s t = None \<Longrightarrow> object_table (bag s) k = None \<Longrightarrow> find_res k (reserved (bag s)) = None \<Longrightarrow>
    camel_object_bag_rekey obj k (bag s) = Some b \<Longrightarrow> bag_step s (s\<lparr>bag := b\<rparr>)"
| remove: "blocked s t = None \<Longrightarrow> bag_step s (s\<lparr>bag := camel_object_bag_remove obj (bag s)\<rparr>)"

definition bag_start :: bag_system where
  "bag_start = \<lparr>bag = camel_object_bag_new, blocked = Map.empty, holds = {}\<rparr>"

inductive bag_reachable :: "bag_system \<Rightarrow> bool" where
  start: "bag_reachable bag_start"
| step: "bag_reachable s \<Longrightarrow> bag_step s s' \<Longrightarrow> bag_reachable s'"

section \<open>The invariant\<close>

definition res_ok :: "bag_system \<Rightarrow> bag_key \<Rightarrow> bool" where
  "res_ok s r \<longleftrightarrow>
     waiters r = int (length (cond_waiting r)) \<and> distinct (cond_waiting r) \<and> cond_signals r \<le> length (cond_waiting r)
     \<and> cond_signals r = (if have_owner r then 0 else 1)
     \<and> (\<forall>t. t \<in> set (cond_waiting r) \<longleftrightarrow> (\<exists>c. blocked s t = Some c \<and> call_key c = res_key r))
     \<and> (\<forall>t. (t, res_key r) \<in> holds s \<longleftrightarrow> have_owner r \<and> owner r = t)
     \<and> (have_owner r \<longrightarrow> object_table (bag s) (res_key r) = None)"

definition tables_ok :: "object_bag \<Rightarrow> bool" where
  "tables_ok b \<longleftrightarrow> (\<forall>k obj. object_table b k = Some obj \<longleftrightarrow> key_table b obj = Some k) \<and> bag_hooks b = dom (key_table b)"

definition bag_inv :: "bag_system \<Rightarrow> bool" where
  "bag_inv s \<longleftrightarrow>
     distinct (map res_key (reserved (bag s))) \<and> (\<forall>r\<in>set (reserved (bag s)). res_ok s r) \<and> tables_ok (bag s)
     \<and> (\<forall>t k. (t, k) \<in> holds s \<longrightarrow> k \<in> res_key ` set (reserved (bag s)))
     \<and> (\<forall>t c. blocked s t = Some c \<longrightarrow> call_key c \<in> res_key ` set (reserved (bag s)))"

lemma find_res_Some: "find_res k rs = Some r \<Longrightarrow> r \<in> set rs \<and> res_key r = k"
  by (induction rs) (auto split: if_splits)

lemma find_res_None: "find_res k rs = None \<longleftrightarrow> k \<notin> res_key ` set rs"
  by (induction rs) auto

lemma find_res_in: "distinct (map res_key rs) \<Longrightarrow> r \<in> set rs \<Longrightarrow> find_res (res_key r) rs = Some r"
  by (induction rs) auto

lemma update_res_keys: "(\<And>r. res_key (f r) = res_key r) \<Longrightarrow> map res_key (update_res k f rs) = map res_key rs"
  by (induction rs) auto

lemma update_res_set:
  "distinct (map res_key rs) \<Longrightarrow> find_res k rs = Some r \<Longrightarrow> set (update_res k f rs) = insert (f r) {r' \<in> set rs. res_key r' \<noteq> k}"
  by (induction rs) (auto simp: image_iff split: if_splits)

lemma remove_res_set: "distinct (map res_key rs) \<Longrightarrow> set (remove_res k rs) = {r \<in> set rs. res_key r \<noteq> k}"
  by (induction rs) (auto simp: image_iff)

lemma remove_res_distinct: "distinct (map res_key rs) \<Longrightarrow> distinct (map res_key (remove_res k rs))"
  by (induction rs) (auto simp: remove_res_set)

lemma find_update_res: "(\<And>r. res_key (f r) = res_key r) \<Longrightarrow> find_res k (update_res k f rs) = map_option f (find_res k rs)"
  by (induction rs) auto

lemma update_update_res: "(\<And>r. res_key (f r) = res_key r) \<Longrightarrow> update_res k g (update_res k f rs) = update_res k (\<lambda>r. g (f r)) rs"
  by (induction rs) auto

lemma remove_update_res: "(\<And>r. res_key (f r) = res_key r) \<Longrightarrow> remove_res k (update_res k f rs) = remove_res k rs"
  by (induction rs) auto

lemma update_res_id: "update_res k (\<lambda>r. r) rs = rs"
  by (induction rs) auto

text \<open>Two states that differ at one key only.\<close>

definition agree :: "string \<Rightarrow> bag_system \<Rightarrow> bag_system \<Rightarrow> bool" where
  "agree k s s' \<longleftrightarrow>
     (\<forall>k'. k' \<noteq> k \<longrightarrow> object_table (bag s) k' = None \<longrightarrow> object_table (bag s') k' = None)
     \<and> (\<forall>t k'. k' \<noteq> k \<longrightarrow> (t, k') \<in> holds s' \<longleftrightarrow> (t, k') \<in> holds s)
     \<and> (\<forall>t c. call_key c \<noteq> k \<longrightarrow> blocked s' t = Some c \<longleftrightarrow> blocked s t = Some c)"

lemma res_ok_agree: "agree k s s' \<Longrightarrow> res_key r \<noteq> k \<Longrightarrow> res_ok s r \<Longrightarrow> res_ok s' r"
proof -
  assume a: "agree k s s'" and k: "res_key r \<noteq> k" and r: "res_ok s r"
  have "(\<exists>c. blocked s' t = Some c \<and> call_key c = res_key r) \<longleftrightarrow> (\<exists>c. blocked s t = Some c \<and> call_key c = res_key r)" for t
    using a k unfolding agree_def by metis
  moreover have "(t, res_key r) \<in> holds s' \<longleftrightarrow> (t, res_key r) \<in> holds s" for t using a k by (simp add: agree_def)
  moreover have "object_table (bag s) (res_key r) = None \<Longrightarrow> object_table (bag s') (res_key r) = None" using a k by (simp add: agree_def)
  ultimately show ?thesis using r unfolding res_ok_def by simp
qed

lemma bag_inv_update:
  assumes "bag_inv s" "agree k s s'" "find_res k (reserved (bag s)) = Some r" "reserved (bag s') = update_res k f (reserved (bag s))"
    "\<And>r. res_key (f r) = res_key r" "tables_ok (bag s')" "res_ok s' (f r)"
  shows "bag_inv s'"
proof -
  have d: "distinct (map res_key (reserved (bag s)))" using assms(1) by (simp add: bag_inv_def)
  have keys: "map res_key (reserved (bag s')) = map res_key (reserved (bag s))" using update_res_keys assms(4,5) by simp
  then have img: "res_key ` set (reserved (bag s')) = res_key ` set (reserved (bag s))" by (metis list.set_map)
  have k: "k \<in> res_key ` set (reserved (bag s))" using find_res_Some [OF assms(3)] by blast
  have "res_ok s' r'" if "r' \<in> set (reserved (bag s'))" for r'
    using that update_res_set [OF d assms(3)] assms(1,4,7) res_ok_agree [OF assms(2)] by (auto simp: bag_inv_def)
  moreover have "\<forall>t k'. (t, k') \<in> holds s' \<longrightarrow> k' \<in> res_key ` set (reserved (bag s'))"
    using assms(1,2) k unfolding img bag_inv_def agree_def by metis
  moreover have "\<forall>t c. blocked s' t = Some c \<longrightarrow> call_key c \<in> res_key ` set (reserved (bag s'))"
    using assms(1,2) k unfolding img bag_inv_def agree_def by metis
  ultimately show ?thesis using d keys assms(6) unfolding bag_inv_def by simp
qed

lemma bag_inv_remove:
  assumes "bag_inv s" "agree k s s'" "reserved (bag s') = remove_res k (reserved (bag s))" "tables_ok (bag s')"
    "\<forall>t. (t, k) \<notin> holds s'" "\<forall>t c. blocked s' t = Some c \<longrightarrow> call_key c \<noteq> k"
  shows "bag_inv s'"
proof -
  have d: "distinct (map res_key (reserved (bag s)))" using assms(1) by (simp add: bag_inv_def)
  have set: "set (reserved (bag s')) = {r \<in> set (reserved (bag s)). res_key r \<noteq> k}" using remove_res_set [OF d] assms(3) by simp
  have "\<forall>r\<in>set (reserved (bag s')). res_ok s' r" using set assms(1) res_ok_agree [OF assms(2)] by (auto simp: bag_inv_def)
  moreover have "k' \<in> res_key ` set (reserved (bag s'))" if "(t, k') \<in> holds s'" for t k'
  proof -
    have "k' \<noteq> k" using that assms(5) by blast
    then have "(t, k') \<in> holds s" using that assms(2) by (simp add: agree_def)
    then have "k' \<in> res_key ` set (reserved (bag s))" using assms(1) by (simp add: bag_inv_def)
    then show ?thesis using set \<open>k' \<noteq> k\<close> by auto
  qed
  moreover have "call_key c \<in> res_key ` set (reserved (bag s'))" if "blocked s' t = Some c" for t c
  proof -
    have "call_key c \<noteq> k" using that assms(6) by blast
    then have "blocked s t = Some c" using that assms(2) by (simp add: agree_def)
    then have "call_key c \<in> res_key ` set (reserved (bag s))" using assms(1) by (simp add: bag_inv_def)
    then show ?thesis using set \<open>call_key c \<noteq> k\<close> by auto
  qed
  ultimately show ?thesis using d assms(3,4) remove_res_distinct [OF d] unfolding bag_inv_def by simp
qed

text \<open>Giving up a reservation, from a state in which the thread is its owner.\<close>

lemma unreserve_inv:
  assumes "bag_inv s" "agree k s s'" "find_res k (reserved (bag s)) = Some r" "reserved (bag s') = update_res k f (reserved (bag s))"
    "\<And>r. res_key (f r) = res_key r" "tables_ok (bag s')" "\<forall>t. (t, k) \<notin> holds s'"
    "have_owner (f r)" "owner (f r) = t" "cond_signals (f r) = 0" "waiters (f r) = int (length (cond_waiting (f r)))" "distinct (cond_waiting (f r))"
    "\<forall>t'. t' \<in> set (cond_waiting (f r)) \<longleftrightarrow> (\<exists>c. blocked s' t' = Some c \<and> call_key c = k)"
  shows "\<exists>b. co_bag_unreserve t k (bag s') = Some b \<and> bag_inv (s'\<lparr>bag := b\<rparr>)"
proof (cases "waiters (f r) > 0")
  case True
  let ?g = "\<lambda>r. cond_signal (f r\<lparr>have_owner := False\<rparr>)"
  let ?b = "bag s'\<lparr>reserved := update_res k ?g (reserved (bag s))\<rparr>"
  have sig: "res_key (cond_signal r) = res_key r" for r by (simp add: cond_signal_def)
  have "co_bag_unreserve t k (bag s') = Some ?b"
    using assms(3,4,5,8,9) True by (simp add: co_bag_unreserve_def find_update_res update_update_res)
  moreover have "cond_waiting (f r) \<noteq> []" using True assms(11) by auto
  then have "res_ok (s'\<lparr>bag := ?b\<rparr>) (?g r)"
    using assms(5,7,10-13) find_res_Some [OF assms(3)] by (auto simp: res_ok_def cond_signal_def Suc_le_eq)
  then have "bag_inv (s'\<lparr>bag := ?b\<rparr>)"
    using assms(2,5,6) sig by (intro bag_inv_update [OF assms(1) _ assms(3), of _ ?g]) (auto simp: agree_def tables_ok_def)
  ultimately show ?thesis by blast
next
  case False
  let ?b = "bag s'\<lparr>reserved := remove_res k (reserved (bag s))\<rparr>"
  have "co_bag_unreserve t k (bag s') = Some ?b"
    using assms(3,4,5,8,9) False by (simp add: co_bag_unreserve_def find_update_res remove_update_res)
  moreover have "cond_waiting (f r) = []" using False assms(11) by auto
  then have "bag_inv (s'\<lparr>bag := ?b\<rparr>)"
    using assms(2,6,7,13) by (intro bag_inv_remove [OF assms(1), of k]) (auto simp: agree_def tables_ok_def)
  ultimately show ?thesis by blast
qed

section \<open>Every step keeps the invariant\<close>

lemma bag_inv_found:
  assumes "bag_inv s" "find_res k (reserved (bag s)) = Some r"
  shows "res_ok s r" "res_key r = k"
  using assms find_res_Some [OF assms(2)] by (auto simp: bag_inv_def)

text \<open>A state in which only the reference counts differ.\<close>

lemma object_ref_sel [simp]:
  "reserved (object_ref ob b) = reserved b" "object_table (object_ref ob b) = object_table b" "key_table (object_ref ob b) = key_table b"
  "bag_hooks (object_ref ob b) = bag_hooks b"
  by (simp_all add: object_ref_def split: option.splits)

lemma bag_inv_same:
  assumes "bag_inv s" "reserved (bag s') = reserved (bag s)" "object_table (bag s') = object_table (bag s)" "key_table (bag s') = key_table (bag s)"
    "bag_hooks (bag s') = bag_hooks (bag s)" "blocked s' = blocked s" "holds s' = holds s"
  shows "bag_inv s'"
  using assms(1) unfolding bag_inv_def res_ok_def tables_ok_def assms(2-7) .

lemma wait_inv:
  assumes "bag_inv s" "blocked s t = None" "find_res k (reserved (bag s)) = Some r" "(t, k) \<notin> holds s" "call_key c = k"
  shows "\<exists>b. bag_wait t k r (bag s) = Some (Waits, b) \<and> bag_inv (s\<lparr>bag := b, blocked := (blocked s)(t \<mapsto> c)\<rparr>)"
proof -
  note r = bag_inv_found [OF assms(1,3)]
  let ?f = "\<lambda>r. r\<lparr>waiters := waiters r + 1, cond_waiting := t # cond_waiting r\<rparr>"
  let ?b = "bag s\<lparr>reserved := update_res k ?f (reserved (bag s))\<rparr>"
  let ?s = "s\<lparr>bag := ?b, blocked := (blocked s)(t \<mapsto> c)\<rparr>"
  have no: "\<not> (have_owner r \<and> owner r = t)" using r assms(4) unfolding res_ok_def by blast
  have fresh: "t \<notin> set (cond_waiting r)" using r(1) assms(2) unfolding res_ok_def by simp
  have "res_ok ?s (?f r)" using r fresh assms(5) unfolding res_ok_def by auto
  then have "bag_inv ?s" using assms(1,2,5)
    by (intro bag_inv_update [OF assms(1) _ assms(3), of ?s ?f]) (auto simp: agree_def tables_ok_def bag_inv_def)
  then show ?thesis using no by (simp add: bag_wait_def)
qed

lemma get_inv:
  assumes "bag_inv s" "blocked s t = None" "(t, k) \<notin> holds s"
  shows "\<exists>r b. camel_object_bag_get t k (bag s) = Some (r, b)
    \<and> bag_inv (s\<lparr>bag := b, blocked := (if r = Waits then (blocked s)(t \<mapsto> Get k) else blocked s)\<rparr>)"
proof (cases "object_table (bag s) k")
  case (Some ob)
  then show ?thesis using bag_inv_same [OF assms(1), of "s\<lparr>bag := object_ref (Some ob) (bag s)\<rparr>"] by (simp add: camel_object_bag_get_def)
next
  case None
  show ?thesis
  proof (cases "find_res k (reserved (bag s))")
    case (Some r)
    then show ?thesis using None wait_inv [OF assms(1,2) Some assms(3), of "Get k"] by (auto simp: camel_object_bag_get_def)
  qed (use None assms(1) in \<open>simp add: camel_object_bag_get_def\<close>)
qed

lemma reserve_inv:
  assumes "bag_inv s" "blocked s t = None" "(t, k) \<notin> holds s"
  shows "\<exists>r b. camel_object_bag_reserve t k (bag s) = Some (r, b)
    \<and> bag_inv (s\<lparr>bag := b, blocked := (if r = Waits then (blocked s)(t \<mapsto> Reserve k) else blocked s),
        holds := (if r = Returned None then insert (t, k) (holds s) else holds s)\<rparr>)"
proof (cases "object_table (bag s) k")
  case (Some ob)
  then show ?thesis using bag_inv_same [OF assms(1), of "s\<lparr>bag := object_ref (Some ob) (bag s)\<rparr>"] by (simp add: camel_object_bag_reserve_def)
next
  case None
  show ?thesis
  proof (cases "find_res k (reserved (bag s))")
    case (Some r)
    then show ?thesis using None wait_inv [OF assms(1,2) Some assms(3), of "Reserve k"] by (auto simp: camel_object_bag_reserve_def)
  next
    case free: None
    let ?new = "\<lparr>res_key = k, waiters = 0, owner = t, have_owner = True, cond_waiting = [], cond_signals = 0\<rparr>"
    let ?s = "s\<lparr>bag := bag s\<lparr>reserved := ?new # reserved (bag s)\<rparr>, holds := insert (t, k) (holds s)\<rparr>"
    have k: "k \<notin> res_key ` set (reserved (bag s))" using free by (simp add: find_res_None)
    have "agree k s ?s" by (simp add: agree_def)
    then have "res_ok ?s r" if "r \<in> set (reserved (bag s))" for r
      using that assms(1) k res_ok_agree [of k s ?s r] unfolding bag_inv_def by blast
    moreover have "(t', k) \<notin> holds s" "blocked s t' = Some c \<longrightarrow> call_key c \<noteq> k" for t' c using assms(1) k unfolding bag_inv_def by blast+
    then have "res_ok ?s ?new" using None by (auto simp: res_ok_def)
    ultimately have "bag_inv ?s" using assms(1) k by (auto simp: bag_inv_def tables_ok_def)
    then show ?thesis using None free by (simp add: camel_object_bag_reserve_def)
  qed
qed

lemma owned_inv:
  assumes "bag_inv s" "(t, k) \<in> holds s"
  obtains r where "find_res k (reserved (bag s)) = Some r" "have_owner r" "owner r = t" "res_ok s r" "object_table (bag s) k = None"
proof -
  have "find_res k (reserved (bag s)) \<noteq> None" using assms by (auto simp: bag_inv_def find_res_None)
  then obtain r where r: "find_res k (reserved (bag s)) = Some r" by blast
  note ok = bag_inv_found [OF assms(1) r]
  then have "have_owner r" "owner r = t" "object_table (bag s) k = None" using assms(2) unfolding res_ok_def by auto
  then show thesis using that r ok(1) by blast
qed

lemma system_updates:
  "s\<lparr>holds := h, bag := b\<rparr> = s\<lparr>bag := b, holds := h\<rparr>" "s\<lparr>blocked := c, bag := b\<rparr> = s\<lparr>bag := b, blocked := c\<rparr>"
  by (cases s; simp)+

lemma abort_inv:
  assumes "bag_inv s" "(t, k) \<in> holds s"
  shows "\<exists>b. camel_object_bag_abort t k (bag s) = Some b \<and> bag_inv (s\<lparr>bag := b, holds := holds s - {(t, k)}\<rparr>)"
proof -
  obtain r where r: "find_res k (reserved (bag s)) = Some r" "have_owner r" "owner r = t" "res_ok s r" using owned_inv [OF assms] by metis
  have k: "res_key r = k" using bag_inv_found(2) [OF assms(1) r(1)] .
  have "\<exists>b. co_bag_unreserve t k (bag (s\<lparr>holds := holds s - {(t, k)}\<rparr>)) = Some b \<and> bag_inv (s\<lparr>holds := holds s - {(t, k)}\<rparr>\<lparr>bag := b\<rparr>)"
    by (rule unreserve_inv [OF assms(1) _ r(1), where f = "\<lambda>r. r"])
      (use r k assms(1) in \<open>auto simp: agree_def update_res_id bag_inv_def res_ok_def\<close>)
  then show ?thesis by (simp add: camel_object_bag_abort_def system_updates)
qed

lemma add_inv:
  assumes "bag_inv s" "(t, k) \<in> holds s" "vo \<notin> bag_hooks (bag s)"
  shows "\<exists>b. camel_object_bag_add t k vo (bag s) = Some b \<and> bag_inv (s\<lparr>bag := b, holds := holds s - {(t, k)}\<rparr>)"
proof -
  obtain r where r: "find_res k (reserved (bag s)) = Some r" "have_owner r" "owner r = t" "res_ok s r" "object_table (bag s) k = None"
    using owned_inv [OF assms(1,2)] by metis
  have k: "res_key r = k" using bag_inv_found(2) [OF assms(1) r(1)] .
  let ?b = "bag s\<lparr>bag_hooks := insert vo (bag_hooks (bag s)), object_table := (object_table (bag s))(k \<mapsto> vo), key_table := (key_table (bag s))(vo \<mapsto> k)\<rparr>"
  have tab: "tables_ok (bag s)" using assms(1) by (simp add: bag_inv_def)
  then have "key_table (bag s) vo = None" using assms(3) by (auto simp: tables_ok_def)
  then have tabs: "tables_ok ?b" using tab r(5) unfolding tables_ok_def by (auto simp: dom_def) (metis option.distinct(1))
  have "\<exists>b. co_bag_unreserve t k (bag (s\<lparr>bag := ?b, holds := holds s - {(t, k)}\<rparr>)) = Some b
      \<and> bag_inv (s\<lparr>bag := ?b, holds := holds s - {(t, k)}\<rparr>\<lparr>bag := b\<rparr>)"
    by (rule unreserve_inv [OF assms(1) _ r(1), where f = "\<lambda>r. r"])
      (use r(2-4) k tabs in \<open>auto simp: agree_def update_res_id res_ok_def\<close>)
  then show ?thesis using assms(3) by (simp add: camel_object_bag_add_def system_updates)
qed

text \<open>A thread that wakes up takes the signal and leaves the list of those that wait.\<close>

lemma woken_inv:
  assumes "bag_inv s" "blocked s t = Some c" "call_key c = k" "find_res k (reserved (bag s)) = Some r" "cond_signals r > 0"
  shows "\<not> have_owner r" "t \<in> set (cond_waiting r)" "\<forall>t'. (t', k) \<notin> holds s"
    "\<forall>t'. t' \<in> set (remove1 t (cond_waiting r)) \<longleftrightarrow> (\<exists>c. ((blocked s)(t := None)) t' = Some c \<and> call_key c = k)"
proof -
  note r = bag_inv_found [OF assms(1,4)]
  have "cond_signals r = (if have_owner r then 0 else 1)" using r(1) unfolding res_ok_def by blast
  then show no: "\<not> have_owner r" using assms(5) by (cases "have_owner r") simp_all
  have w: "t' \<in> set (cond_waiting r) \<longleftrightarrow> (\<exists>c. blocked s t' = Some c \<and> call_key c = k)" for t'
  proof -
    have "\<forall>t'. t' \<in> set (cond_waiting r) \<longleftrightarrow> (\<exists>c. blocked s t' = Some c \<and> call_key c = res_key r)" using r(1) unfolding res_ok_def by (elim conjE)
    then show ?thesis using r(2) by simp
  qed
  then show "t \<in> set (cond_waiting r)" using assms(2,3) by blast
  show "\<forall>t'. (t', k) \<notin> holds s" using r no unfolding res_ok_def by blast
  show "\<forall>t'. t' \<in> set (remove1 t (cond_waiting r)) \<longleftrightarrow> (\<exists>c. ((blocked s)(t := None)) t' = Some c \<and> call_key c = k)"
  proof
    fix t'
    have "t' \<in> set (remove1 t (cond_waiting r)) \<longleftrightarrow> t' \<in> set (cond_waiting r) \<and> t' \<noteq> t"
      using r(1) by (simp add: res_ok_def)
    then show "t' \<in> set (remove1 t (cond_waiting r)) \<longleftrightarrow> (\<exists>c. ((blocked s)(t := None)) t' = Some c \<and> call_key c = k)"
      using w by simp
  qed
qed

definition woken_res :: "nat \<Rightarrow> bag_key \<Rightarrow> bag_key" where
  "woken_res t r = r\<lparr>waiters := waiters r - 1, cond_waiting := remove1 t (cond_waiting r), cond_signals := cond_signals r - 1, owner := t, have_owner := True\<rparr>"

lemma own_woken: "reserved (bag_own t k (object_ref ob (bag_woken t k b))) = update_res k (woken_res t) (reserved b)"
  by (simp add: bag_own_def bag_woken_def update_update_res woken_res_def [abs_def])

lemma own_woken_sel [simp]:
  "object_table (bag_own t k b) = object_table b" "key_table (bag_own t k b) = key_table b" "bag_hooks (bag_own t k b) = bag_hooks b"
  "object_table (bag_woken t k b) = object_table b" "key_table (bag_woken t k b) = key_table b" "bag_hooks (bag_woken t k b) = bag_hooks b"
  by (simp_all add: bag_own_def bag_woken_def)

lemma length_remove1_int: "x \<in> set xs \<Longrightarrow> int (length (remove1 x xs)) = int (length xs) - 1"
  using length_pos_if_in_set [of x xs] by (simp add: length_remove1 of_nat_diff Suc_le_eq)

lemma woken_res_counts:
  assumes "bag_inv s" "blocked s t = Some c" "call_key c = k" "find_res k (reserved (bag s)) = Some r" "cond_signals r > 0"
  shows "cond_signals (woken_res t r) = 0" "waiters (woken_res t r) = int (length (cond_waiting (woken_res t r)))"
    "distinct (cond_waiting (woken_res t r))"
proof -
  note ok = bag_inv_found(1) [OF assms(1,4)] and w = woken_inv [OF assms]
  show "cond_signals (woken_res t r) = 0" "distinct (cond_waiting (woken_res t r))" using ok w(1) by (auto simp: woken_res_def res_ok_def)
  have "waiters r = int (length (cond_waiting r))" using ok unfolding res_ok_def by blast
  then show "waiters (woken_res t r) = int (length (cond_waiting (woken_res t r)))"
    using length_remove1_int [OF w(2)] by (simp add: woken_res_def)
qed

lemma woken_unreserve_inv:
  assumes "bag_inv s" "blocked s t = Some c" "call_key c = k" "find_res k (reserved (bag s)) = Some r" "cond_signals r > 0"
  shows "\<exists>b. co_bag_unreserve t k (bag_own t k (object_ref ob (bag_woken t k (bag s)))) = Some b
    \<and> bag_inv (s\<lparr>bag := b, blocked := (blocked s)(t := None)\<rparr>)"
proof -
  let ?b = "bag_own t k (object_ref ob (bag_woken t k (bag s)))"
  let ?s = "s\<lparr>bag := ?b, blocked := (blocked s)(t := None)\<rparr>"
  note w = woken_inv [OF assms] and n = woken_res_counts [OF assms]
  have "\<exists>b. co_bag_unreserve t k (bag ?s) = Some b \<and> bag_inv (?s\<lparr>bag := b\<rparr>)"
  proof (rule unreserve_inv [OF assms(1) _ assms(4), where f = "woken_res t"])
    show "agree k s ?s" using assms(2,3) by (auto simp: agree_def)
    show "tables_ok (bag ?s)" using assms(1) by (simp add: bag_inv_def tables_ok_def)
    show "\<forall>t'. t' \<in> set (cond_waiting (woken_res t r)) \<longleftrightarrow> (\<exists>c. blocked ?s t' = Some c \<and> call_key c = k)"
      using w(4) by (simp add: woken_res_def)
  qed (use w(3) n in \<open>simp_all add: own_woken woken_res_def\<close>)
  then show ?thesis by (simp add: system_updates)
qed

lemma get_woken_inv:
  assumes "bag_inv s" "blocked s t = Some (Get k)" "find_res k (reserved (bag s)) = Some r" "cond_signals r > 0"
  shows "\<exists>ob b. bag_get_woken t k (bag s) = Some (ob, b) \<and> bag_inv (s\<lparr>bag := b, blocked := (blocked s)(t := None)\<rparr>)"
  using woken_unreserve_inv [OF assms(1,2) _ assms(3,4), of "object_table (bag s) k"] by (auto simp: bag_get_woken_def Let_def)

lemma reserve_woken_inv:
  assumes "bag_inv s" "blocked s t = Some (Reserve k)" "find_res k (reserved (bag s)) = Some r" "cond_signals r > 0"
  shows "\<exists>ob b. bag_reserve_woken t k (bag s) = Some (ob, b)
    \<and> bag_inv (s\<lparr>bag := b, blocked := (blocked s)(t := None), holds := (if ob = None then insert (t, k) (holds s) else holds s)\<rparr>)"
proof (cases "object_table (bag s) k")
  case (Some ob)
  then show ?thesis using woken_unreserve_inv [OF assms(1,2) _ assms(3,4), of "Some ob"] by (auto simp: bag_reserve_woken_def Let_def)
next
  case None
  let ?b = "bag_own t k (bag_woken t k (bag s))"
  let ?s = "s\<lparr>bag := ?b, blocked := (blocked s)(t := None), holds := insert (t, k) (holds s)\<rparr>"
  have key: "call_key (Reserve k) = k" by simp
  note w = woken_inv [OF assms(1,2) key assms(3,4)] and n = woken_res_counts [OF assms(1,2) key assms(3,4)]
  have "bag_inv ?s"
  proof (rule bag_inv_update [OF assms(1) _ assms(3), where f = "woken_res t"])
    show "agree k s ?s" using assms(2) by (auto simp: agree_def)
    show "tables_ok (bag ?s)" using assms(1) by (simp add: bag_inv_def tables_ok_def)
    show "reserved (bag ?s) = update_res k (woken_res t) (reserved (bag s))"
      using own_woken [of t k None "bag s"] by (simp add: object_ref_def)
    have "res_key r = k" using bag_inv_found(2) [OF assms(1,3)] .
    then show "res_ok ?s (woken_res t r)"
      using w(3,4) n None by (auto simp: res_ok_def woken_res_def)
  qed (simp add: woken_res_def)
  then show ?thesis using None by (simp add: bag_reserve_woken_def)
qed

lemma tables_inj: "tables_ok b \<Longrightarrow> key_table b x = Some k \<Longrightarrow> key_table b y = Some k \<Longrightarrow> x = y"
  unfolding tables_ok_def by (metis option.inject)

lemma tables_inv:
  assumes "bag_inv s" "reserved b = reserved (bag s)" "tables_ok b"
    "\<forall>r\<in>set (reserved (bag s)). have_owner r \<longrightarrow> object_table b (res_key r) = None"
  shows "bag_inv (s\<lparr>bag := b\<rparr>)"
proof -
  have "res_ok (s\<lparr>bag := b\<rparr>) r" if "r \<in> set (reserved (bag s))" for r
  proof -
    have "res_ok s r" using assms(1) that by (simp add: bag_inv_def)
    then show ?thesis using assms(4) that unfolding res_ok_def by simp
  qed
  then show ?thesis using assms by (simp add: bag_inv_def)
qed

lemma inverse_rekey:
  assumes "\<forall>x y. ot x = Some y \<longleftrightarrow> kt y = Some x" "kt ob = Some old" "ot k = None"
  shows "(ot(old := None, k \<mapsto> ob)) x = Some y \<longleftrightarrow> (kt(ob \<mapsto> k)) y = Some x"
proof (cases "y = ob")
  case True
  have "ot x \<noteq> Some ob" if "x \<noteq> old" using that assms(1,2) by simp
  then show ?thesis using True by auto
next
  case False
  have "kt y \<noteq> Some k" using assms(1,3) by (metis option.distinct(1))
  moreover have "kt y \<noteq> Some old" using False assms(1,2) by (metis option.inject)
  ultimately show ?thesis using False assms(1) by auto
qed

lemma rekey_inv:
  assumes "bag_inv s" "object_table (bag s) k = None" "find_res k (reserved (bag s)) = None" "camel_object_bag_rekey ob k (bag s) = Some b"
  shows "bag_inv (s\<lparr>bag := b\<rparr>)"
proof -
  obtain old where old: "key_table (bag s) ob = Some old"
    and b: "b = bag s\<lparr>object_table := (object_table (bag s))(old := None, k \<mapsto> ob), key_table := (key_table (bag s))(ob \<mapsto> k)\<rparr>"
    using assms(4) by (auto simp: camel_object_bag_rekey_def split: option.splits)
  have tab: "tables_ok (bag s)" using assms(1) by (simp add: bag_inv_def)
  have "object_table b x = Some y \<longleftrightarrow> key_table b y = Some x" for x y
    using inverse_rekey [of "object_table (bag s)" "key_table (bag s)" ob old k x y] tab old assms(2) unfolding b by (simp add: tables_ok_def)
  moreover have "bag_hooks b = dom (key_table b)" using tab old unfolding b tables_ok_def by (simp add: insert_absorb domI)
  ultimately have "tables_ok b" by (simp add: tables_ok_def)
  moreover have "\<forall>r\<in>set (reserved (bag s)). have_owner r \<longrightarrow> object_table b (res_key r) = None"
    using assms(1,3) unfolding b bag_inv_def res_ok_def find_res_None by auto
  ultimately show ?thesis using b by (intro tables_inv [OF assms(1)]) simp_all
qed

lemma remove_inv:
  assumes "bag_inv s"
  shows "bag_inv (s\<lparr>bag := camel_object_bag_remove ob (bag s)\<rparr>)"
proof -
  have tab: "tables_ok (bag s)" using assms by (simp add: bag_inv_def)
  have "tables_ok (camel_object_bag_remove ob (bag s))"
    using tab tables_inj [OF tab, of ob] unfolding tables_ok_def camel_object_bag_remove_def by (auto simp: Let_def dom_def split: option.splits)
  moreover have "object_table (bag s) k = None \<Longrightarrow> object_table (camel_object_bag_remove ob (bag s)) k = None" for k
    by (auto simp: camel_object_bag_remove_def Let_def split: option.splits)
  then have "\<forall>r\<in>set (reserved (bag s)). have_owner r \<longrightarrow> object_table (camel_object_bag_remove ob (bag s)) (res_key r) = None"
    using assms unfolding bag_inv_def res_ok_def by blast
  ultimately show ?thesis by (intro tables_inv [OF assms]) (simp_all add: camel_object_bag_remove_def Let_def split: option.splits)
qed

lemma bag_step_inv: "bag_step s s' \<Longrightarrow> bag_inv s \<Longrightarrow> bag_inv s'"
proof (induction rule: bag_step.induct)
  case (get s t k r b)
  then show ?case using get_inv [of s t k] by auto
next
  case (reserve s t k r b)
  then show ?case using reserve_inv [of s t k] by auto
next
  case (get_wakes s t k res ob b)
  then show ?case using get_woken_inv [of s t k res] by auto
next
  case (reserve_wakes s t k res ob b)
  then show ?case using reserve_woken_inv [of s t k res] by auto
next
  case (add s t k vo b)
  then show ?case using add_inv [of s t k vo] by auto
next
  case (abort s t k b)
  then show ?case using abort_inv [of s t k] by auto
next
  case (peek s t k)
  then show ?case using bag_inv_same [of s "s\<lparr>bag := snd (camel_object_bag_peek k (bag s))\<rparr>"] by (simp add: camel_object_bag_peek_def)
next
  case (rekey s t k ob b)
  then show ?case using rekey_inv by blast
next
  case (remove s t ob)
  then show ?case using remove_inv by blast
qed

lemma bag_reachable_inv: "bag_reachable s \<Longrightarrow> bag_inv s"
proof (induction rule: bag_reachable.induct)
  case start
  then show ?case by (simp add: bag_inv_def bag_start_def camel_object_bag_new_def tables_ok_def)
qed (rule bag_step_inv)

section \<open>What the threads can rely on\<close>


text \<open>Thread 1 has reserved a key that thread 2 waits for; then thread 1 gives it up.\<close>

definition two_threads :: bag_system where
  "two_threads =
     \<lparr>bag = camel_object_bag_new\<lparr>reserved :=
        [\<lparr>res_key = ''a'', waiters = 1, owner = 1, have_owner = True, cond_waiting = [2], cond_signals = 0\<rparr>]\<rparr>,
      blocked = [2 \<mapsto> Reserve ''a''], holds = {(1, ''a'')}\<rparr>"

definition two_threads_later :: bag_system where
  "two_threads_later =
     \<lparr>bag = camel_object_bag_new\<lparr>reserved :=
        [\<lparr>res_key = ''a'', waiters = 1, owner = 1, have_owner = False, cond_waiting = [2], cond_signals = 1\<rparr>]\<rparr>,
      blocked = [2 \<mapsto> Reserve ''a''], holds = {}\<rparr>"

lemma two_threads_reachable: "bag_reachable two_threads"
proof -
  let ?s = "bag_start\<lparr>bag := camel_object_bag_new\<lparr>reserved :=
      [\<lparr>res_key = ''a'', waiters = 0, owner = 1, have_owner = True, cond_waiting = [], cond_signals = 0\<rparr>]\<rparr>, holds := {(1, ''a'')}\<rparr>"
  have "bag_step bag_start ?s"
    using bag_step.reserve [of bag_start 1 "''a''" "Returned None"] by (simp add: bag_start_def camel_object_bag_reserve_def camel_object_bag_new_def)
  then have "bag_reachable ?s" by (rule bag_reachable.step [OF bag_reachable.start])
  moreover have "bag_step ?s two_threads"
    using bag_step.reserve [of ?s 2 "''a''" Waits]
    by (simp add: bag_start_def camel_object_bag_reserve_def camel_object_bag_new_def bag_wait_def two_threads_def)
  ultimately show ?thesis by (rule bag_reachable.step)
qed

lemma two_threads_later_reachable: "bag_reachable two_threads_later"
proof -
  have "bag_step two_threads two_threads_later"
    using bag_step.abort [of two_threads 1 "''a''"]
    by (simp add: two_threads_def two_threads_later_def camel_object_bag_abort_def co_bag_unreserve_def cond_signal_def)
  then show ?thesis by (rule bag_reachable.step [OF two_threads_reachable])
qed


text \<open>
  C4. No wake-up is lost: when a thread waits for a key, then a thread has it reserved, or one of the threads that wait
  for it can go on.
\<close>

theorem bag_no_lost_wakeup:
  assumes "bag_reachable s" "blocked s t = Some c"
  shows "(\<exists>t'. (t', call_key c) \<in> holds s)
    \<or> (\<exists>t' c' s'. blocked s t' = Some c' \<and> call_key c' = call_key c \<and> bag_step s s' \<and> blocked s' t' = None)"
proof -
  have inv: "bag_inv s" using assms(1) by (rule bag_reachable_inv)
  let ?k = "call_key c"
  have "find_res ?k (reserved (bag s)) \<noteq> None" using inv assms(2) unfolding find_res_None bag_inv_def by blast
  then obtain r where r: "find_res ?k (reserved (bag s)) = Some r" by blast
  note ok = bag_inv_found [OF inv r]
  show ?thesis
  proof (cases "have_owner r")
    case True
    then have "(owner r, res_key r) \<in> holds s" using ok(1) unfolding res_ok_def by blast
    then show ?thesis using ok(2) by auto
  next
    case False
    then have sig: "cond_signals r > 0" using ok(1) unfolding res_ok_def by simp
    show ?thesis
    proof (cases c)
      case (Get k)
      then obtain ob b where "bag_get_woken t k (bag s) = Some (ob, b)" using get_woken_inv [OF inv _ _ sig, of t k] assms(2) r by auto
      then have "bag_step s (s\<lparr>bag := b, blocked := (blocked s)(t := None)\<rparr>)"
        using assms(2) r sig Get by (intro bag_step.get_wakes [of s t k r ob]) auto
      then show ?thesis using assms(2) by force
    next
      case (Reserve k)
      then obtain ob b where "bag_reserve_woken t k (bag s) = Some (ob, b)" using reserve_woken_inv [OF inv _ _ sig, of t k] assms(2) r by auto
      then have "bag_step s (s\<lparr>bag := b, blocked := (blocked s)(t := None), holds := (if ob = None then insert (t, k) (holds s) else holds s)\<rparr>)"
        using assms(2) r sig Reserve by (intro bag_step.reserve_wakes [of s t k r]) auto
      then show ?thesis using assms(2) by force
    qed
  qed
qed

theorem bag_no_lost_wakeup_witness:
  "\<exists>t' c' s'. blocked two_threads_later t' = Some c' \<and> call_key c' = ''a'' \<and> bag_step two_threads_later s' \<and> blocked s' t' = None"
  using bag_no_lost_wakeup [OF two_threads_later_reachable, of 2 "Reserve ''a''"] by (simp add: two_threads_later_def)

text \<open>
  In every reachable state the object of a key and the key of an object are each other's inverse, so that no object is found
  under two keys and no key is left behind.
\<close>

theorem bag_tables_inverse:
  assumes "bag_reachable s"
  shows "object_table (bag s) k = Some vo \<longleftrightarrow> key_table (bag s) vo = Some k"
  using bag_reachable_inv [OF assms] by (simp add: bag_inv_def tables_ok_def)

theorem bag_tables_inverse_witness:
  "object_table (bag two_threads) ''a'' = Some 7 \<longleftrightarrow> key_table (bag two_threads) 7 = Some ''a''"
  by (rule bag_tables_inverse [OF two_threads_reachable])

text \<open>
  An object that is in the bag already is not added again, but the key stays reserved: the threads that
  wait for it are not woken up.
\<close>

theorem bag_add_leaks_reservation:
  assumes "bag_reachable s" "(t, k) \<in> holds s" "vo \<in> bag_hooks (bag s)"
  shows "\<exists>res. camel_object_bag_add t k vo (bag s) = Some (bag s) \<and> find_res k (reserved (bag s)) = Some res
    \<and> have_owner res \<and> owner res = t \<and> cond_signals res = 0"
proof -
  obtain r where r: "find_res k (reserved (bag s)) = Some r" "have_owner r" "owner r = t" "res_ok s r"
    using owned_inv [OF bag_reachable_inv [OF assms(1)] assms(2)] by metis
  then have "cond_signals r = 0" unfolding res_ok_def by simp
  then show ?thesis using r assms(3) by (simp add: camel_object_bag_add_def)
qed

text \<open>An object given a key in use takes the place of the other object, whose removal then takes it out of the bag.\<close>

lemma rekey_in_use_loses_object:
  assumes "key_table b x = Some k" "key_table b y = Some k'" "x \<noteq> y" "x \<in> bag_hooks b"
  shows "\<exists>b'. camel_object_bag_rekey y k b = Some b' \<and> object_table b' k = Some y
    \<and> object_table (camel_object_bag_remove x b') k = None \<and> key_table (camel_object_bag_remove x b') y = Some k"
  using assms by (simp add: camel_object_bag_rekey_def camel_object_bag_remove_def)

end
