(* ===== verification/E_Sexp.thy ===== *)
theory E_Sexp
  imports EDS_Prelude "HOL-Library.AList"
begin

text \<open>
  The search expressions that the calendar, the address book and the mail folders are queried with:
  \<^verbatim>\<open>libedataserver/e-sexp.c\<close>. A fatal error, which the code reports by a jump out of the evaluation, is the left
  value of a sum, as is a walk through memory that is not what the code takes it for. An argument of
  an immediate function is the value its evaluation would have; a function looks at it only where the
  code evaluates it. The functions of a client and the order in which a hash table is walked are
  parameters.
\<close>

section \<open>Terms and results\<close>

datatype sexp_fn =
    F_and | F_or | F_not | F_lt | F_gt | F_eq | F_plus | F_sub | F_castint | F_caststring | F_if | F_begin
  | F_user string

text \<open>A variable leads to another symbol if its value is a variable; otherwise its value is of no use here.\<close>

datatype esexp_symbol =
    Sym_func string sexp_fn
  | Sym_ifunc string sexp_fn
  | Sym_var string "esexp_symbol option"

text \<open>The last constructor is a term that is marked as a variable but has the fields of a call.\<close>

datatype esexp_term =
    ESEXP_TERM_INT int
  | ESEXP_TERM_BOOL bool
  | ESEXP_TERM_STRING string
  | ESEXP_TERM_TIME int
  | ESEXP_TERM_FUNC esexp_symbol "esexp_term list"
  | ESEXP_TERM_IFUNC esexp_symbol "esexp_term list"
  | ESEXP_TERM_VAR esexp_symbol
  | ESEXP_TERM_VAR_CALL esexp_symbol "esexp_term list"

datatype esexp_result =
    ESEXP_RES_ARRAY_PTR "string list"
  | ESEXP_RES_INT int
  | ESEXP_RES_STRING string
  | ESEXP_RES_BOOL bool
  | ESEXP_RES_TIME int
  | ESEXP_RES_UNDEFINED

datatype result_type = RT_array | RT_int | RT_string | RT_bool | RT_time | RT_undefined

fun result_type_of :: "esexp_result \<Rightarrow> result_type" where
  "result_type_of (ESEXP_RES_ARRAY_PTR a) = RT_array"
| "result_type_of (ESEXP_RES_INT n) = RT_int"
| "result_type_of (ESEXP_RES_STRING s) = RT_string"
| "result_type_of (ESEXP_RES_BOOL b) = RT_bool"
| "result_type_of (ESEXP_RES_TIME t) = RT_time"
| "result_type_of ESEXP_RES_UNDEFINED = RT_undefined"

datatype sexp_error = Fatal string | Wild_pointer

type_synonym 'a res = "sexp_error + 'a"

fun bind_res :: "'a res \<Rightarrow> ('a \<Rightarrow> 'b res) \<Rightarrow> 'b res" where
  "bind_res (Inl e) k = Inl e"
| "bind_res (Inr x) k = k x"

fun all_res :: "'a res list \<Rightarrow> 'a list res" where
  "all_res [] = Inr []"
| "all_res (r # rs) = bind_res r (\<lambda>x. bind_res (all_res rs) (\<lambda>xs. Inr (x # xs)))"

record sexp_env =
  user_func :: "string \<Rightarrow> esexp_result list \<Rightarrow> esexp_result option res"
  user_ifunc :: "string \<Rightarrow> esexp_result res list \<Rightarrow> esexp_result option res"
  ht_foreach :: "(string \<times> int) list \<Rightarrow> (string \<times> int) list"

section \<open>The builtin functions\<close>

text \<open>A \<^verbatim>\<open>GHashTable\<close> from strings to integers, without the order.\<close>

definition ht_get :: "(string \<times> int) list \<Rightarrow> string \<Rightarrow> int" where
  "ht_get ht k = (case map_of ht k of None \<Rightarrow> 0 | Some n \<Rightarrow> n)"

fun and_count :: "(string \<times> int) list \<Rightarrow> string list \<Rightarrow> (string \<times> int) list" where
  "and_count ht [] = ht"
| "and_count ht (k # ks) = and_count (AList.update k (ht_get ht k + 1) ht) ks"

fun and_loop ::
    "esexp_result res list \<Rightarrow> result_type option \<Rightarrow> bool \<Rightarrow> (string \<times> int) list \<Rightarrow> (result_type option \<times> bool \<times> (string \<times> int) list) res" where
  "and_loop [] ty b ht = Inr (ty, b, ht)"
| "and_loop (a # as) ty b ht =
     (if \<not> b then Inr (ty, b, ht)
      else bind_res a (\<lambda>r1.
        (let ty = (case ty of None \<Rightarrow> result_type_of r1 | Some t \<Rightarrow> t)
         in if ty \<noteq> result_type_of r1 then Inl (Fatal ''Invalid types in AND'')
            else (case r1 of
                    ESEXP_RES_ARRAY_PTR a1 \<Rightarrow> and_loop as (Some ty) b (and_count ht a1)
                  | ESEXP_RES_BOOL v \<Rightarrow> and_loop as (Some ty) (b \<and> v) ht
                  | _ \<Rightarrow> and_loop as (Some ty) b ht))))"

definition term_eval_and :: "sexp_env \<Rightarrow> esexp_result res list \<Rightarrow> esexp_result res" where
  "term_eval_and env argv =
     bind_res (and_loop argv None True []) (\<lambda>(ty, b, ht).
       Inr (if ty = Some RT_array
            then ESEXP_RES_ARRAY_PTR (map fst (filter (\<lambda>(k, n). n = int (length argv)) (ht_foreach env ht)))
            else if ty = Some RT_bool then ESEXP_RES_BOOL b
            else ESEXP_RES_UNDEFINED))"

fun or_loop ::
    "esexp_result res list \<Rightarrow> result_type option \<Rightarrow> bool \<Rightarrow> (string \<times> int) list \<Rightarrow> (result_type option \<times> bool \<times> (string \<times> int) list) res" where
  "or_loop [] ty b ht = Inr (ty, b, ht)"
| "or_loop (a # as) ty b ht =
     (if b then Inr (ty, b, ht)
      else bind_res a (\<lambda>r1.
        (let ty = (case ty of None \<Rightarrow> result_type_of r1 | Some t \<Rightarrow> t)
         in if result_type_of r1 \<noteq> ty then Inl (Fatal ''Invalid types in OR'')
            else (case r1 of
                    ESEXP_RES_ARRAY_PTR a1 \<Rightarrow> or_loop as (Some ty) b (fold (\<lambda>k. AList.update k 1) a1 ht)
                  | ESEXP_RES_BOOL v \<Rightarrow> or_loop as (Some ty) (b \<or> v) ht
                  | _ \<Rightarrow> or_loop as (Some ty) b ht))))"

definition term_eval_or :: "sexp_env \<Rightarrow> esexp_result res list \<Rightarrow> esexp_result res" where
  "term_eval_or env argv =
     bind_res (or_loop argv None False []) (\<lambda>(ty, b, ht).
       Inr (if ty = Some RT_array then ESEXP_RES_ARRAY_PTR (map fst (ht_foreach env ht))
            else if ty = Some RT_bool then ESEXP_RES_BOOL b
            else ESEXP_RES_UNDEFINED))"

definition term_eval_not :: "esexp_result list \<Rightarrow> esexp_result res" where
  "term_eval_not argv = Inr (ESEXP_RES_BOOL (\<not> (argv \<noteq> [] \<and> hd argv = ESEXP_RES_BOOL True)))"

text \<open>\<^verbatim>\<open>strcmp\<close>, by octets.\<close>

fun strcmp :: "string \<Rightarrow> string \<Rightarrow> int" where
  "strcmp [] [] = 0"
| "strcmp [] (b # bs) = -1"
| "strcmp (a # as) [] = 1"
| "strcmp (a # as) (b # bs) =
     (if a = b then strcmp as bs else if (of_char a :: nat) < of_char b then -1 else 1)"

text \<open>The two comparisons, with the test on the difference and the name in the message.\<close>

definition term_eval_compare :: "string \<Rightarrow> (int \<Rightarrow> int \<Rightarrow> bool) \<Rightarrow> esexp_result res list \<Rightarrow> esexp_result res" where
  "term_eval_compare op cmp argv =
     (case argv of
        [a1, a2] \<Rightarrow>
          bind_res a1 (\<lambda>r1. bind_res a2 (\<lambda>r2.
            (if result_type_of r1 \<noteq> result_type_of r2 then Inl (Fatal (''Incompatible types in compare '' @ op))
             else (case (r1, r2) of
                     (ESEXP_RES_INT m, ESEXP_RES_INT n) \<Rightarrow> Inr (ESEXP_RES_BOOL (cmp m n))
                   | (ESEXP_RES_TIME m, ESEXP_RES_TIME n) \<Rightarrow> Inr (ESEXP_RES_BOOL (cmp m n))
                   | (ESEXP_RES_STRING s, ESEXP_RES_STRING t) \<Rightarrow> Inr (ESEXP_RES_BOOL (cmp (strcmp s t) 0))
                   | _ \<Rightarrow> Inr ESEXP_RES_UNDEFINED))))
      | _ \<Rightarrow> Inr ESEXP_RES_UNDEFINED)"

definition term_eval_lt :: "esexp_result res list \<Rightarrow> esexp_result res" where
  "term_eval_lt = term_eval_compare ''<'' (<)"

definition term_eval_gt :: "esexp_result res list \<Rightarrow> esexp_result res" where
  "term_eval_gt = term_eval_compare ''>'' (>)"

definition term_eval_eq :: "esexp_result res list \<Rightarrow> esexp_result res" where
  "term_eval_eq argv =
     (case argv of
        [a1, a2] \<Rightarrow>
          bind_res a1 (\<lambda>r1. bind_res a2 (\<lambda>r2.
            Inr (ESEXP_RES_BOOL
              (case (r1, r2) of
                 (ESEXP_RES_INT m, ESEXP_RES_INT n) \<Rightarrow> m = n
               | (ESEXP_RES_BOOL b, ESEXP_RES_BOOL c) \<Rightarrow> b = c
               | (ESEXP_RES_TIME m, ESEXP_RES_TIME n) \<Rightarrow> m = n
               | (ESEXP_RES_STRING s, ESEXP_RES_STRING t) \<Rightarrow> strcmp s t = 0
               | _ \<Rightarrow> False))))
      | _ \<Rightarrow> Inr (ESEXP_RES_BOOL False))"

definition s64 :: "int \<Rightarrow> int" where
  "s64 x = (x + 2 ^ 63) mod 2 ^ 64 - 2 ^ 63"

text \<open>The loops over the rest of the arguments stop at the first one of another type.\<close>

fun fold_ints :: "(int \<Rightarrow> int \<Rightarrow> int) \<Rightarrow> string \<Rightarrow> int \<Rightarrow> esexp_result list \<Rightarrow> int res" where
  "fold_ints op msg n [] = Inr n"
| "fold_ints op msg n (r # rs) = (case r of ESEXP_RES_INT m \<Rightarrow> fold_ints op msg (s32 (op n m)) rs | _ \<Rightarrow> Inl (Fatal msg))"

fun fold_times :: "(int \<Rightarrow> int \<Rightarrow> int) \<Rightarrow> string \<Rightarrow> int \<Rightarrow> esexp_result list \<Rightarrow> int res" where
  "fold_times op msg n [] = Inr n"
| "fold_times op msg n (r # rs) = (case r of ESEXP_RES_TIME m \<Rightarrow> fold_times op msg (s64 (op n m)) rs | _ \<Rightarrow> Inl (Fatal msg))"

fun append_strings :: "string \<Rightarrow> esexp_result list \<Rightarrow> string res" where
  "append_strings s [] = Inr s"
| "append_strings s (r # rs) =
     (case r of ESEXP_RES_STRING t \<Rightarrow> append_strings (s @ t) rs | _ \<Rightarrow> Inl (Fatal ''Invalid types in (+ strings)''))"

definition term_eval_plus :: "esexp_result list \<Rightarrow> esexp_result res" where
  "term_eval_plus argv =
     (case argv of
        ESEXP_RES_INT n # rs \<Rightarrow> bind_res (fold_ints (+) ''Invalid types in (+ ints)'' n rs) (\<lambda>n. Inr (ESEXP_RES_INT n))
      | ESEXP_RES_STRING s # rs \<Rightarrow> bind_res (append_strings s rs) (\<lambda>s. Inr (ESEXP_RES_STRING s))
      | ESEXP_RES_TIME n # rs \<Rightarrow> bind_res (fold_times (+) ''Invalid types in (+ time_t)'' n rs) (\<lambda>n. Inr (ESEXP_RES_TIME n))
      | _ \<Rightarrow> Inr (ESEXP_RES_INT 0))"

definition term_eval_sub :: "esexp_result list \<Rightarrow> esexp_result res" where
  "term_eval_sub argv =
     (case argv of
        ESEXP_RES_INT n # rs \<Rightarrow> bind_res (fold_ints (-) ''Invalid types in -'' n rs) (\<lambda>n. Inr (ESEXP_RES_INT n))
      | ESEXP_RES_TIME n # rs \<Rightarrow> bind_res (fold_times (-) ''Invalid types in (- time_t)'' n rs) (\<lambda>n. Inr (ESEXP_RES_TIME n))
      | _ \<Rightarrow> Inr (ESEXP_RES_INT 0))"

text \<open>\<^verbatim>\<open>strtoul\<close> to base 10 and the \<^verbatim>\<open>%d\<close> of \<^verbatim>\<open>printf\<close>.\<close>

definition digit_value :: "char \<Rightarrow> int" where
  "digit_value c = of_char c - 48"

definition is_digit :: "char \<Rightarrow> bool" where
  "is_digit c \<longleftrightarrow> 0 \<le> digit_value c \<and> digit_value c \<le> 9"

definition is_space :: "char \<Rightarrow> bool" where
  "is_space c \<longleftrightarrow> (of_char c :: nat) = 32 \<or> 9 \<le> (of_char c :: nat) \<and> (of_char c :: nat) \<le> 13"

definition strtoul :: "string \<Rightarrow> int" where
  "strtoul s =
     (let s = dropWhile is_space s;
          neg = (s \<noteq> [] \<and> hd s = CHR ''-'');
          s = (if s \<noteq> [] \<and> (hd s = CHR ''-'' \<or> hd s = CHR ''+'') then tl s else s);
          n = foldl (\<lambda>n c. 10 * n + digit_value c) 0 (takeWhile is_digit s)
      in if n \<ge> 2 ^ 64 then 2 ^ 64 - 1 else if neg then (- n) mod 2 ^ 64 else n)"

function print_nat :: "nat \<Rightarrow> string" where
  "print_nat n = (if n < 10 then [char_of (48 + n)] else print_nat (n div 10) @ [char_of (48 + n mod 10)])"
  by pat_completeness auto
termination by (relation "measure id") auto

declare print_nat.simps [simp del]

definition print_int :: "int \<Rightarrow> string" where
  "print_int n = (if n < 0 then CHR ''-'' # print_nat (nat (- n)) else print_nat (nat n))"

definition term_eval_castint :: "esexp_result list \<Rightarrow> esexp_result res" where
  "term_eval_castint argv =
     (case argv of
        [r] \<Rightarrow>
          (case r of
             ESEXP_RES_INT n \<Rightarrow> Inr (ESEXP_RES_INT n)
           | ESEXP_RES_BOOL b \<Rightarrow> Inr (ESEXP_RES_INT (if b then 1 else 0))
           | ESEXP_RES_STRING s \<Rightarrow> Inr (ESEXP_RES_INT (s32 (strtoul s)))
           | _ \<Rightarrow> Inl (Fatal ''Invalid type in (cast-int )''))
      | _ \<Rightarrow> Inl (Fatal ''Incorrect argument count to (int )''))"

definition term_eval_caststring :: "esexp_result list \<Rightarrow> esexp_result res" where
  "term_eval_caststring argv =
     (case argv of
        [r] \<Rightarrow>
          (case r of
             ESEXP_RES_INT n \<Rightarrow> Inr (ESEXP_RES_STRING (print_int n))
           | ESEXP_RES_BOOL b \<Rightarrow> Inr (ESEXP_RES_STRING (print_int (if b then 1 else 0)))
           | ESEXP_RES_STRING s \<Rightarrow> Inr (ESEXP_RES_STRING s)
           | _ \<Rightarrow> Inl (Fatal ''Invalid type in (int )''))
      | _ \<Rightarrow> Inl (Fatal ''Incorrect argument count to (cast-string )''))"

definition term_eval_if :: "esexp_result res list \<Rightarrow> esexp_result res" where
  "term_eval_if argv =
     (if length argv \<ge> 2 \<and> length argv \<le> 3 then
        bind_res (argv ! 0) (\<lambda>r.
          (if r = ESEXP_RES_BOOL True then argv ! 1
           else if length argv > 2 then argv ! 2
           else Inr ESEXP_RES_UNDEFINED))
      else Inr ESEXP_RES_UNDEFINED)"

fun begin_loop :: "esexp_result \<Rightarrow> esexp_result res list \<Rightarrow> esexp_result res" where
  "begin_loop r [] = Inr r"
| "begin_loop r (a # as) = bind_res a (\<lambda>r. begin_loop r as)"

definition term_eval_begin :: "esexp_result res list \<Rightarrow> esexp_result res" where
  "term_eval_begin argv = begin_loop ESEXP_RES_UNDEFINED argv"

section \<open>Evaluation\<close>

text \<open>The table of the builtin functions, with those that are given their arguments unevaluated.\<close>

definition symbols :: "(string \<times> sexp_fn \<times> bool) list" where
  "symbols =
     [(''and'', F_and, True), (''or'', F_or, True), (''not'', F_not, False), (''<'', F_lt, True), (''>'', F_gt, True),
      (''='', F_eq, True), (''+'', F_plus, False), (''-'', F_sub, False), (''cast-int'', F_castint, False),
      (''cast-string'', F_caststring, False), (''if'', F_if, True), (''begin'', F_begin, True)]"

text \<open>
  A null result of a function of a client is an undefined one. A builtin of the other convention
  would be called with arguments of the wrong type.
\<close>

definition or_undefined :: "esexp_result option res \<Rightarrow> esexp_result res" where
  "or_undefined r = bind_res r (\<lambda>r. Inr (case r of None \<Rightarrow> ESEXP_RES_UNDEFINED | Some r \<Rightarrow> r))"

definition call_func :: "sexp_env \<Rightarrow> sexp_fn \<Rightarrow> esexp_result list \<Rightarrow> esexp_result res" where
  "call_func env fn argv =
     (case fn of
        F_not \<Rightarrow> term_eval_not argv
      | F_plus \<Rightarrow> term_eval_plus argv
      | F_sub \<Rightarrow> term_eval_sub argv
      | F_castint \<Rightarrow> term_eval_castint argv
      | F_caststring \<Rightarrow> term_eval_caststring argv
      | F_user name \<Rightarrow> or_undefined (user_func env name argv)
      | _ \<Rightarrow> Inl Wild_pointer)"

definition call_ifunc :: "sexp_env \<Rightarrow> sexp_fn \<Rightarrow> esexp_result res list \<Rightarrow> esexp_result res" where
  "call_ifunc env fn argv =
     (case fn of
        F_and \<Rightarrow> term_eval_and env argv
      | F_or \<Rightarrow> term_eval_or env argv
      | F_lt \<Rightarrow> term_eval_lt argv
      | F_gt \<Rightarrow> term_eval_gt argv
      | F_eq \<Rightarrow> term_eval_eq argv
      | F_if \<Rightarrow> term_eval_if argv
      | F_begin \<Rightarrow> term_eval_begin argv
      | F_user name \<Rightarrow> or_undefined (user_ifunc env name argv)
      | _ \<Rightarrow> Inl Wild_pointer)"

fun sym_fn :: "esexp_symbol \<Rightarrow> sexp_fn" where
  "sym_fn (Sym_func name fn) = fn"
| "sym_fn (Sym_ifunc name fn) = fn"
| "sym_fn (Sym_var name v) = F_user name"

fun e_sexp_term_eval :: "sexp_env \<Rightarrow> esexp_term \<Rightarrow> esexp_result res" where
  "e_sexp_term_eval env (ESEXP_TERM_STRING s) = Inr (ESEXP_RES_STRING s)"
| "e_sexp_term_eval env (ESEXP_TERM_INT n) = Inr (ESEXP_RES_INT n)"
| "e_sexp_term_eval env (ESEXP_TERM_BOOL b) = Inr (ESEXP_RES_BOOL b)"
| "e_sexp_term_eval env (ESEXP_TERM_TIME t) = Inr (ESEXP_RES_TIME t)"
| "e_sexp_term_eval env (ESEXP_TERM_IFUNC fs ts) = call_ifunc env (sym_fn fs) (map (e_sexp_term_eval env) ts)"
| "e_sexp_term_eval env (ESEXP_TERM_FUNC fs ts) =
     bind_res (all_res (map (e_sexp_term_eval env) ts)) (call_func env (sym_fn fs))"
| "e_sexp_term_eval env (ESEXP_TERM_VAR fs) = Inl (Fatal ''Unknown type in parse tree: 6'')"
| "e_sexp_term_eval env (ESEXP_TERM_VAR_CALL fs ts) = Inl (Fatal ''Unknown type in parse tree: 6'')"

section \<open>Parsing\<close>

text \<open>The tokens of \<^verbatim>\<open>GScanner\<close>, which has looked up the symbols. The end of the list is \<^verbatim>\<open>G_TOKEN_EOF\<close>.\<close>

datatype token =
    G_TOKEN_LEFT_PAREN | G_TOKEN_RIGHT_PAREN | G_TOKEN_STRING string | G_TOKEN_INT nat
  | G_TOKEN_IDENTIFIER string | G_TOKEN_SYMBOL esexp_symbol | G_TOKEN_CHAR char

fun var_base :: "esexp_symbol \<Rightarrow> esexp_symbol res" where
  "var_base (Sym_var name None) = Inl Wild_pointer"
| "var_base (Sym_var name (Some s)) = var_base s"
| "var_base s = Inr s"

text \<open>A new term of the type of the symbol with the fields of a call.\<close>

fun term_call :: "esexp_symbol \<Rightarrow> esexp_symbol \<Rightarrow> esexp_term list \<Rightarrow> esexp_term" where
  "term_call (Sym_func name fn) s ts = ESEXP_TERM_FUNC s ts"
| "term_call (Sym_ifunc name fn) s ts = ESEXP_TERM_IFUNC s ts"
| "term_call (Sym_var name v) s ts = ESEXP_TERM_VAR_CALL s ts"

text \<open>
  The parser takes the tokens and returns a term, or none at the end of the input, and what is left.
  The recursion is bounded by the first argument; \<^const>\<open>None\<close> is that it was not enough.
\<close>

fun parse_value :: "nat \<Rightarrow> token list \<Rightarrow> (esexp_term option \<times> token list) res option"
  and parse_values :: "nat \<Rightarrow> token list \<Rightarrow> (esexp_term list \<times> token list) res option"
  and parse_list :: "nat \<Rightarrow> token list \<Rightarrow> (esexp_term option \<times> token list) res option"
where
  "parse_value 0 toks = None"
| "parse_value (Suc k) toks =
     (case toks of
        [] \<Rightarrow> Some (Inr (None, []))
      | G_TOKEN_LEFT_PAREN # rest \<Rightarrow> parse_list k rest
      | G_TOKEN_STRING s # rest \<Rightarrow> Some (Inr (Some (ESEXP_TERM_STRING s), rest))
      | G_TOKEN_INT n # rest \<Rightarrow> Some (Inr (Some (ESEXP_TERM_INT (s32 (int n))), rest))
      | G_TOKEN_CHAR c # rest \<Rightarrow>
          (if c = CHR ''-'' then
             (case rest of
                G_TOKEN_INT n # rest \<Rightarrow> Some (Inr (Some (ESEXP_TERM_INT (s32 (- s32 (int n)))), rest))
              | _ \<Rightarrow> Some (Inl (Fatal ''Invalid format for a integer value'')))
           else if c = CHR ''#'' then
             (case rest of
                G_TOKEN_IDENTIFIER str # rest \<Rightarrow>
                  (if str = ''t'' \<or> str = ''f'' then Some (Inr (Some (ESEXP_TERM_BOOL (str = ''t'')), rest))
                   else Some (Inl (Fatal ''Invalid format for a boolean value'')))
              | _ \<Rightarrow> Some (Inl (Fatal ''Invalid format for a boolean value'')))
           else Some (Inl (Fatal ''Unexpected token encountered'')))
      | G_TOKEN_SYMBOL s # rest \<Rightarrow>
          (case s of
             Sym_var name v \<Rightarrow> Some (Inr (Some (ESEXP_TERM_VAR s), rest))
           | _ \<Rightarrow>
             (case parse_values k rest of
                None \<Rightarrow> None
              | Some r \<Rightarrow> Some (bind_res r (\<lambda>(ts, rest). Inr (Some (term_call s s ts), rest)))))
      | G_TOKEN_IDENTIFIER name # rest \<Rightarrow> Some (Inl (Fatal (''Unknown identifier: '' @ name)))
      | G_TOKEN_RIGHT_PAREN # rest \<Rightarrow> Some (Inl (Fatal ''Unexpected token encountered'')))"
| "parse_values 0 toks = None"
| "parse_values (Suc k) toks =
     (if toks = [] \<or> hd toks = G_TOKEN_RIGHT_PAREN then Some (Inr ([], toks))
      else (case parse_value k toks of
              None \<Rightarrow> None
            | Some (Inl e) \<Rightarrow> Some (Inl e)
            | Some (Inr (None, rest)) \<Rightarrow> Some (Inl Wild_pointer)
            | Some (Inr (Some t, rest)) \<Rightarrow>
                (case parse_values k rest of
                   None \<Rightarrow> None
                 | Some r \<Rightarrow> Some (bind_res r (\<lambda>(ts, rest). Inr (t # ts, rest))))))"
| "parse_list 0 toks = None"
| "parse_list (Suc k) toks =
     (case toks of
        G_TOKEN_SYMBOL s # rest \<Rightarrow>
          (case var_base s of
             Inl e \<Rightarrow> Some (Inl e)
           | Inr base \<Rightarrow>
               (case parse_values k rest of
                  None \<Rightarrow> None
                | Some r \<Rightarrow>
                    Some (bind_res r (\<lambda>(ts, rest).
                      (case rest of
                         G_TOKEN_RIGHT_PAREN # rest \<Rightarrow> Inr (Some (term_call s base ts), rest)
                       | _ \<Rightarrow> Inl (Fatal ''Missing ')''))))))
      | G_TOKEN_IDENTIFIER name # rest \<Rightarrow> Some (Inl (Fatal (''Unknown identifier: '' @ name)))
      | _ \<Rightarrow> Some (Inl (Fatal ''Unexpected token encountered'')))"

section \<open>The interpreter\<close>

text \<open>
  The tree of an \<^verbatim>\<open>ESExp\<close>, which may have been freed while the pointer to it is kept, and the symbols by
  the key that the scanner files a name under (it does not look at the case), which is a parameter.
  Of the scopes only one is modelled, and a tree has its symbols by value.
\<close>

datatype sexp_tree = No_tree | Tree esexp_term | Freed_tree

record esexp =
  sexp_tree :: sexp_tree
  sexp_error :: "string option"
  sexp_symbols :: "string \<rightharpoonup> esexp_symbol"

definition e_sexp_remove_symbol :: "(string \<Rightarrow> string) \<Rightarrow> esexp \<Rightarrow> string \<Rightarrow> esexp" where
  "e_sexp_remove_symbol key f name = f\<lparr>sexp_symbols := (sexp_symbols f)(key name := None)\<rparr>"

definition e_sexp_add_function :: "(string \<Rightarrow> string) \<Rightarrow> esexp \<Rightarrow> string \<Rightarrow> sexp_fn \<Rightarrow> esexp" where
  "e_sexp_add_function key f name func =
     (let f = e_sexp_remove_symbol key f name
      in f\<lparr>sexp_symbols := (sexp_symbols f)(key name \<mapsto> Sym_func name func)\<rparr>)"

definition e_sexp_add_ifunction :: "(string \<Rightarrow> string) \<Rightarrow> esexp \<Rightarrow> string \<Rightarrow> sexp_fn \<Rightarrow> esexp" where
  "e_sexp_add_ifunction key f name ifunc =
     (let f = e_sexp_remove_symbol key f name
      in f\<lparr>sexp_symbols := (sexp_symbols f)(key name \<mapsto> Sym_ifunc name ifunc)\<rparr>)"

definition e_sexp_add_variable :: "(string \<Rightarrow> string) \<Rightarrow> esexp \<Rightarrow> string \<Rightarrow> esexp_symbol option \<Rightarrow> esexp" where
  "e_sexp_add_variable key f name v = f\<lparr>sexp_symbols := (sexp_symbols f)(key name \<mapsto> Sym_var name v)\<rparr>"

definition e_sexp_init :: "(string \<Rightarrow> string) \<Rightarrow> esexp \<Rightarrow> esexp" where
  "e_sexp_init key f =
     fold (\<lambda>(name, fn, imm) f. if imm then e_sexp_add_ifunction key f name fn else e_sexp_add_function key f name fn) symbols f"

definition e_sexp_new :: "(string \<Rightarrow> string) \<Rightarrow> esexp" where
  "e_sexp_new key = e_sexp_init key \<lparr>sexp_tree = No_tree, sexp_error = None, sexp_symbols = Map.empty\<rparr>"

text \<open>What the scanner does with an identifier that is a symbol.\<close>

definition lookup_token :: "(string \<Rightarrow> string) \<Rightarrow> esexp \<Rightarrow> token \<Rightarrow> token" where
  "lookup_token key f tok =
     (case tok of
        G_TOKEN_IDENTIFIER name \<Rightarrow> (case sexp_symbols f (key name) of None \<Rightarrow> tok | Some s \<Rightarrow> G_TOKEN_SYMBOL s)
      | _ \<Rightarrow> tok)"

text \<open>
  The old tree is freed before the new one is parsed; a fatal error jumps over the assignment, and to
  free a tree again is a wild pointer. The parser is given fuel for the tokens there are.
\<close>

definition e_sexp_parse :: "(string \<Rightarrow> string) \<Rightarrow> esexp \<Rightarrow> token list \<Rightarrow> (int \<times> esexp) res" where
  "e_sexp_parse key f toks =
     (if sexp_tree f = Freed_tree then Inl Wild_pointer
      else (case parse_value (2 * length toks + 1) (map (lookup_token key f) toks) of
              None \<Rightarrow> Inl Wild_pointer
            | Some (Inl Wild_pointer) \<Rightarrow> Inl Wild_pointer
            | Some (Inl (Fatal e)) \<Rightarrow>
                Inr (-1, f\<lparr>sexp_error := Some e, sexp_tree := (if sexp_tree f = No_tree then No_tree else Freed_tree)\<rparr>)
            | Some (Inr (None, rest)) \<Rightarrow> Inr (0, f\<lparr>sexp_tree := No_tree\<rparr>)
            | Some (Inr (Some t, rest)) \<Rightarrow> Inr (0, f\<lparr>sexp_tree := Tree t\<rparr>)))"

text \<open>\<^const>\<open>None\<close> is the result \<^verbatim>\<open>NULL\<close>.\<close>

definition e_sexp_eval :: "sexp_env \<Rightarrow> esexp \<Rightarrow> (esexp_result option \<times> esexp) res" where
  "e_sexp_eval env f =
     (case sexp_tree f of
        No_tree \<Rightarrow> Inr (None, f)
      | Freed_tree \<Rightarrow> Inl Wild_pointer
      | Tree t \<Rightarrow>
          (case e_sexp_term_eval env t of
             Inl (Fatal e) \<Rightarrow> Inr (None, f\<lparr>sexp_error := Some e\<rparr>)
           | Inl Wild_pointer \<Rightarrow> Inl Wild_pointer
           | Inr r \<Rightarrow> Inr (Some r, f)))"

definition e_sexp_finalise :: "esexp \<Rightarrow> esexp res" where
  "e_sexp_finalise f =
     (if sexp_tree f = Freed_tree then Inl Wild_pointer
      else Inr (f\<lparr>sexp_tree := No_tree, sexp_symbols := Map.empty\<rparr>))"

end
