(* ===== verification/E_Sexp_Laws.thy ===== *)
theory E_Sexp_Laws
  imports E_Sexp
begin

text \<open>
  Properties of the search expressions: well-typed terms evaluate without error to a result of their
  type, the logical functions are intersection and union on arrays, and integers survive the casts to a
  string and back.
\<close>

section \<open>Well-typed terms\<close>

text \<open>
  The typing relation; \<open>G\<close> gives the argument and result types of the functions of a client.
\<close>

inductive sexp_typed :: "(string \<Rightarrow> (result_type list \<times> result_type) option) \<Rightarrow> esexp_term \<Rightarrow> result_type \<Rightarrow> bool"
  for G :: "string \<Rightarrow> (result_type list \<times> result_type) option" where
  int_ty: "sexp_typed G (ESEXP_TERM_INT n) RT_int"
| bool_ty: "sexp_typed G (ESEXP_TERM_BOOL b) RT_bool"
| string_ty: "sexp_typed G (ESEXP_TERM_STRING s) RT_string"
| time_ty: "sexp_typed G (ESEXP_TERM_TIME t) RT_time"
| logic_ty: "fn = F_and \<or> fn = F_or \<Longrightarrow> ty = RT_bool \<or> ty = RT_array \<Longrightarrow> ts \<noteq> [] \<Longrightarrow> (\<forall>t\<in>set ts. sexp_typed G t ty) \<Longrightarrow>
    sexp_typed G (ESEXP_TERM_IFUNC (Sym_ifunc name fn) ts) ty"
| not_ty: "(\<forall>t\<in>set ts. \<exists>ty. sexp_typed G t ty) \<Longrightarrow> sexp_typed G (ESEXP_TERM_FUNC (Sym_func name F_not) ts) RT_bool"
| compare_ty: "fn = F_lt \<or> fn = F_gt \<Longrightarrow> ty = RT_int \<or> ty = RT_time \<or> ty = RT_string \<Longrightarrow> sexp_typed G t1 ty \<Longrightarrow> sexp_typed G t2 ty \<Longrightarrow>
    sexp_typed G (ESEXP_TERM_IFUNC (Sym_ifunc name fn) [t1, t2]) RT_bool"
| eq_ty: "sexp_typed G t1 ty1 \<Longrightarrow> sexp_typed G t2 ty2 \<Longrightarrow> sexp_typed G (ESEXP_TERM_IFUNC (Sym_ifunc name F_eq) [t1, t2]) RT_bool"
| arith_ty: "fn = F_plus \<and> (ty = RT_int \<or> ty = RT_string \<or> ty = RT_time) \<or> fn = F_sub \<and> (ty = RT_int \<or> ty = RT_time) \<Longrightarrow>
    ts \<noteq> [] \<Longrightarrow> (\<forall>t\<in>set ts. sexp_typed G t ty) \<Longrightarrow> sexp_typed G (ESEXP_TERM_FUNC (Sym_func name fn) ts) ty"
| cast_ty: "fn = F_castint \<and> ty = RT_int \<or> fn = F_caststring \<and> ty = RT_string \<Longrightarrow> ty1 = RT_int \<or> ty1 = RT_bool \<or> ty1 = RT_string \<Longrightarrow>
    sexp_typed G t ty1 \<Longrightarrow> sexp_typed G (ESEXP_TERM_FUNC (Sym_func name fn) [t]) ty"
| if_ty: "sexp_typed G c ty1 \<Longrightarrow> sexp_typed G t1 ty \<Longrightarrow> sexp_typed G t2 ty \<Longrightarrow>
    sexp_typed G (ESEXP_TERM_IFUNC (Sym_ifunc name F_if) [c, t1, t2]) ty"
| begin_ty: "(\<forall>t\<in>set ts. \<exists>ty. sexp_typed G t ty) \<Longrightarrow> sexp_typed G t ty \<Longrightarrow>
    sexp_typed G (ESEXP_TERM_IFUNC (Sym_ifunc name F_begin) (ts @ [t])) ty"
| user_ty: "G fname = Some (tys, ty) \<Longrightarrow> list_all2 (sexp_typed G) ts tys \<Longrightarrow>
    sexp_typed G (ESEXP_TERM_FUNC (Sym_func name (F_user fname)) ts) ty"

definition env_respects :: "(string \<Rightarrow> (result_type list \<times> result_type) option) \<Rightarrow> sexp_env \<Rightarrow> bool" where
  "env_respects G env \<longleftrightarrow> (\<forall>name tys ty argv. G name = Some (tys, ty) \<longrightarrow> map result_type_of argv = tys \<longrightarrow>
     (\<exists>r. user_func env name argv = Inr (Some r) \<and> result_type_of r = ty))"

text \<open>A value of a type, and that the evaluation gives one.\<close>

definition gives :: "esexp_result res \<Rightarrow> result_type \<Rightarrow> bool" where
  "gives a ty \<longleftrightarrow> (\<exists>r. a = Inr r \<and> result_type_of r = ty)"

lemma result_type_cases [simp]:
  "result_type_of r = RT_array \<longleftrightarrow> (\<exists>a. r = ESEXP_RES_ARRAY_PTR a)"
  "result_type_of r = RT_int \<longleftrightarrow> (\<exists>n. r = ESEXP_RES_INT n)"
  "result_type_of r = RT_string \<longleftrightarrow> (\<exists>s. r = ESEXP_RES_STRING s)"
  "result_type_of r = RT_bool \<longleftrightarrow> (\<exists>b. r = ESEXP_RES_BOOL b)"
  "result_type_of r = RT_time \<longleftrightarrow> (\<exists>t. r = ESEXP_RES_TIME t)"
  by (cases r; simp)+

lemma all_res_gives:
  assumes "list_all2 gives as tys"
  shows "\<exists>rs. all_res as = Inr rs \<and> map result_type_of rs = tys"
  using assms by (induction as tys rule: list_all2_induct) (auto simp: gives_def)

lemma and_loop_gives:
  assumes "\<forall>a\<in>set as. gives a ty" "ty = RT_bool \<or> ty = RT_array" "tyo = None \<or> tyo = Some ty"
  shows "\<exists>tyo' b' ht'. and_loop as tyo b ht = Inr (tyo', b', ht') \<and> (tyo = Some ty \<or> b \<and> as \<noteq> [] \<longrightarrow> tyo' = Some ty)"
  using assms
proof (induction as arbitrary: tyo b ht)
  case (Cons a as)
  obtain r where r: "a = Inr r" "result_type_of r = ty" using Cons.prems(1) by (auto simp: gives_def)
  have t: "(case tyo of None \<Rightarrow> result_type_of r | Some t \<Rightarrow> t) = ty" using Cons.prems(3) r(2) by auto
  have IH: "\<exists>tyo' b' ht'. and_loop as (Some ty) c h = Inr (tyo', b', ht') \<and> tyo' = Some ty" for c h
    using Cons.IH [of "Some ty" c h] Cons.prems by auto
  show ?case
  proof (cases b)
    case False
    then show ?thesis by auto
  next
    case True
    then show ?thesis using r t IH Cons.prems(2) by (auto simp: Let_def)
  qed
qed auto

lemma or_loop_gives:
  assumes "\<forall>a\<in>set as. gives a ty" "ty = RT_bool \<or> ty = RT_array" "tyo = None \<or> tyo = Some ty"
  shows "\<exists>tyo' b' ht'. or_loop as tyo b ht = Inr (tyo', b', ht') \<and> (tyo = Some ty \<or> \<not> b \<and> as \<noteq> [] \<longrightarrow> tyo' = Some ty)"
  using assms
proof (induction as arbitrary: tyo b ht)
  case (Cons a as)
  obtain r where r: "a = Inr r" "result_type_of r = ty" using Cons.prems(1) by (auto simp: gives_def)
  have t: "(case tyo of None \<Rightarrow> result_type_of r | Some t \<Rightarrow> t) = ty" using Cons.prems(3) r(2) by auto
  have IH: "\<exists>tyo' b' ht'. or_loop as (Some ty) c h = Inr (tyo', b', ht') \<and> tyo' = Some ty" for c h
    using Cons.IH [of "Some ty" c h] Cons.prems by auto
  show ?case
  proof (cases b)
    case True
    then show ?thesis by auto
  next
    case False
    then show ?thesis using r t IH Cons.prems(2) by (auto simp: Let_def)
  qed
qed auto

lemma fold_ints_gives: "\<forall>r\<in>set rs. result_type_of r = RT_int \<Longrightarrow> \<exists>n'. fold_ints op msg n rs = Inr n'"
  by (induction rs arbitrary: n) auto

lemma fold_times_gives: "\<forall>r\<in>set rs. result_type_of r = RT_time \<Longrightarrow> \<exists>n'. fold_times op msg n rs = Inr n'"
  by (induction rs arbitrary: n) auto

lemma append_strings_gives: "\<forall>r\<in>set rs. result_type_of r = RT_string \<Longrightarrow> \<exists>s'. append_strings s rs = Inr s'"
  by (induction rs arbitrary: s) auto

lemma begin_loop_gives:
  "\<forall>a\<in>set as. \<exists>ty. gives a ty \<Longrightarrow> gives a ty \<Longrightarrow> gives (begin_loop r (as @ [a])) ty"
  by (induction as arbitrary: r) (auto simp: gives_def)

lemma logic_gives:
  assumes "fn = F_and \<or> fn = F_or" "ty = RT_bool \<or> ty = RT_array" "as \<noteq> []" "\<forall>a\<in>set as. gives a ty"
  shows "gives (call_ifunc env fn as) ty"
  using assms(1)
proof
  assume "fn = F_and"
  then show ?thesis using and_loop_gives [OF assms(4,2), of None True "[]"] assms(2,3)
    by (auto simp: call_ifunc_def term_eval_and_def gives_def)
next
  assume "fn = F_or"
  then show ?thesis using or_loop_gives [OF assms(4,2), of None False "[]"] assms(2,3)
    by (auto simp: call_ifunc_def term_eval_or_def gives_def)
qed

lemma arith_gives:
  assumes "fn = F_plus \<and> (ty = RT_int \<or> ty = RT_string \<or> ty = RT_time) \<or> fn = F_sub \<and> (ty = RT_int \<or> ty = RT_time)"
    "rs \<noteq> []" "\<forall>r\<in>set rs. result_type_of r = ty"
  shows "gives (call_func env fn rs) ty"
proof -
  obtain r rs' where r: "rs = r # rs'" "result_type_of r = ty" "\<forall>r\<in>set rs'. result_type_of r = ty" using assms(2,3) by (cases rs) auto
  consider "ty = RT_int" | "ty = RT_string" "fn = F_plus" | "ty = RT_time" using assms(1) by blast
  then show ?thesis
  proof cases
    case 1
    then obtain n where n: "r = ESEXP_RES_INT n" using r(2) by auto
    have "\<exists>n'. fold_ints op msg n rs' = Inr n'" for op msg using fold_ints_gives r(3) 1 by simp
    then show ?thesis using assms(1) 1 n r(1) by (auto simp: call_func_def term_eval_plus_def term_eval_sub_def gives_def) (metis bind_res.simps(2))+
  next
    case 2
    then obtain t where n: "r = ESEXP_RES_STRING t" using r(2) by auto
    obtain u where "append_strings t rs' = Inr u" using append_strings_gives [of rs' t] r(3) 2 by auto
    then show ?thesis using 2 n r(1) by (auto simp: call_func_def term_eval_plus_def gives_def)
  next
    case 3
    then obtain n where n: "r = ESEXP_RES_TIME n" using r(2) by auto
    have "\<exists>n'. fold_times op msg n rs' = Inr n'" for op msg using fold_times_gives r(3) 3 by simp
    then show ?thesis using assms(1) 3 n r(1) by (auto simp: call_func_def term_eval_plus_def term_eval_sub_def gives_def) (metis bind_res.simps(2))+
  qed
qed

lemma func_gives:
  assumes "list_all2 (\<lambda>t ty. gives (e_sexp_term_eval env t) ty) ts tys"
    "\<And>rs. map result_type_of rs = tys \<Longrightarrow> gives (call_func env fn rs) ty"
  shows "gives (e_sexp_term_eval env (ESEXP_TERM_FUNC (Sym_func name fn) ts)) ty"
proof -
  have "list_all2 gives (map (e_sexp_term_eval env) ts) tys" using assms(1) by (simp add: list_all2_map1)
  then obtain rs where "all_res (map (e_sexp_term_eval env) ts) = Inr rs" "map result_type_of rs = tys"
    using all_res_gives by blast
  then show ?thesis using assms(2) by simp
qed

lemma well_typed_gives:
  assumes "sexp_typed G t ty" "env_respects G env"
  shows "gives (e_sexp_term_eval env t) ty"
  using assms(1)
proof (induction rule: sexp_typed.induct)
  case (logic_ty fn ty ts name)
  then show ?case using logic_gives [of fn ty "map (e_sexp_term_eval env) ts" env] by auto
next
  case (not_ty ts name)
  then obtain tyf where "\<forall>t\<in>set ts. gives (e_sexp_term_eval env t) (tyf t)" by metis
  then have "list_all2 (\<lambda>t ty. gives (e_sexp_term_eval env t) ty) ts (map tyf ts)" by (simp add: list_all2_map2 list_all2_same)
  then show ?case by (rule func_gives) (simp add: call_func_def term_eval_not_def gives_def)
next
  case (compare_ty fn ty t1 t2 name)
  then show ?case
    by (auto simp: gives_def call_ifunc_def term_eval_lt_def term_eval_gt_def term_eval_compare_def)
next
  case (eq_ty t1 ty1 t2 ty2 name)
  then show ?case by (auto simp: gives_def call_ifunc_def term_eval_eq_def)
next
  case (arith_ty fn ty ts name)
  have "list_all2 (\<lambda>t ty. gives (e_sexp_term_eval env t) ty) ts (replicate (length ts) ty)"
    using arith_ty(3) by (auto simp: list_all2_conv_all_nth)
  then show ?case
  proof (rule func_gives)
    fix rs assume rs: "map result_type_of rs = replicate (length ts) ty"
    then have "rs \<noteq> []" using arith_ty(2) by auto
    moreover have "\<forall>r\<in>set rs. result_type_of r = ty" using rs by (metis in_set_replicate list.set_map imageI)
    ultimately show "gives (call_func env fn rs) ty" using arith_gives [OF arith_ty(1)] by blast
  qed
next
  case (cast_ty fn ty ty1 t name)
  have "list_all2 (\<lambda>t ty. gives (e_sexp_term_eval env t) ty) [t] [ty1]" using cast_ty by simp
  then show ?case
    by (rule func_gives) (use cast_ty(1,2) in \<open>auto simp: call_func_def term_eval_castint_def term_eval_caststring_def gives_def map_eq_Cons_conv\<close>)
next
  case (if_ty c ty1 t1 ty t2 name)
  then show ?case by (auto simp: gives_def call_ifunc_def term_eval_if_def)
next
  case (begin_ty ts t ty name)
  then have "\<forall>a\<in>set (map (e_sexp_term_eval env) ts). \<exists>ty. gives a ty" by auto
  from begin_loop_gives [OF this begin_ty.IH(2)] show ?case by (simp add: call_ifunc_def term_eval_begin_def)
next
  case (user_ty fname tys ty ts name)
  have "list_all2 (\<lambda>t ty. gives (e_sexp_term_eval env t) ty) ts tys"
    using user_ty(2) by (rule list_all2_mono) simp
  then show ?case
  proof (rule func_gives)
    fix rs assume "map result_type_of rs = tys"
    then obtain r where "user_func env fname rs = Inr (Some r)" "result_type_of r = ty"
      using assms(2) user_ty(1) unfolding env_respects_def by blast
    then show "gives (call_func env (F_user fname) rs) ty" by (simp add: call_func_def or_undefined_def gives_def)
  qed
qed (simp_all add: gives_def)

text \<open>
  C6. A well-typed expression evaluates without a fatal error to a result of its type, if the
  functions of the client respect their types.
\<close>

theorem sexp_type_sound:
  assumes "sexp_typed G t ty" "env_respects G env"
  shows "\<exists>r. e_sexp_term_eval env t = Inr r \<and> result_type_of r = ty"
  using well_typed_gives [OF assms] by (simp add: gives_def)

definition sample_env :: sexp_env where
  "sample_env = \<lparr>user_func = (\<lambda>name argv. Inr (Some (ESEXP_RES_BOOL (argv = [ESEXP_RES_STRING ''x''])))),
     user_ifunc = (\<lambda>name argv. Inr None), ht_foreach = (\<lambda>ht. ht)\<rparr>"

definition sample_query :: esexp_term where
  "sample_query = ESEXP_TERM_IFUNC (Sym_ifunc ''and'' F_and)
     [ESEXP_TERM_FUNC (Sym_func ''contains'' (F_user ''contains'')) [ESEXP_TERM_STRING ''x''],
      ESEXP_TERM_IFUNC (Sym_ifunc ''<'' F_lt) [ESEXP_TERM_INT 1, ESEXP_TERM_FUNC (Sym_func ''+'' F_plus) [ESEXP_TERM_INT 1, ESEXP_TERM_INT 1]]]"

definition sample_types :: "string \<Rightarrow> (result_type list \<times> result_type) option" where
  "sample_types name = (if name = ''contains'' then Some ([RT_string], RT_bool) else None)"

lemma sample_query_typed: "sexp_typed sample_types sample_query RT_bool" "env_respects sample_types sample_env"
proof -
  have "sexp_typed sample_types (ESEXP_TERM_FUNC (Sym_func ''contains'' (F_user ''contains'')) [ESEXP_TERM_STRING ''x'']) RT_bool"
    by (rule user_ty [where tys = "[RT_string]"]) (simp_all add: string_ty sample_types_def)
  moreover have "sexp_typed sample_types (ESEXP_TERM_FUNC (Sym_func ''+'' F_plus) [ESEXP_TERM_INT 1, ESEXP_TERM_INT 1]) RT_int"
    by (rule arith_ty) (simp_all add: int_ty)
  ultimately show "sexp_typed sample_types sample_query RT_bool"
    unfolding sample_query_def by (intro logic_ty) (auto intro: compare_ty int_ty)
qed (simp add: env_respects_def sample_env_def sample_types_def)

theorem sexp_type_sound_witness:
  "\<exists>r. e_sexp_term_eval sample_env sample_query = Inr r \<and> result_type_of r = RT_bool"
  by (rule sexp_type_sound [OF sample_query_typed])

section \<open>Arrays\<close>

lemma ht_get_update: "ht_get (AList.update k n ht) j = (if j = k then n else ht_get ht j)"
  by (simp add: ht_get_def update_conv')

lemma and_count_get:
  "ht_get (and_count ht ks) k = ht_get ht k + int (count_list ks k)"
  by (induction ks arbitrary: ht) (simp_all add: ht_get_update)

lemma and_count_keys:
  "distinct (map fst ht) \<Longrightarrow> distinct (map fst (and_count ht ks)) \<and> fst ` set (and_count ht ks) = fst ` set ht \<union> set ks"
  by (induction ks arbitrary: ht) (auto simp: distinct_update dom_update)

lemma count_list_distinct: "distinct a \<Longrightarrow> count_list a k = (if k \<in> set a then 1 else 0)"
  by (induction a) auto

definition and_table :: "string list list \<Rightarrow> (string \<times> int) list \<Rightarrow> (string \<times> int) list" where
  "and_table as ht = fold (\<lambda>a h. and_count h a) as ht"

lemma and_loop_arrays:
  "tyo = None \<or> tyo = Some RT_array \<Longrightarrow>
    and_loop (map (\<lambda>a. Inr (ESEXP_RES_ARRAY_PTR a)) as) tyo True ht = Inr (if as = [] then tyo else Some RT_array, True, and_table as ht)"
  by (induction as arbitrary: tyo ht) (auto simp: and_table_def Let_def split: option.splits)

lemma and_table_keys:
  "distinct (map fst ht) \<Longrightarrow> distinct (map fst (and_table as ht)) \<and> fst ` set (and_table as ht) = fst ` set ht \<union> (\<Union>a\<in>set as. set a)"
proof (induction as arbitrary: ht)
  case (Cons a as)
  then show ?case using and_count_keys [OF Cons.prems, of a] Cons.IH [of "and_count ht a"] by (auto simp: and_table_def)
qed (simp add: and_table_def)

lemma and_table_get:
  "\<forall>a\<in>set as. distinct a \<Longrightarrow> ht_get (and_table as ht) k = ht_get ht k + int (length (filter (\<lambda>a. k \<in> set a) as))"
proof (induction as arbitrary: ht)
  case (Cons a as)
  have "count_list a k = (if k \<in> set a then 1 else 0)" using Cons.prems by (simp add: count_list_distinct)
  then show ?case using Cons by (simp add: and_table_def and_count_get)
qed (simp add: and_table_def)

definition or_table :: "string list list \<Rightarrow> (string \<times> int) list \<Rightarrow> (string \<times> int) list" where
  "or_table as ht = fold (\<lambda>a. fold (\<lambda>k. AList.update k 1) a) as ht"

lemma or_loop_arrays:
  "tyo = None \<or> tyo = Some RT_array \<Longrightarrow>
    or_loop (map (\<lambda>a. Inr (ESEXP_RES_ARRAY_PTR a)) as) tyo False ht = Inr (if as = [] then tyo else Some RT_array, False, or_table as ht)"
  by (induction as arbitrary: tyo ht) (auto simp: or_table_def Let_def split: option.splits)

lemma or_insert_keys:
  "distinct (map fst ht) \<Longrightarrow> distinct (map fst (fold (\<lambda>k. AList.update k (1 :: int)) ks ht))
    \<and> fst ` set (fold (\<lambda>k. AList.update k 1) ks ht) = fst ` set ht \<union> set ks"
  by (induction ks arbitrary: ht) (auto simp: distinct_update dom_update)

lemma or_table_keys:
  "distinct (map fst ht) \<Longrightarrow> distinct (map fst (or_table as ht)) \<and> fst ` set (or_table as ht) = fst ` set ht \<union> (\<Union>a\<in>set as. set a)"
proof (induction as arbitrary: ht)
  case (Cons a as)
  then show ?case using or_insert_keys [OF Cons.prems, of a] Cons.IH [of "fold (\<lambda>k. AList.update k 1) a ht"] by (auto simp: or_table_def)
qed (simp add: or_table_def)

lemma ht_get_iff: "distinct (map fst ht) \<Longrightarrow> (k, n) \<in> set ht \<longleftrightarrow> k \<in> fst ` set ht \<and> ht_get ht k = n"
proof
  assume d: "distinct (map fst ht)" and "(k, n) \<in> set ht"
  then show "k \<in> fst ` set ht \<and> ht_get ht k = n" by (force simp: ht_get_def)
next
  assume d: "distinct (map fst ht)" and k: "k \<in> fst ` set ht \<and> ht_get ht k = n"
  then obtain m where m: "(k, m) \<in> set ht" by auto
  with d have "map_of ht k = Some m" by simp
  with k m show "(k, n) \<in> set ht" by (simp add: ht_get_def)
qed

text \<open>
  C37. On arrays without repetitions the conjunction is the intersection, and the disjunction the
  union, in an order the hash table decides.
\<close>

theorem and_or_arrays:
  assumes "as \<noteq> []" "\<forall>a\<in>set as. distinct a" "\<forall>ht. mset (ht_foreach env ht) = mset ht"
  shows "(\<exists>xs. term_eval_and env (map (\<lambda>a. Inr (ESEXP_RES_ARRAY_PTR a)) as) = Inr (ESEXP_RES_ARRAY_PTR xs)
      \<and> distinct xs \<and> set xs = (\<Inter>a\<in>set as. set a))
    \<and> (\<exists>ys. term_eval_or env (map (\<lambda>a. Inr (ESEXP_RES_ARRAY_PTR a)) as) = Inr (ESEXP_RES_ARRAY_PTR ys)
      \<and> distinct ys \<and> set ys = (\<Union>a\<in>set as. set a))"
proof (intro conjI)
  have perm: "set (ht_foreach env ht) = set ht" "distinct (map fst (ht_foreach env ht)) \<longleftrightarrow> distinct (map fst ht)" for ht
    using assms(3) by (metis set_mset_mset, metis mset_eq_imp_distinct_iff mset_map)
  let ?t = "and_table as []" and ?o = "or_table as []"
  let ?xs = "map fst (filter (\<lambda>(k, n). n = int (length as)) (ht_foreach env ?t))"
  have t: "distinct (map fst ?t)" "fst ` set ?t = (\<Union>a\<in>set as. set a)" using and_table_keys [of "[]" as] by auto
  have get: "ht_get ?t k = int (length as) \<longleftrightarrow> (\<forall>a\<in>set as. k \<in> set a)" for k
    using and_table_get [OF assms(2), of "[]" k] length_filter_less [of _ as "\<lambda>a. k \<in> set a"]
    by (auto simp: ht_get_def filter_id_conv [THEN iffD2] dest: less_imp_neq)
  have "set ?xs = (\<Inter>a\<in>set as. set a)"
    using ht_get_iff [OF t(1)] t(2) get assms(1) by (fastforce simp: perm(1) image_iff neq_Nil_conv)
  moreover have "distinct ?xs" using perm(2) [of ?t] t(1) by (simp add: distinct_map inj_on_def filter_set)
  moreover have "term_eval_and env (map (\<lambda>a. Inr (ESEXP_RES_ARRAY_PTR a)) as) = Inr (ESEXP_RES_ARRAY_PTR ?xs)"
    using and_loop_arrays [of None as "[]"] assms(1) by (simp add: term_eval_and_def)
  ultimately show "\<exists>xs. term_eval_and env (map (\<lambda>a. Inr (ESEXP_RES_ARRAY_PTR a)) as) = Inr (ESEXP_RES_ARRAY_PTR xs)
      \<and> distinct xs \<and> set xs = (\<Inter>a\<in>set as. set a)" by blast
  have o: "distinct (map fst ?o)" "fst ` set ?o = (\<Union>a\<in>set as. set a)" using or_table_keys [of "[]" as] by auto
  then show "\<exists>ys. term_eval_or env (map (\<lambda>a. Inr (ESEXP_RES_ARRAY_PTR a)) as) = Inr (ESEXP_RES_ARRAY_PTR ys)
      \<and> distinct ys \<and> set ys = (\<Union>a\<in>set as. set a)"
    using or_loop_arrays [of None as "[]"] assms(1) perm [of ?o] by (simp add: term_eval_or_def)
qed

theorem and_or_arrays_witness:
  "(\<exists>xs. term_eval_and sample_env (map (\<lambda>a. Inr (ESEXP_RES_ARRAY_PTR a)) [[''1'', ''2''], [''2'', ''3'']]) = Inr (ESEXP_RES_ARRAY_PTR xs)
      \<and> distinct xs \<and> set xs = (\<Inter>a\<in>set [[''1'', ''2''], [''2'', ''3'']]. set a))
    \<and> (\<exists>ys. term_eval_or sample_env (map (\<lambda>a. Inr (ESEXP_RES_ARRAY_PTR a)) [[''1'', ''2''], [''2'', ''3'']]) = Inr (ESEXP_RES_ARRAY_PTR ys)
      \<and> distinct ys \<and> set ys = (\<Union>a\<in>set [[''1'', ''2''], [''2'', ''3'']]. set a))"
  by (rule and_or_arrays) (simp_all add: sample_env_def)

section \<open>Casts\<close>

lemma digit_value_nat: "digit_value c = int (of_char c) - 48"
  by (simp add: digit_value_def of_nat_of_char)

lemma char_digit: "n < 10 \<Longrightarrow> is_digit (char_of (48 + n :: nat)) \<and> digit_value (char_of (48 + n)) = int n"
  by (simp add: is_digit_def digit_value_nat of_char_of)

lemma print_nat_digits: "\<forall>c\<in>set (print_nat n). is_digit c"
  by (induction n rule: print_nat.induct) (subst print_nat.simps, auto simp: char_digit)

lemma print_nat_value: "foldl (\<lambda>n c. 10 * n + digit_value c) 0 (print_nat n) = int n"
proof (induction n rule: print_nat.induct)
  case (1 n)
  have "10 * int (n div 10) + int (n mod 10) = int n" by presburger
  with 1 show ?case by (subst print_nat.simps) (simp add: char_digit)
qed

lemma print_nat_start: "\<exists>c cs. print_nat n = c # cs \<and> is_digit c"
  using print_nat_digits [of n] by (cases "print_nat n") (auto simp: print_nat.simps [of n] split: if_splits)

lemma digit_start: "is_digit c \<Longrightarrow> \<not> is_space c \<and> c \<noteq> CHR ''-'' \<and> c \<noteq> CHR ''+''"
  by (auto simp: is_digit_def is_space_def digit_value_nat)

lemma takeWhile_print_nat: "takeWhile is_digit (print_nat n) = print_nat n"
  using print_nat_digits [of n] by simp

lemma strtoul_print:
  assumes "- (2 ^ 64) < n" "n < 2 ^ 64"
  shows "strtoul (print_int n) = n mod 2 ^ 64"
proof (cases "n < 0")
  case True
  have "\<not> is_space CHR ''-''" by (simp add: is_space_def)
  with True assms show ?thesis
    by (simp add: strtoul_def print_int_def takeWhile_print_nat print_nat_value)
next
  case False
  obtain c cs where c: "print_nat (nat n) = c # cs" "is_digit c" using print_nat_start by blast
  then have "strtoul (c # cs) = n" using takeWhile_print_nat [of "nat n"] print_nat_value [of "nat n"] digit_start [OF c(2)] False assms(2)
    by (simp add: strtoul_def Let_def takeWhile_eq_all_conv [THEN iffD2])
  with False assms(2) c(1) show ?thesis by (simp add: print_int_def)
qed

lemma mod_mod_add: "d dvd m \<Longrightarrow> (n mod m + c) mod d = (n + c) mod d" for n :: int
  by (metis mod_add_left_eq mod_mod_cancel)

text \<open>
  An integer that is cast to a string and back is the same, the least one too, and a string of
  digits is not changed by the casts to an integer and back.
\<close>

theorem cast_round_trip:
  assumes "- (2 ^ 31) \<le> n" "n < 2 ^ 31"
  shows "bind_res (term_eval_caststring [ESEXP_RES_INT n]) (\<lambda>r. term_eval_castint [r]) = Inr (ESEXP_RES_INT n)
    \<and> bind_res (term_eval_castint [ESEXP_RES_STRING (print_int n)]) (\<lambda>r. term_eval_caststring [r]) = Inr (ESEXP_RES_STRING (print_int n))"
proof -
  have "strtoul (print_int n) = n mod 2 ^ 64" using assms by (intro strtoul_print) auto
  moreover have "s32 (n mod 2 ^ 64) = n"
    using mod_mod_add [of 4294967296 "2 ^ 64" n 2147483648] assms by (simp add: s32_def)
  ultimately show ?thesis by (simp add: term_eval_castint_def term_eval_caststring_def)
qed

theorem cast_round_trip_witness:
  "bind_res (term_eval_caststring [ESEXP_RES_INT (- 2147483648)]) (\<lambda>r. term_eval_castint [r]) = Inr (ESEXP_RES_INT (- 2147483648))
    \<and> bind_res (term_eval_castint [ESEXP_RES_STRING (print_int (- 2147483648))]) (\<lambda>r. term_eval_caststring [r])
      = Inr (ESEXP_RES_STRING (print_int (- 2147483648)))"
  by (rule cast_round_trip) simp_all

end
