(* ===== verification/Camel_Url.thy ===== *)
theory Camel_Url
  imports E_Sexp_Laws "HOL-Library.Word"
begin

text \<open>
  URLs, \<^verbatim>\<open>camel/camel-url.c\<close>: parsing, resolution against a base, printing, percent encoding and the
  functions for hash tables. A C string is the list of its characters without the NUL and a pointer into
  it the string from there on or an offset; \<^verbatim>\<open>end - url_string\<close> is a length. The character classes are
  those of the C locale. A \<^verbatim>\<open>GData\<close> is the list of its entries in the order in which
  \<^verbatim>\<open>g_datalist_foreach\<close> visits them, which GLib does not document: \<^verbatim>\<open>g_datalist_set_data_full\<close> and the hash
  function of strings are parameters. An access outside of a buffer is the error \<open>OUTSIDE_BUFFER\<close>.
  The branches for Windows are not modelled.
\<close>

unbundle bit_operations_syntax

type_synonym gdata = "(string \<times> string) list"

record camel_url =
  url_protocol :: "string option"
  url_user :: "string option"
  url_authmech :: "string option"
  url_passwd :: "string option"
  url_host :: "string option"
  url_port :: int
  url_path :: "string option"
  url_params :: gdata
  url_query :: "string option"
  url_fragment :: "string option"

datatype url_error = URL_NULL | CAMEL_EXCEPTION_SERVICE_URL_INVALID string | OUTSIDE_BUFFER

definition url_new0 :: camel_url where
  "url_new0 = \<lparr>url_protocol = None, url_user = None, url_authmech = None, url_passwd = None, url_host = None,
     url_port = 0, url_path = None, url_params = [], url_query = None, url_fragment = None\<rparr>"

section \<open>Characters and searches\<close>

definition strchr :: "string \<Rightarrow> char \<Rightarrow> nat option" where
  "strchr s c = (if c \<in> set s then Some (length (takeWhile (\<lambda>x. x \<noteq> c) s)) else None)"

definition strcspn :: "string \<Rightarrow> string \<Rightarrow> nat" where
  "strcspn s reject = length (takeWhile (\<lambda>x. x \<notin> set reject) s)"

definition is_upper :: "char \<Rightarrow> bool" where
  "is_upper c \<longleftrightarrow> (65 :: nat) \<le> of_char c \<and> (of_char c :: nat) \<le> 90"

definition is_lower :: "char \<Rightarrow> bool" where
  "is_lower c \<longleftrightarrow> (97 :: nat) \<le> of_char c \<and> (of_char c :: nat) \<le> 122"

definition is_alnum :: "char \<Rightarrow> bool" where
  "is_alnum c \<longleftrightarrow> is_digit c \<or> is_upper c \<or> is_lower c"

definition is_xdigit :: "char \<Rightarrow> bool" where
  "is_xdigit c \<longleftrightarrow> is_digit c \<or> (65 :: nat) \<le> of_char c \<and> (of_char c :: nat) \<le> 70 \<or> (97 :: nat) \<le> of_char c \<and> (of_char c :: nat) \<le> 102"

definition camel_strdown :: "string \<Rightarrow> string" where
  "camel_strdown = map (\<lambda>c. if is_upper c then char_of (of_char c + 0x20 :: nat) else c)"

section \<open>Percent encoding\<close>

text \<open>The characters that are always encoded.\<close>

definition url_encoded_char :: "nat list" where
  "url_encoded_char =
     [1, 1, 1, 1, 1, 1, 1, 1, 1, 1, 1, 1, 1, 1, 1, 1,
      1, 1, 1, 1, 1, 1, 1, 1, 1, 1, 1, 1, 1, 1, 1, 1,
      1, 0, 1, 1, 0, 1, 0, 0, 0, 0, 0, 0, 0, 0, 0, 0,
      0, 0, 0, 0, 0, 0, 0, 0, 0, 0, 0, 0, 1, 0, 1, 0,
      0, 0, 0, 0, 0, 0, 0, 0, 0, 0, 0, 0, 0, 0, 0, 0,
      0, 0, 0, 0, 0, 0, 0, 0, 0, 0, 0, 1, 1, 1, 1, 0,
      1, 0, 0, 0, 0, 0, 0, 0, 0, 0, 0, 0, 0, 0, 0, 0,
      0, 0, 0, 0, 0, 0, 0, 0, 0, 0, 0, 1, 1, 1, 0, 1] @ replicate 128 1"

definition hex_digit :: "nat \<Rightarrow> char" where
  "hex_digit n = char_of (if n < 10 then 48 + n else 87 + n)"

definition needs_encoding :: "string \<Rightarrow> char \<Rightarrow> bool" where
  "needs_encoding extra_enc_chars c \<longleftrightarrow> url_encoded_char ! of_char c \<noteq> 0 \<or> strchr extra_enc_chars c \<noteq> None"

fun append_url_encoded :: "string \<Rightarrow> string \<Rightarrow> string \<Rightarrow> string" where
  "append_url_encoded str [] extra_enc_chars = str"
| "append_url_encoded str (c # s) extra_enc_chars =
     append_url_encoded
       (str @ (if needs_encoding extra_enc_chars c
               then [CHR ''%'', hex_digit (of_char c div 16), hex_digit (of_char c mod 16)] else [c]))
       s extra_enc_chars"

definition camel_url_encode :: "string \<Rightarrow> string \<Rightarrow> string" where
  "camel_url_encode part escape_extra = append_url_encoded [] part escape_extra"

definition XDIGIT :: "char \<Rightarrow> int" where
  "XDIGIT c = (if of_char c \<le> (0x39 :: int) then of_char c - 0x30 else (of_char c AND 0x4F) - 0x41 + 10)"

fun url_decode_loop :: "string \<Rightarrow> string" where
  "url_decode_loop (c # d # e # s) =
     (if c = CHR ''%'' \<and> is_xdigit d \<and> is_xdigit e
      then char_of (push_bit 4 (XDIGIT d) + XDIGIT e) # url_decode_loop s
      else c # url_decode_loop (d # e # s))"
| "url_decode_loop s = s"

text \<open>In place: the string that is left ends at the first NUL of the buffer, one that was decoded too.\<close>

definition camel_url_decode :: "string \<Rightarrow> string" where
  "camel_url_decode part = takeWhile (\<lambda>c. c \<noteq> CHR 0x00) (url_decode_loop part)"

section \<open>Parsing\<close>

definition protocol_char :: "char \<Rightarrow> bool" where
  "protocol_char c \<longleftrightarrow> is_alnum c \<or> c = CHR ''.'' \<or> c = CHR ''+'' \<or> c = CHR ''-''"

text \<open>The protocol and the string from \<^verbatim>\<open>url_string\<close> on; the loop stops at \<^verbatim>\<open>#\<close>, which is no such character.\<close>

definition parse_protocol :: "string \<Rightarrow> camel_url \<Rightarrow> string \<times> camel_url" where
  "parse_protocol url_string url =
     (let p = takeWhile protocol_char url_string; r = drop (length p) url_string
      in if p \<noteq> [] \<and> r \<noteq> [] \<and> hd r = CHR '':''
         then (tl r, url\<lparr>url_protocol := Some (camel_strdown p)\<rparr>) else (url_string, url))"

text \<open>The user, mechanism and password before an \<^verbatim>\<open>at\<close> sign, with the string behind it and the offset of \<^verbatim>\<open>slash\<close> there.\<close>

definition parse_userinfo :: "string \<Rightarrow> nat \<Rightarrow> camel_url \<Rightarrow> string \<times> nat \<times> camel_url" where
  "parse_userinfo url_string slash url =
     (case strchr url_string CHR ''@'' of
        Some at \<Rightarrow>
          (if at < slash then
             (let (passwd, colon) =
                    (case strchr url_string CHR '':'' of
                       Some colon \<Rightarrow>
                         (if colon < at
                          then (Some (camel_url_decode (take (at - colon - 1) (drop (colon + 1) url_string))), colon)
                          else (None, at))
                     | None \<Rightarrow> (None, at));
                  (authmech, semi) =
                    (case strchr url_string CHR '';'' of
                       Some semi \<Rightarrow>
                         (if semi < colon \<and> camel_strdown (take 6 (drop semi url_string)) = '';auth=''
                          then (Some (camel_url_decode (take (colon - semi - 6) (drop (semi + 6) url_string))), semi)
                          else (None, colon))
                     | None \<Rightarrow> (None, colon))
              in (drop (at + 1) url_string, slash - (at + 1),
                  url\<lparr>url_passwd := passwd, url_authmech := authmech,
                      url_user := Some (camel_url_decode (take semi url_string))\<rparr>))
           else (url_string, slash, url\<lparr>url_user := None, url_passwd := None, url_authmech := None\<rparr>))
      | None \<Rightarrow> (url_string, slash, url\<lparr>url_user := None, url_passwd := None, url_authmech := None\<rparr>))"

definition parse_host :: "string \<Rightarrow> nat \<Rightarrow> camel_url \<Rightarrow> camel_url" where
  "parse_host url_string slash url =
     (case strchr url_string CHR '':'' of
        Some colon \<Rightarrow>
          (if colon < slash
           then url\<lparr>url_host := Some (take colon url_string), url_port := s32 (strtoul (drop (colon + 1) url_string))\<rparr>
           else url\<lparr>url_host := Some (camel_url_decode (take slash url_string)), url_port := 0\<rparr>)
      | None \<Rightarrow> url\<lparr>url_host := Some (camel_url_decode (take slash url_string)), url_port := 0\<rparr>)"

definition parse_authority :: "string \<Rightarrow> camel_url \<Rightarrow> string \<times> camel_url" where
  "parse_authority url_string url =
     (if take 2 url_string = ''//'' then
        (let url_string = drop 2 url_string;
             (url_string, slash, url) = parse_userinfo url_string (strcspn url_string ''/#'') url
         in (drop slash url_string, parse_host url_string slash url))
      else (url_string, url))"

text \<open>The loop over the parameters, from \<^verbatim>\<open>cur\<close> up to \<^verbatim>\<open>end\<close>.\<close>

function parse_params :: "(gdata \<Rightarrow> string \<Rightarrow> string \<Rightarrow> gdata) \<Rightarrow> string \<Rightarrow> gdata \<Rightarrow> gdata" where
  "parse_params set_data cur params =
     (if cur = [] then params
      else
        (let p = (case strchr cur CHR '';'' of Some p \<Rightarrow> p | None \<Rightarrow> length cur);
             (name, value) =
               (case strchr (take p cur) CHR ''='' of
                  Some eq \<Rightarrow> (take eq cur, camel_url_decode (take (p - (eq + 1)) (drop (eq + 1) cur)))
                | None \<Rightarrow> (take p cur, []))
         in parse_params set_data (drop (p + 1) cur) (set_data params (camel_url_decode name) value)))"
  by pat_completeness auto
termination by (relation "measure (\<lambda>(_, cur, _). length cur)") auto

declare parse_params.simps [simp del]

text \<open>
  The query, the parameters and the path of the string up to \<^verbatim>\<open>end\<close>; \<open>hash\<close> tells whether \<^verbatim>\<open>end\<close> is the
  \<^verbatim>\<open>#\<close> of a fragment or the NUL, which the test of \<^verbatim>\<open>question[1]\<close> sees.
\<close>

definition parse_rest :: "(gdata \<Rightarrow> string \<Rightarrow> string \<Rightarrow> gdata) \<Rightarrow> string \<Rightarrow> bool \<Rightarrow> camel_url \<Rightarrow> camel_url" where
  "parse_rest set_data body hash url =
     (let (body, url) =
            (case strchr body CHR ''?'' of
               Some question \<Rightarrow>
                 (take question body,
                  if drop (question + 1) body \<noteq> [] \<or> hash
                  then url\<lparr>url_query := Some (camel_url_decode (drop (question + 1) body))\<rparr> else url)
             | None \<Rightarrow> (body, url));
          (body, url) =
            (case strchr body CHR '';'' of
               Some semi \<Rightarrow> (take semi body, url\<lparr>url_params := parse_params set_data (drop (semi + 1) body) (url_params url)\<rparr>)
             | None \<Rightarrow> (body, url))
      in if body \<noteq> [] then url\<lparr>url_path := Some (camel_url_decode body)\<rparr> else url)"

section \<open>Resolution against a base\<close>

text \<open>Remove \<^verbatim>\<open>./\<close> where the dot is a complete segment: the character before \<^verbatim>\<open>p\<close> and the string from \<^verbatim>\<open>p\<close> on.\<close>

fun remove_dots :: "char \<Rightarrow> string \<Rightarrow> string" where
  "remove_dots prev (c # d # s) =
     (if prev = CHR ''/'' \<and> c = CHR ''.'' \<and> d = CHR ''/'' then remove_dots prev s else c # remove_dots c (d # s))"
| "remove_dots prev s = s"

definition remove_last_dot :: "string \<Rightarrow> string" where
  "remove_last_dot s =
     (if length s > 2 \<and> s ! (length s - 1) = CHR ''.'' \<and> s ! (length s - 2) = CHR ''/'' then take (length s - 1) s else s)"

text \<open>Remove \<^verbatim>\<open>segment/../\<close>: what is between \<^verbatim>\<open>newpath + 1\<close> and \<^verbatim>\<open>p\<close>, and the string from \<^verbatim>\<open>p\<close> on.\<close>

function remove_updirs :: "string \<Rightarrow> string \<Rightarrow> string" where
  "remove_updirs passed s =
     (if s = [] then passed
      else if take 3 s = ''../'' then remove_updirs (passed @ take 3 s) (drop 3 s)
      else
        (case strchr (tl s) CHR ''/'' of
           None \<Rightarrow> passed @ s
         | Some k \<Rightarrow>
             (if take 4 (drop (k + 1) s) \<noteq> ''/../'' then remove_updirs (passed @ take (k + 2) s) (drop (k + 2) s)
              else remove_updirs [] (passed @ drop (k + 5) s))))"
  by pat_completeness auto
termination
  by (relation "measures [\<lambda>(passed, s). length passed + length s, \<lambda>(passed, s). length s]") auto

declare remove_updirs.simps [simp del]

fun back_to_slash :: "string \<Rightarrow> nat \<Rightarrow> nat" where
  "back_to_slash newpath 0 = 0"
| "back_to_slash newpath (Suc p) = (if newpath ! Suc p \<noteq> CHR ''/'' then back_to_slash newpath p else Suc p)"

text \<open>
  Remove \<^verbatim>\<open>segment/..\<close> at the end. If the path is \<^verbatim>\<open>/..\<close>, \<^verbatim>\<open>p = q - 1\<close> is in front of the buffer and the
  comparison reads there.
\<close>

definition remove_last_updir :: "string \<Rightarrow> url_error + string" where
  "remove_last_updir newpath =
     (if length newpath \<ge> 3 \<and> drop (length newpath - 3) newpath = ''/..'' then
        (let q = length newpath - 3
         in if q = 0 then Inl OUTSIDE_BUFFER
            else (let p = back_to_slash newpath (q - 1)
                  in Inr (if take 4 (drop p newpath) \<noteq> ''/../'' then take (p + 1) newpath else newpath)))
      else Inr newpath)"

definition strrchr_slash :: "string \<Rightarrow> nat option" where
  "strrchr_slash s = (if CHR ''/'' \<in> set s then Some (length s - 1 - length (takeWhile (\<lambda>c. c \<noteq> CHR ''/'') (rev s))) else None)"

definition merge_path :: "string option \<Rightarrow> string \<Rightarrow> url_error + string" where
  "merge_path base_path path =
     (let last = (case base_path of Some b \<Rightarrow> strrchr_slash b | None \<Rightarrow> None);
          newpath = (case last of Some l \<Rightarrow> take l (the base_path) @ CHR ''/'' # path | None \<Rightarrow> CHR ''/'' # path);
          newpath = hd newpath # remove_dots (hd newpath) (tl newpath);
          newpath = remove_last_dot newpath;
          newpath = hd newpath # remove_updirs [] (tl newpath)
      in remove_last_updir newpath)"

definition copy_params :: "(gdata \<Rightarrow> string \<Rightarrow> string \<Rightarrow> gdata) \<Rightarrow> gdata \<Rightarrow> gdata \<Rightarrow> gdata" where
  "copy_params set_data from to = fold (\<lambda>(key, data) copy. set_data copy key data) from to"

definition apply_base :: "(gdata \<Rightarrow> string \<Rightarrow> string \<Rightarrow> gdata) \<Rightarrow> camel_url option \<Rightarrow> camel_url \<Rightarrow> url_error + camel_url" where
  "apply_base set_data base url =
     (case base of
        None \<Rightarrow> Inr url
      | Some base \<Rightarrow>
          if url_protocol url \<noteq> None then Inr url
          else if url_host url \<noteq> None then Inr (url\<lparr>url_protocol := url_protocol base\<rparr>)
          else
            (let url =
                   (if url_user url = None \<and> url_authmech url = None \<and> url_passwd url = None \<and> url_host url = None
                       \<and> url_port url = 0 \<and> url_path url = None \<and> url_params url = [] \<and> url_query url = None
                       \<and> url_fragment url = None
                    then url\<lparr>url_fragment := url_fragment base\<rparr> else url);
                 url = url\<lparr>url_protocol := url_protocol base, url_user := url_user base, url_authmech := url_authmech base,
                           url_passwd := url_passwd base, url_host := url_host base, url_port := url_port base\<rparr>
             in case url_path url of
                  None \<Rightarrow>
                    (let url' = url\<lparr>url_path := url_path base\<rparr>
                     in Inr (if url_params url' = []
                             then (let url'' = url'\<lparr>url_params := copy_params set_data (url_params base) (url_params url')\<rparr>
                                   in if url_query url'' = None then url''\<lparr>url_query := url_query base\<rparr> else url'')
                             else url'))
                | Some path \<Rightarrow>
                    (if path = [] \<or> hd path \<noteq> CHR ''/'' then
                       (case merge_path (url_path base) path of
                          Inl e \<Rightarrow> Inl e
                        | Inr newpath \<Rightarrow> Inr (url\<lparr>url_path := Some newpath\<rparr>))
                     else Inr url)))"

definition camel_url_new_with_base ::
    "(gdata \<Rightarrow> string \<Rightarrow> string \<Rightarrow> gdata) \<Rightarrow> camel_url option \<Rightarrow> string \<Rightarrow> url_error + camel_url" where
  "camel_url_new_with_base set_data base url_string =
     (let hash = dropWhile (\<lambda>c. c \<noteq> CHR ''#'') url_string;
          url = (if hash \<noteq> [] \<and> tl hash \<noteq> [] then url_new0\<lparr>url_fragment := Some (camel_url_decode (tl hash))\<rparr> else url_new0);
          (url_string, url) = parse_protocol url_string url
      in if url_string = [] \<and> base = None then Inr url
         else
           (let (url_string, url) = parse_authority url_string url;
                body = take (length url_string - length hash) url_string
            in apply_base set_data base (parse_rest set_data body (hash \<noteq> []) url)))"

definition camel_url_new :: "(gdata \<Rightarrow> string \<Rightarrow> string \<Rightarrow> gdata) \<Rightarrow> string option \<Rightarrow> url_error + camel_url" where
  "camel_url_new set_data url_string =
     (case url_string of
        None \<Rightarrow> Inl URL_NULL
      | Some s \<Rightarrow>
          if s = [] then Inl URL_NULL
          else (case camel_url_new_with_base set_data None s of
                  Inl e \<Rightarrow> Inl e
                | Inr url \<Rightarrow> if url_protocol url = None then Inl (CAMEL_EXCEPTION_SERVICE_URL_INVALID s) else Inr url))"

section \<open>Printing\<close>

definition CAMEL_URL_HIDE_PASSWORD :: "32 word" where "CAMEL_URL_HIDE_PASSWORD = 1"
definition CAMEL_URL_HIDE_PARAMS :: "32 word" where "CAMEL_URL_HIDE_PARAMS = 2"
definition CAMEL_URL_HIDE_AUTH :: "32 word" where "CAMEL_URL_HIDE_AUTH = 4"

definition output_param :: "string \<times> string \<Rightarrow> string \<Rightarrow> string" where
  "output_param kv str =
     (let str = append_url_encoded (str @ '';'') (fst kv) ''?=''
      in if snd kv \<noteq> [] then append_url_encoded (str @ ''='') (snd kv) ''?'' else str)"

definition authority_to_string :: "camel_url \<Rightarrow> 32 word \<Rightarrow> string \<Rightarrow> string \<Rightarrow> string" where
  "authority_to_string url flags host str =
     (let str = str @ ''//'';
          str = (case url_user url of
                   None \<Rightarrow> str
                 | Some user \<Rightarrow>
                     (let str = append_url_encoded str user '':;@/'';
                          str = (case url_authmech url of
                                   None \<Rightarrow> str
                                 | Some m \<Rightarrow> if m \<noteq> [] \<and> flags AND CAMEL_URL_HIDE_AUTH = 0
                                             then append_url_encoded (str @ '';auth='') m '':@/'' else str);
                          str = (case url_passwd url of
                                   None \<Rightarrow> str
                                 | Some pw \<Rightarrow> if flags AND CAMEL_URL_HIDE_PASSWORD = 0
                                              then append_url_encoded (str @ '':'') pw ''@/'' else str)
                      in str @ ''@''));
          str = append_url_encoded str host '':/'';
          str = (if url_port url \<noteq> 0 then str @ '':'' @ print_int (url_port url) else str)
      in if url_path url = None \<and> (url_params url \<noteq> [] \<or> url_query url \<noteq> None \<or> url_fragment url \<noteq> None)
         then str @ ''/'' else str)"

definition camel_url_to_string :: "camel_url \<Rightarrow> 32 word \<Rightarrow> string" where
  "camel_url_to_string url flags =
     (let str = (case url_protocol url of None \<Rightarrow> [] | Some p \<Rightarrow> p @ '':'');
          str = (case url_host url of None \<Rightarrow> str | Some host \<Rightarrow> authority_to_string url flags host str);
          str = (case url_path url of None \<Rightarrow> str | Some path \<Rightarrow> append_url_encoded str path '';?'');
          str = (if url_params url \<noteq> [] \<and> flags AND CAMEL_URL_HIDE_PARAMS = 0 then fold output_param (url_params url) str else str);
          str = (case url_query url of None \<Rightarrow> str | Some q \<Rightarrow> append_url_encoded (str @ ''?'') q [])
      in (case url_fragment url of None \<Rightarrow> str | Some f \<Rightarrow> append_url_encoded (str @ ''#'') f []))"

section \<open>Editing, comparing and copying\<close>

definition camel_url_set_protocol :: "camel_url \<Rightarrow> string option \<Rightarrow> camel_url" where
  "camel_url_set_protocol url v = url\<lparr>url_protocol := v\<rparr>"
definition camel_url_set_user :: "camel_url \<Rightarrow> string option \<Rightarrow> camel_url" where
  "camel_url_set_user url v = url\<lparr>url_user := v\<rparr>"
definition camel_url_set_authmech :: "camel_url \<Rightarrow> string option \<Rightarrow> camel_url" where
  "camel_url_set_authmech url v = url\<lparr>url_authmech := v\<rparr>"
definition camel_url_set_passwd :: "camel_url \<Rightarrow> string option \<Rightarrow> camel_url" where
  "camel_url_set_passwd url v = url\<lparr>url_passwd := v\<rparr>"
definition camel_url_set_host :: "camel_url \<Rightarrow> string option \<Rightarrow> camel_url" where
  "camel_url_set_host url v = url\<lparr>url_host := v\<rparr>"
definition camel_url_set_path :: "camel_url \<Rightarrow> string option \<Rightarrow> camel_url" where
  "camel_url_set_path url v = url\<lparr>url_path := v\<rparr>"
definition camel_url_set_query :: "camel_url \<Rightarrow> string option \<Rightarrow> camel_url" where
  "camel_url_set_query url v = url\<lparr>url_query := v\<rparr>"
definition camel_url_set_fragment :: "camel_url \<Rightarrow> string option \<Rightarrow> camel_url" where
  "camel_url_set_fragment url v = url\<lparr>url_fragment := v\<rparr>"
definition camel_url_set_port :: "camel_url \<Rightarrow> int \<Rightarrow> camel_url" where
  "camel_url_set_port url port = url\<lparr>url_port := port\<rparr>"

definition camel_url_set_param ::
    "(gdata \<Rightarrow> string \<Rightarrow> string \<Rightarrow> gdata) \<Rightarrow> (gdata \<Rightarrow> string \<Rightarrow> gdata) \<Rightarrow> camel_url \<Rightarrow> string \<Rightarrow> string option \<Rightarrow> camel_url" where
  "camel_url_set_param set_data remove_data url name value =
     (case value of
        Some v \<Rightarrow> url\<lparr>url_params := set_data (url_params url) name v\<rparr>
      | None \<Rightarrow> url\<lparr>url_params := remove_data (url_params url) name\<rparr>)"

definition camel_url_get_param :: "camel_url \<Rightarrow> string \<Rightarrow> string option" where
  "camel_url_get_param url name = map_of (url_params url) name"

definition add_hash :: "(string \<Rightarrow> 32 word) \<Rightarrow> string option \<Rightarrow> 32 word \<Rightarrow> 32 word" where
  "add_hash g_str_hash s hash = (case s of None \<Rightarrow> hash | Some s \<Rightarrow> hash XOR g_str_hash s)"

definition camel_url_hash :: "(string \<Rightarrow> 32 word) \<Rightarrow> camel_url \<Rightarrow> 32 word" where
  "camel_url_hash g_str_hash u =
     (let hash = add_hash g_str_hash (url_protocol u) 0;
          hash = add_hash g_str_hash (url_user u) hash;
          hash = add_hash g_str_hash (url_authmech u) hash;
          hash = add_hash g_str_hash (url_host u) hash;
          hash = add_hash g_str_hash (url_path u) hash;
          hash = add_hash g_str_hash (url_query u) hash
      in hash XOR word_of_int (url_port u))"

definition check_equal :: "string option \<Rightarrow> string option \<Rightarrow> bool" where
  "check_equal s1 s2 =
     (case s1 of None \<Rightarrow> (case s2 of None \<Rightarrow> True | Some _ \<Rightarrow> False)
      | Some a \<Rightarrow> (case s2 of None \<Rightarrow> False | Some b \<Rightarrow> a = b))"

definition camel_url_equal :: "camel_url \<Rightarrow> camel_url \<Rightarrow> bool" where
  "camel_url_equal u1 u2 \<longleftrightarrow>
     check_equal (url_protocol u1) (url_protocol u2) \<and> check_equal (url_user u1) (url_user u2)
     \<and> check_equal (url_authmech u1) (url_authmech u2) \<and> check_equal (url_host u1) (url_host u2)
     \<and> check_equal (url_path u1) (url_path u2) \<and> check_equal (url_query u1) (url_query u2)
     \<and> url_port u1 = url_port u2"

definition camel_url_copy :: "(gdata \<Rightarrow> string \<Rightarrow> string \<Rightarrow> gdata) \<Rightarrow> camel_url \<Rightarrow> camel_url" where
  "camel_url_copy set_data i =
     \<lparr>url_protocol = url_protocol i, url_user = url_user i, url_authmech = url_authmech i, url_passwd = url_passwd i,
      url_host = url_host i, url_port = url_port i, url_path = url_path i,
      url_params = (if url_params i \<noteq> [] then copy_params set_data (url_params i) [] else []),
      url_query = url_query i, url_fragment = url_fragment i\<rparr>"

text \<open>
  \<^verbatim>\<open>g_strsplit\<close> at slashes; the empty string gives no component. Then \<^verbatim>\<open>str->len - 1\<close> wraps to the
  greatest \<^verbatim>\<open>gsize\<close>, of which the buffer for the copy has one octet more, that is none.
\<close>

function split_slash :: "string \<Rightarrow> string list" where
  "split_slash s =
     (case strchr s CHR ''/'' of None \<Rightarrow> [s] | Some k \<Rightarrow> take k s # split_slash (drop (k + 1) s))"
  by pat_completeness auto
termination by (relation "measure length") (auto simp: strchr_def dest: length_pos_if_in_set split: if_splits)

declare split_slash.simps [simp del]

definition camel_url_decode_path :: "string option \<Rightarrow> url_error + string" where
  "camel_url_decode_path path =
     (case path of
        None \<Rightarrow> Inr []
      | Some p \<Rightarrow>
          if p = [] then Inl OUTSIDE_BUFFER
          else (let str = fold (\<lambda>c str. str @ camel_url_decode c @ ''/'') (split_slash p) []
                in Inr (take (length str - 1) str)))"

end
