(* ===== verification/Camel_Url_Laws.thy ===== *)
theory Camel_Url_Laws
  imports Camel_Url
begin

text \<open>
  Properties of the URLs: a URL that is printed, with some of its parts hidden or not, is parsed to
  what was printed; the path of a relative URL is resolved as a walk over its segments; and the cases
  in which the code does something else.
\<close>

section \<open>Encoding and decoding\<close>

lemma append_url_encoded_append: "append_url_encoded str s x = str @ camel_url_encode s x"
proof -
  have "append_url_encoded (a @ b) s x = a @ append_url_encoded b s x" for a b
    by (induction s arbitrary: b) simp_all
  from this [of str "[]"] show ?thesis by (simp add: camel_url_encode_def)
qed

lemma encode_Nil [simp]: "camel_url_encode [] x = []"
  by (simp add: camel_url_encode_def)

lemma encode_Cons:
  "camel_url_encode (c # s) x =
     (if needs_encoding x c then [CHR ''%'', hex_digit (of_char c div 16), hex_digit (of_char c mod 16)] else [c])
     @ camel_url_encode s x"
  by (simp add: camel_url_encode_def append_url_encoded_append [of "_ # _"])

lemma hex_digit_facts: "n < 16 \<Longrightarrow> is_xdigit (hex_digit n) \<and> XDIGIT (hex_digit n) = int n"
proof -
  have "\<forall>n\<in>set [0..<16]. is_xdigit (hex_digit n) \<and> XDIGIT (hex_digit n) = int n" by code_simp
  then show "n < 16 \<Longrightarrow> is_xdigit (hex_digit n) \<and> XDIGIT (hex_digit n) = int n" by simp
qed

lemma of_char_digits:
  "(of_char c :: nat) div 16 < 16" "push_bit 4 (int (of_char c div 16)) + int (of_char c mod 16) = of_char c"
proof -
  show "(of_char c :: nat) div 16 < 16" using nat_of_char_less_256 [of c] by presburger
  have "int (of_char c div 16) * 16 + int (of_char c mod 16) = int (of_char c)" by presburger
  then show "push_bit 4 (int (of_char c div 16)) + int (of_char c mod 16) = of_char c"
    by (simp add: push_bit_eq_mult of_nat_of_char)
qed

lemma percent_encoded [simp]: "needs_encoding x CHR ''%''"
  by (simp add: needs_encoding_def url_encoded_char_def)

lemma decode_loop_Cons: "c \<noteq> CHR ''%'' \<Longrightarrow> url_decode_loop (c # s) = c # url_decode_loop s"
  by (cases s rule: url_decode_loop.cases) (auto intro: list.exhaust)

lemma kept_no_percent: "\<not> needs_encoding x c \<Longrightarrow> c \<noteq> CHR ''%''"
  using percent_encoded by blast

lemma decode_encode_loop: "url_decode_loop (camel_url_encode s x) = s"
proof (induction s)
  case (Cons c s)
  then show ?case
    using hex_digit_facts [of "of_char c div 16"] hex_digit_facts [of "of_char c mod 16"] of_char_digits [of c]
    by (auto simp: encode_Cons decode_loop_Cons kept_no_percent)
qed simp

theorem decode_encode: "CHR 0x00 \<notin> set s \<Longrightarrow> camel_url_decode (camel_url_encode s x) = s"
  by (auto simp: camel_url_decode_def decode_encode_loop takeWhile_eq_all_conv)

text \<open>The characters that are encoded do not occur in the result.\<close>

lemma encode_excludes:
  assumes "needs_encoding x c" "c \<noteq> CHR ''%''" "\<not> is_xdigit c"
  shows "c \<notin> set (camel_url_encode s x)"
proof (induction s)
  case (Cons d s)
  have "is_xdigit (hex_digit (of_char d div 16))" "is_xdigit (hex_digit (of_char d mod 16))"
    using hex_digit_facts of_char_digits [of d] by auto
  with Cons assms show ?case by (auto simp: encode_Cons)
qed simp

lemma encode_subset: "set (camel_url_encode s x) \<subseteq> set s \<union> {c. c = CHR ''%'' \<or> is_xdigit c}"
proof (induction s)
  case (Cons d s)
  have "is_xdigit (hex_digit (of_char d div 16))" "is_xdigit (hex_digit (of_char d mod 16))"
    using hex_digit_facts of_char_digits [of d] by auto
  with Cons show ?case by (auto simp: encode_Cons)
qed simp

lemma encode_eq_Nil [simp]: "camel_url_encode s x = [] \<longleftrightarrow> s = []"
  by (cases s) (simp_all add: encode_Cons)

text \<open>The delimiters, and which of the parts of a URL are free of them.\<close>

lemma delimiter_facts [simp]:
  "\<not> is_xdigit CHR ''#''" "\<not> is_xdigit CHR ''/''" "\<not> is_xdigit CHR ''?''" "\<not> is_xdigit CHR '';''"
  "\<not> is_xdigit CHR ''=''" "\<not> is_xdigit CHR ''@''" "\<not> is_xdigit CHR '':''" "\<not> is_xdigit CHR ''%''"
  by (simp_all add: is_xdigit_def is_digit_def digit_value_def)

lemma needs_encoding_extra: "c \<in> set x \<Longrightarrow> needs_encoding x c"
  by (simp add: needs_encoding_def strchr_def)

lemma hash_encoded [simp]: "CHR ''#'' \<notin> set (camel_url_encode s x)"
  by (rule encode_excludes) (simp_all add: needs_encoding_def url_encoded_char_def)

lemma extra_excluded [simp]: "c \<in> set x \<Longrightarrow> c \<noteq> CHR ''%'' \<Longrightarrow> \<not> is_xdigit c \<Longrightarrow> c \<notin> set (camel_url_encode s x)"
  by (simp add: encode_excludes needs_encoding_extra)

section \<open>Searching\<close>

lemma strchr_None [simp]: "c \<notin> set s \<Longrightarrow> strchr s c = None"
  by (simp add: strchr_def)

lemma strchr_Some [simp]: "c \<notin> set a \<Longrightarrow> strchr (a @ c # b) c = Some (length a)"
  by (auto simp: strchr_def takeWhile_append)

lemma strchr_behind:
  assumes "c \<notin> set a"
  shows "(case strchr (a @ b) c of None \<Rightarrow> y | Some k \<Rightarrow> if k < length a then f k else y) = y"
  using assms by (auto simp: strchr_def takeWhile_append)

lemma strcspn_append: "set a \<inter> set reject = {} \<Longrightarrow> strcspn (a @ b) reject = length a + strcspn b reject"
  by (auto simp: strcspn_def takeWhile_append)

section \<open>The parts of a printed URL\<close>

text \<open>What is left of a URL that is printed with some parts hidden; a slash separates the host from what follows.\<close>

definition visible :: "32 word \<Rightarrow> camel_url \<Rightarrow> camel_url" where
  "visible flags u =
     u\<lparr>url_authmech := (if flags AND CAMEL_URL_HIDE_AUTH = 0 then url_authmech u else None),
       url_passwd := (if flags AND CAMEL_URL_HIDE_PASSWORD = 0 then url_passwd u else None),
       url_params := (if flags AND CAMEL_URL_HIDE_PARAMS = 0 then url_params u else []),
       url_path := (if url_host u \<noteq> None \<and> url_path u = None
                       \<and> (url_params u \<noteq> [] \<or> url_query u \<noteq> None \<or> url_fragment u \<noteq> None)
                    then Some ''/'' else url_path u)\<rparr>"

lemma visible_fields [simp]:
  "url_protocol (visible flags u) = url_protocol u" "url_user (visible flags u) = url_user u"
  "url_host (visible flags u) = url_host u" "url_port (visible flags u) = url_port u"
  "url_query (visible flags u) = url_query u" "url_fragment (visible flags u) = url_fragment u"
  by (simp_all add: visible_def)

definition print_opt :: "string \<Rightarrow> string \<Rightarrow> string option \<Rightarrow> string" where
  "print_opt pre x s = (case s of None \<Rightarrow> [] | Some s \<Rightarrow> pre @ camel_url_encode s x)"

definition print_param :: "string \<times> string \<Rightarrow> string" where
  "print_param kv = camel_url_encode (fst kv) ''?='' @ (if snd kv \<noteq> [] then CHR ''='' # camel_url_encode (snd kv) ''?'' else [])"

definition print_params :: "gdata \<Rightarrow> string" where
  "print_params ps = concat (map (\<lambda>kv. CHR '';'' # print_param kv) ps)"

definition print_userinfo :: "camel_url \<Rightarrow> string" where
  "print_userinfo v =
     (case url_user v of
        None \<Rightarrow> []
      | Some user \<Rightarrow> camel_url_encode user '':;@/'' @ print_opt '';auth='' '':@/'' (url_authmech v)
          @ print_opt '':'' ''@/'' (url_passwd v) @ ''@'')"

definition print_host :: "camel_url \<Rightarrow> string \<Rightarrow> string" where
  "print_host v host = camel_url_encode host '':/'' @ (if url_port v \<noteq> 0 then CHR '':'' # print_int (url_port v) else [])"

definition print_rest :: "camel_url \<Rightarrow> string" where
  "print_rest v = print_opt [] '';?'' (url_path v) @ print_params (url_params v) @ print_opt ''?'' [] (url_query v)"

lemma fold_output_param: "fold output_param ps str = str @ print_params ps"
proof (induction ps arbitrary: str)
  case (Cons kv ps)
  have "output_param kv str = str @ CHR '';'' # print_param kv"
    by (simp add: output_param_def print_param_def append_url_encoded_append)
  with Cons show ?case by (simp add: print_params_def)
qed (simp add: print_params_def)

lemma slash_kept [simp]: "camel_url_encode ''/'' '';?'' = ''/''"
  by (simp add: encode_Cons needs_encoding_def url_encoded_char_def)

lemma userinfo_parts:
  assumes "url_authmech u \<noteq> Some []"
  shows "authority_to_string u flags host str =
     str @ ''//'' @ print_userinfo (visible flags u) @ print_host (visible flags u) host
     @ (if url_path u = None \<and> (url_params u \<noteq> [] \<or> url_query u \<noteq> None \<or> url_fragment u \<noteq> None) then ''/'' else [])"
proof (cases "url_user u")
  case None
  then show ?thesis
    by (simp add: authority_to_string_def append_url_encoded_append print_userinfo_def print_host_def visible_def Let_def)
next
  case (Some user)
  then show ?thesis using assms
    by (cases "url_authmech u"; cases "url_passwd u")
      (simp_all add: authority_to_string_def append_url_encoded_append print_userinfo_def print_host_def print_opt_def visible_def Let_def)
qed

lemma to_string_parts:
  assumes "url_authmech u \<noteq> Some []"
  shows "camel_url_to_string u flags =
     (case url_protocol u of None \<Rightarrow> [] | Some p \<Rightarrow> p @ '':'')
     @ (case url_host u of None \<Rightarrow> [] | Some h \<Rightarrow> ''//'' @ print_userinfo (visible flags u) @ print_host (visible flags u) h)
     @ print_rest (visible flags u) @ print_opt ''#'' [] (url_fragment u)"
proof -
  have rest: "print_rest (visible flags u) =
      (if url_host u \<noteq> None \<and> url_path u = None \<and> (url_params u \<noteq> [] \<or> url_query u \<noteq> None \<or> url_fragment u \<noteq> None) then ''/'' else [])
      @ print_opt [] '';?'' (url_path u) @ (if flags AND CAMEL_URL_HIDE_PARAMS = 0 then print_params (url_params u) else [])
      @ print_opt ''?'' [] (url_query u)"
    by (simp add: print_rest_def visible_def print_opt_def print_params_def)
  have opt: "(case s of None \<Rightarrow> str | Some t \<Rightarrow> append_url_encoded (str @ pre) t x) = str @ print_opt pre x s" for s str pre x
    by (simp add: print_opt_def append_url_encoded_append split: option.split)
  show ?thesis unfolding camel_url_to_string_def Let_def opt fold_output_param opt [where pre = "[]", unfolded append_Nil2] rest
    using assms by (cases "url_host u") (simp_all add: userinfo_parts print_params_def)
qed

section \<open>Parsing the parts\<close>

definition printable_param :: "string \<times> string \<Rightarrow> bool" where
  "printable_param kv \<longleftrightarrow>
     fst kv \<noteq> [] \<and> CHR 0x00 \<notin> set (fst kv) \<and> CHR 0x00 \<notin> set (snd kv) \<and> CHR '';'' \<notin> set (fst kv) \<and> CHR '';'' \<notin> set (snd kv)"

lemma no_semicolon: "CHR '';'' \<notin> set s \<Longrightarrow> CHR '';'' \<notin> set (camel_url_encode s x)"
  using encode_subset [of s x] by auto

lemma parse_params_print:
  assumes "list_all printable_param ps"
  shows "parse_params set_data (drop 1 (print_params ps)) d = copy_params set_data ps d"
  using assms
proof (induction ps arbitrary: d)
  case Nil
  then show ?case by (simp add: print_params_def copy_params_def parse_params.simps)
next
  case (Cons kv ps)
  let ?item = "print_param kv" and ?q = "print_params ps"
  have kv: "printable_param kv" using Cons.prems by simp
  have item: "?item \<noteq> []" "CHR '';'' \<notin> set ?item"
    using kv no_semicolon [of "fst kv" "''?=''"] no_semicolon [of "snd kv" "''?''"]
    by (auto simp: print_param_def printable_param_def)
  have eq: "?q = [] \<or> (\<exists>r. ?q = CHR '';'' # r)" by (cases ps) (simp_all add: print_params_def)
  have p: "(case strchr (?item @ ?q) CHR '';'' of Some p \<Rightarrow> p | None \<Rightarrow> length (?item @ ?q)) = length ?item"
    using eq item(2) by auto
  have nv: "(case strchr ?item CHR ''='' of
        Some eq \<Rightarrow> (take eq (?item @ ?q), camel_url_decode (take (length ?item - (eq + 1)) (drop (eq + 1) (?item @ ?q))))
      | None \<Rightarrow> (take (length ?item) (?item @ ?q), [])) = (camel_url_encode (fst kv) ''?='', snd kv)"
    using kv by (auto simp: print_param_def printable_param_def decode_encode)
  have "parse_params set_data (?item @ ?q) d = parse_params set_data (drop 1 ?q) (set_data d (fst kv) (snd kv))"
    using item(1) kv by (subst parse_params.simps) (simp add: p nv Let_def decode_encode printable_param_def)
  with Cons show ?case by (simp add: print_params_def copy_params_def split_beta)
qed

text \<open>The parts that may be empty only when they are missing.\<close>

definition printable_part :: "string option \<Rightarrow> bool" where
  "printable_part s = (case s of None \<Rightarrow> True | Some t \<Rightarrow> t \<noteq> [] \<and> CHR 0x00 \<notin> set t)"

lemma print_params_chars [simp]:
  "CHR ''?'' \<notin> set (print_params ps)" "CHR ''#'' \<notin> set (print_params ps)"
  by (auto simp: print_params_def print_param_def)

lemma print_params_shape: "ps = [] \<and> print_params ps = [] \<or> (\<exists>r. print_params ps = CHR '';'' # r)"
  by (cases ps) (simp_all add: print_params_def)

lemma parse_rest_print:
  assumes "printable_part (url_path v)" "list_all printable_param (url_params v)" "printable_part (url_query v)"
    and "url_params url = []" "url_query url = None" "url_path url = None"
  shows "parse_rest set_data (print_rest v) hash url =
    url\<lparr>url_query := url_query v, url_params := copy_params set_data (url_params v) [], url_path := url_path v\<rparr>"
proof -
  define p where "p = print_opt [] '';?'' (url_path v)"
  define q where "q = print_params (url_params v)"
  have p: "CHR ''?'' \<notin> set p" "CHR '';'' \<notin> set p" by (auto simp: p_def print_opt_def split: option.split)
  have query: "(case strchr (print_rest v) CHR ''?'' of
      Some question \<Rightarrow> (take question (print_rest v),
        if drop (question + 1) (print_rest v) \<noteq> [] \<or> hash
        then url\<lparr>url_query := Some (camel_url_decode (drop (question + 1) (print_rest v)))\<rparr> else url)
    | None \<Rightarrow> (print_rest v, url)) = (p @ q, url\<lparr>url_query := url_query v\<rparr>)"
  proof (cases "url_query v")
    case None
    then have "print_rest v = p @ q" by (simp add: print_rest_def p_def q_def print_opt_def)
    with None p assms(5) show ?thesis by (simp add: q_def)
  next
    case (Some t)
    then have r: "print_rest v = (p @ q) @ CHR ''?'' # camel_url_encode t []"
      by (simp add: print_rest_def p_def q_def print_opt_def)
    have "strchr (print_rest v) CHR ''?'' = Some (length (p @ q))" unfolding r using p by (intro strchr_Some) (simp add: q_def)
    with Some r assms(3) show ?thesis by (simp add: printable_part_def decode_encode)
  qed
  have params: "(case strchr (p @ q) CHR '';'' of
      Some semi \<Rightarrow> (take semi (p @ q), u\<lparr>url_params := parse_params set_data (drop (semi + 1) (p @ q)) (url_params u)\<rparr>)
    | None \<Rightarrow> (p @ q, u)) = (p, u\<lparr>url_params := copy_params set_data (url_params v) []\<rparr>)" if "url_params u = []" for u :: camel_url
    using print_params_shape [of "url_params v"] parse_params_print [OF assms(2), of set_data "[]"] p that
    by (auto simp: copy_params_def simp flip: q_def)
  have path: "p \<noteq> [] \<longleftrightarrow> url_path v \<noteq> None" "url_path v \<noteq> None \<Longrightarrow> camel_url_decode p = the (url_path v)"
    using assms(1) by (auto simp: p_def print_opt_def printable_part_def decode_encode split: option.splits)
  show ?thesis unfolding parse_rest_def query Let_def prod.case
    using path assms by (subst params) (auto simp: Let_def)
qed

section \<open>Parsing the authority\<close>

lemma parse_userinfo_print:
  assumes "url_user v = Some user" "CHR 0x00 \<notin> set user" "printable_part (url_authmech v)"
    and "\<forall>pw. url_passwd v = Some pw \<longrightarrow> CHR 0x00 \<notin> set pw" "length (print_userinfo v) \<le> slash"
  shows "parse_userinfo (print_userinfo v @ r) slash url =
    (r, slash - length (print_userinfo v), url\<lparr>url_passwd := url_passwd v, url_authmech := url_authmech v, url_user := url_user v\<rparr>)"
proof -
  define u where "u = camel_url_encode user '':;@/''"
  define a where "a = print_opt '';auth='' '':@/'' (url_authmech v)"
  define p where "p = print_opt '':'' ''@/'' (url_passwd v)"
  have ui: "print_userinfo v = u @ a @ p @ ''@''" by (simp add: print_userinfo_def assms(1) u_def a_def p_def)
  have u: "CHR ''@'' \<notin> set u" "CHR '':'' \<notin> set u" "CHR '';'' \<notin> set u" by (simp_all add: u_def)
  have a: "CHR ''@'' \<notin> set a" "CHR '':'' \<notin> set a" by (auto simp: a_def print_opt_def split: option.split)
  have p: "CHR ''@'' \<notin> set p" by (auto simp: p_def print_opt_def split: option.split)
  define s where "s = print_userinfo v @ r"
  have at: "strchr s CHR ''@'' = Some (length (u @ a @ p))"
    using strchr_Some [of "CHR ''@''" "u @ a @ p" r] u a p by (simp add: s_def ui)
  have colon: "(case strchr s CHR '':'' of
      Some colon \<Rightarrow> (if colon < length (u @ a @ p)
        then (Some (camel_url_decode (take (length (u @ a @ p) - colon - 1) (drop (colon + 1) s))), colon) else (None, length (u @ a @ p)))
    | None \<Rightarrow> (None, length (u @ a @ p))) = (url_passwd v, length (u @ a))"
  proof (cases "url_passwd v")
    case None
    then have p: "p = []" by (simp add: p_def print_opt_def)
    then have s: "s = (u @ a) @ CHR ''@'' # r" by (simp add: s_def ui)
    show ?thesis unfolding s p None append_Nil2 by (rule strchr_behind) (use u a in simp)
  next
    case (Some pw)
    then have "s = (u @ a) @ CHR '':'' # camel_url_encode pw ''@/'' @ CHR ''@'' # r" by (simp add: s_def ui p_def print_opt_def)
    moreover from this have "strchr s CHR '':'' = Some (length (u @ a))" using u a by (metis Un_iff set_append strchr_Some)
    ultimately show ?thesis using Some assms(4) by (simp add: p_def print_opt_def decode_encode)
  qed
  have semi: "(case strchr s CHR '';'' of
      Some semi \<Rightarrow> (if semi < length (u @ a) \<and> camel_strdown (take 6 (drop semi s)) = '';auth=''
        then (Some (camel_url_decode (take (length (u @ a) - semi - 6) (drop (semi + 6) s))), semi) else (None, length (u @ a)))
    | None \<Rightarrow> (None, length (u @ a))) = (url_authmech v, length u)"
  proof (cases "url_authmech v")
    case None
    then have "a = []" by (simp add: a_def print_opt_def)
    with u None strchr_behind [of "CHR '';''" u "p @ CHR ''@'' # r"] show ?thesis
      by (auto simp: s_def ui strchr_def takeWhile_append split: option.split)
  next
    case (Some m)
    then have s: "s = u @ CHR '';'' # ''auth='' @ camel_url_encode m '':@/'' @ p @ CHR ''@'' # r" by (simp add: s_def ui a_def print_opt_def)
    have "strchr s CHR '';'' = Some (length u)" unfolding s using u(3) by (rule strchr_Some)
    moreover have "camel_strdown '';auth='' = '';auth=''" by code_simp
    ultimately show ?thesis using Some assms(3) s by (simp add: a_def print_opt_def decode_encode printable_part_def)
  qed
  have len: "length (u @ a @ p) < slash" using assms(5) by (simp add: ui)
  have "take (length u) s = u" "drop (length (u @ a @ p) + 1) s = r" by (simp_all add: s_def ui)
  moreover have "camel_url_decode u = user" using assms(2) by (simp add: u_def decode_encode)
  ultimately show ?thesis unfolding s_def [symmetric] parse_userinfo_def at option.case if_P [OF len] colon Let_def prod.case semi
    by (simp add: ui assms(1))
qed

lemma print_int_chars: "c \<in> set (print_int n) \<Longrightarrow> is_digit c \<or> c = CHR ''-''"
  using print_nat_digits by (auto simp: print_int_def split: if_splits)

lemma delimiters_no_digits [simp]:
  "\<not> is_digit CHR ''#''" "\<not> is_digit CHR ''/''" "\<not> is_digit CHR ''@''" "\<not> is_digit CHR ''-''" "\<not> is_digit CHR '':''"
  by (simp_all add: is_digit_def digit_value_def)

lemma print_int_delimiters [simp]:
  "CHR ''#'' \<notin> set (print_int n)" "CHR ''/'' \<notin> set (print_int n)" "CHR ''@'' \<notin> set (print_int n)"
  by (auto dest!: print_int_chars)

lemma strtoul_print_append:
  assumes "r = [] \<or> \<not> is_digit (hd r)"
  shows "strtoul (print_int n @ r) = strtoul (print_int n)"
proof -
  have tw: "takeWhile is_digit (print_nat k @ r) = takeWhile is_digit (print_nat k)" for k
    using assms print_nat_digits [of k] by (cases r) (auto simp: takeWhile_append takeWhile_print_nat)
  show ?thesis
  proof (cases "n < 0")
    case True
    then show ?thesis by (simp add: strtoul_def print_int_def is_space_def tw Let_def)
  next
    case False
    obtain c cs where c: "print_nat (nat n) = c # cs" "is_digit c" using print_nat_start by blast
    then show ?thesis using False tw [of "nat n"] digit_start [OF c(2)] by (simp add: strtoul_def print_int_def Let_def)
  qed
qed

text \<open>The port survives the conversion to \<^verbatim>\<open>unsigned long\<close> and back.\<close>

lemma port_read_back:
  assumes "- (2 ^ 31) \<le> n" "n < 2 ^ 31" "r = [] \<or> \<not> is_digit (hd r)"
  shows "s32 (strtoul (print_int n @ r)) = n"
proof -
  have "strtoul (print_int n) = n mod 2 ^ 64" using assms by (intro strtoul_print) auto
  moreover have "s32 (n mod 2 ^ 64) = n"
    using mod_mod_add [of 4294967296 "2 ^ 64" n 2147483648] assms(1,2) by (simp add: s32_def)
  ultimately show ?thesis using strtoul_print_append [OF assms(3)] by simp
qed

lemma parse_host_print:
  assumes "CHR 0x00 \<notin> set host" "url_port v \<noteq> 0 \<Longrightarrow> camel_url_encode host '':/'' = host"
    and "- (2 ^ 31) \<le> url_port v" "url_port v < 2 ^ 31" "r = [] \<or> \<not> is_digit (hd r)"
  shows "parse_host (print_host v host @ r) (length (print_host v host)) url = url\<lparr>url_host := Some host, url_port := url_port v\<rparr>"
proof (cases "url_port v = 0")
  case True
  let ?e = "camel_url_encode host '':/''"
  have e: "print_host v host = ?e" using True by (simp add: print_host_def)
  have "CHR '':'' \<notin> set ?e" by simp
  then have "parse_host (?e @ r) (length ?e) url = url\<lparr>url_host := Some (camel_url_decode (take (length ?e) (?e @ r))), url_port := 0\<rparr>"
    unfolding parse_host_def by (rule strchr_behind)
  with True assms(1) show ?thesis by (simp add: e decode_encode)
next
  case False
  then have e: "print_host v host = host @ CHR '':'' # print_int (url_port v)" using assms(2) by (simp add: print_host_def)
  have "CHR '':'' \<notin> set host" using assms(2) [OF False] extra_excluded [of "CHR '':''" "'':/''" host] by simp
  then show ?thesis unfolding parse_host_def e using port_read_back [OF assms(3-5)] by simp
qed

lemma print_userinfo_delimiters [simp]: "CHR ''#'' \<notin> set (print_userinfo v)" "CHR ''/'' \<notin> set (print_userinfo v)"
  by (auto simp: print_userinfo_def print_opt_def split: option.splits)

lemma print_host_delimiters [simp]: "CHR ''#'' \<notin> set (print_host v h)" "CHR ''/'' \<notin> set (print_host v h)"
  by (auto simp: print_host_def)

lemma print_host_no_at: "CHR ''@'' \<notin> set h \<Longrightarrow> CHR ''@'' \<notin> set (print_host v h)"
  using encode_subset [of h "'':/''"] by (auto simp: print_host_def)

lemma parse_userinfo_none:
  assumes "url_user v = None" "CHR ''@'' \<notin> set h"
  shows "parse_userinfo (h @ r) (length h) url = (h @ r, length h, url\<lparr>url_user := None, url_passwd := None, url_authmech := None\<rparr>)"
  unfolding parse_userinfo_def by (rule strchr_behind [OF assms(2)])

lemma parse_authority_print:
  assumes "CHR 0x00 \<notin> set host" "url_port v \<noteq> 0 \<Longrightarrow> camel_url_encode host '':/'' = host"
    and "- (2 ^ 31) \<le> url_port v" "url_port v < 2 ^ 31"
    and "url_user v = None \<Longrightarrow> CHR ''@'' \<notin> set host \<and> url_authmech v = None \<and> url_passwd v = None"
    and "\<forall>user. url_user v = Some user \<longrightarrow> CHR 0x00 \<notin> set user" "printable_part (url_authmech v)"
    and "\<forall>pw. url_passwd v = Some pw \<longrightarrow> CHR 0x00 \<notin> set pw"
    and r: "r = [] \<or> hd r = CHR ''/''"
  shows "parse_authority (''//'' @ print_userinfo v @ print_host v host @ r) url =
    (r, url\<lparr>url_passwd := url_passwd v, url_authmech := url_authmech v, url_user := url_user v,
            url_host := Some host, url_port := url_port v\<rparr>)"
proof -
  let ?i = "print_userinfo v" and ?h = "print_host v host"
  have slash: "strcspn (?i @ ?h @ r) ''/#'' = length ?i + length ?h"
  proof -
    have "strcspn r ''/#'' = 0" using r by (cases r) (simp_all add: strcspn_def)
    then show ?thesis by (simp add: strcspn_append)
  qed
  have ui: "parse_userinfo (?i @ ?h @ r) (length ?i + length ?h) url =
      (?h @ r, length ?h, url\<lparr>url_passwd := url_passwd v, url_authmech := url_authmech v, url_user := url_user v\<rparr>)"
  proof (cases "url_user v")
    case None
    with assms(5) show ?thesis
      using parse_userinfo_none [OF None print_host_no_at, of host] by (simp add: print_userinfo_def)
  next
    case (Some user)
    with parse_userinfo_print [of v user "length ?i + length ?h" "?h @ r" url] assms(6-8) show ?thesis by simp
  qed
  have "r = [] \<or> \<not> is_digit (hd r)" using r by auto
  with parse_host_print [of host v r] assms(1-4) show ?thesis
    by (simp add: parse_authority_def slash ui)
qed

section \<open>Printing and parsing\<close>

text \<open>
  The URLs that are printed faithfully. The code does not escape a semicolon in a parameter, nor an at
  sign in the host, and decodes the host only if there is no port.
\<close>

definition printable_protocol :: "string option \<Rightarrow> bool" where
  "printable_protocol s = (case s of None \<Rightarrow> False | Some p \<Rightarrow> p \<noteq> [] \<and> list_all (\<lambda>c. protocol_char c \<and> \<not> is_upper c) p)"

definition printable_url :: "camel_url \<Rightarrow> bool" where
  "printable_url u \<longleftrightarrow>
     printable_protocol (url_protocol u)
     \<and> (case url_host u of
           None \<Rightarrow> url_user u = None \<and> url_port u = 0 \<and> (case url_path u of None \<Rightarrow> True | Some p \<Rightarrow> take 2 p \<noteq> ''//'')
         | Some h \<Rightarrow> CHR 0x00 \<notin> set h \<and> (url_user u = None \<longrightarrow> CHR ''@'' \<notin> set h)
             \<and> (url_port u \<noteq> 0 \<longrightarrow> camel_url_encode h '':/'' = h)
             \<and> (case url_path u of None \<Rightarrow> True | Some p \<Rightarrow> hd p = CHR ''/''))
     \<and> (url_user u = None \<longrightarrow> url_authmech u = None \<and> url_passwd u = None)
     \<and> (case url_user u of None \<Rightarrow> True | Some s \<Rightarrow> CHR 0x00 \<notin> set s)
     \<and> (case url_passwd u of None \<Rightarrow> True | Some s \<Rightarrow> CHR 0x00 \<notin> set s)
     \<and> printable_part (url_authmech u) \<and> printable_part (url_path u)
     \<and> printable_part (url_query u) \<and> printable_part (url_fragment u)
     \<and> - (2 ^ 31) \<le> url_port u \<and> url_port u < 2 ^ 31
     \<and> list_all printable_param (url_params u)"

lemma visible_printable: "printable_url u \<Longrightarrow> printable_url (visible flags u)"
  by (auto simp: printable_url_def visible_def printable_part_def split: option.splits)

lemma parse_protocol_print:
  assumes "p \<noteq> []" "list_all (\<lambda>c. protocol_char c \<and> \<not> is_upper c) p"
  shows "parse_protocol (p @ CHR '':'' # r) url = (r, url\<lparr>url_protocol := Some p\<rparr>)"
proof -
  have "\<not> protocol_char CHR '':''"
    by (simp add: protocol_char_def is_alnum_def is_digit_def digit_value_def is_upper_def is_lower_def)
  then have "takeWhile protocol_char (p @ CHR '':'' # r) = p" using assms(2) by (simp add: takeWhile_append list_all_iff takeWhile_eq_all_conv [THEN iffD2])
  moreover have "camel_strdown p = p" using assms(2) by (simp add: camel_strdown_def list_all_iff map_idI)
  ultimately show ?thesis using assms(1) by (simp add: parse_protocol_def)
qed

text \<open>Without a base the early return for a URL that ends behind its protocol makes no difference.\<close>

lemma new_without_base:
  "camel_url_new_with_base set_data None s =
     (let hash = dropWhile (\<lambda>c. c \<noteq> CHR ''#'') s;
          url = (if hash \<noteq> [] \<and> tl hash \<noteq> [] then url_new0\<lparr>url_fragment := Some (camel_url_decode (tl hash))\<rparr> else url_new0);
          (s, url) = parse_protocol s url; (s, url) = parse_authority s url
      in Inr (parse_rest set_data (take (length s - length hash) s) (hash \<noteq> []) url))"
proof -
  have "parse_authority [] url = ([], url)" "parse_rest set_data [] hash url = url" for url hash
    by (simp_all add: parse_authority_def parse_rest_def)
  then show ?thesis by (simp add: camel_url_new_with_base_def apply_base_def Let_def split_beta)
qed

text \<open>What GLib documents of \<^verbatim>\<open>g_datalist_set_data_full\<close>: the datum of the key is set and every other one is kept.\<close>

definition datalist_set :: "(gdata \<Rightarrow> string \<Rightarrow> string \<Rightarrow> gdata) \<Rightarrow> bool" where
  "datalist_set set_data \<longleftrightarrow>
     (\<forall>d key data. distinct (map fst d) \<longrightarrow>
        distinct (map fst (set_data d key data)) \<and> map_of (set_data d key data) = (map_of d)(key \<mapsto> data))"

lemma copy_params_map:
  assumes "datalist_set set_data" "distinct (map fst to)" "distinct (map fst from)"
  shows "distinct (map fst (copy_params set_data from to)) \<and> map_of (copy_params set_data from to) = map_of to ++ map_of from"
  using assms(2,3)
proof (induction "from" arbitrary: to)
  case (Cons kv ps)
  obtain k v where kv: "kv = (k, v)" by fastforce
  have d: "distinct (map fst (set_data to k v))" "map_of (set_data to k v) = (map_of to)(k \<mapsto> v)"
    using assms(1) Cons.prems(1) unfolding datalist_set_def by blast+
  have "k \<notin> dom (map_of ps)" using Cons.prems(2) kv by (simp add: dom_map_of_conv_image_fst)
  then have "(map_of to)(k \<mapsto> v) ++ map_of ps = map_of to ++ (map_of ps)(k \<mapsto> v)"
    by (auto simp: map_add_def fun_eq_iff split: option.split)
  moreover have "copy_params set_data (kv # ps) to = copy_params set_data ps (set_data to k v)" by (simp add: copy_params_def kv)
  moreover have "map_of (kv # ps) = (map_of ps)(k \<mapsto> v)" by (simp add: kv)
  moreover have "distinct (map fst ps)" using Cons.prems(2) by simp
  ultimately show ?case using Cons.IH [OF d(1)] d(2) by (simp only:)
qed (simp add: copy_params_def)

lemma print_rest_no_hash [simp]: "CHR ''#'' \<notin> set (print_rest v)"
  by (auto simp: print_rest_def print_opt_def split: option.split)

lemma protocol_no_hash: "list_all (\<lambda>c. protocol_char c \<and> \<not> is_upper c) p \<Longrightarrow> CHR ''#'' \<notin> set p"
  by (auto simp: list_all_iff protocol_char_def is_alnum_def is_lower_def dest!: bspec [of _ _ "CHR ''#''"])

text \<open>Without a host the path does not look like one.\<close>

lemma encode_not_authority:
  assumes "take 2 p \<noteq> ''//''" "r = [] \<or> hd r \<noteq> CHR ''/''"
  shows "take 2 (camel_url_encode p '';?'' @ r) \<noteq> ''//''"
proof (cases p)
  case Nil
  with assms(2) show ?thesis by (cases r) auto
next
  case (Cons c p')
  note c = Cons
  have hd: "p'' \<noteq> [] \<Longrightarrow> hd (camel_url_encode p'' x) = (if needs_encoding x (hd p'') then CHR ''%'' else hd p'')" for p'' x
    by (cases p'') (simp_all add: encode_Cons)
  show ?thesis
  proof (cases "needs_encoding '';?'' c \<or> c \<noteq> CHR ''/''")
    case True
    then show ?thesis by (auto simp: c encode_Cons)
  next
    case False
    then show ?thesis using assms hd [of p' "'';?''"]
      by (cases p'; cases r) (auto simp: c encode_Cons)
  qed
qed

lemma authority_of_print:
  assumes "printable_url v" "\<And>h. url_host v = Some h \<Longrightarrow> url_path v = None \<Longrightarrow> print_rest v @ frag = []"
    and "frag = [] \<or> hd frag = CHR ''#''"
    and "url_user url = None" "url_authmech url = None" "url_passwd url = None" "url_host url = None" "url_port url = 0"
  shows "parse_authority ((case url_host v of None \<Rightarrow> [] | Some h \<Rightarrow> ''//'' @ print_userinfo v @ print_host v h) @ print_rest v @ frag) url =
    (print_rest v @ frag, url\<lparr>url_passwd := url_passwd v, url_authmech := url_authmech v, url_user := url_user v,
            url_host := url_host v, url_port := url_port v\<rparr>)"
proof (cases "url_host v")
  case None
  let ?t = "print_params (url_params v) @ print_opt ''?'' [] (url_query v) @ frag"
  have none: "url_user v = None" "url_authmech v = None" "url_passwd v = None" "url_port v = 0"
    "\<forall>p. url_path v = Some p \<longrightarrow> take 2 p \<noteq> ''//''"
    using assms(1) None by (auto simp: printable_url_def)
  have t: "?t = [] \<or> hd ?t \<noteq> CHR ''/''"
    using print_params_shape [of "url_params v"] assms(3) by (auto simp: print_opt_def split: option.split)
  have "take 2 (print_rest v @ frag) \<noteq> ''//''"
  proof (cases "url_path v")
    case None
    with encode_not_authority [of "[]", OF _ t] show ?thesis by (simp add: print_rest_def print_opt_def [of "[]"])
  next
    case (Some p)
    with none(5) encode_not_authority [of p, OF _ t] show ?thesis by (simp add: print_rest_def print_opt_def [of "[]"])
  qed
  with None none assms(4-8) show ?thesis by (simp add: parse_authority_def)
next
  case (Some h)
  have "print_rest v @ frag = [] \<or> hd (print_rest v @ frag) = CHR ''/''"
  proof (cases "url_path v")
    case None
    with assms(2) [OF Some] show ?thesis by simp
  next
    case p: (Some p)
    then obtain p' where "p = CHR ''/'' # p'" using assms(1) Some by (cases p) (auto simp: printable_url_def printable_part_def)
    with p show ?thesis by (simp add: print_rest_def print_opt_def encode_Cons needs_encoding_def url_encoded_char_def)
  qed
  with Some assms(1) parse_authority_print [of h v "print_rest v @ frag" url] show ?thesis
    by (simp add: printable_url_def split: option.splits)
qed

lemma print_fragment_shape:
  assumes "printable_part f"
  shows "print_opt ''#'' [] f = [] \<and> f = None \<or> (\<exists>t. f = Some t \<and> t \<noteq> [] \<and> CHR 0x00 \<notin> set t \<and> print_opt ''#'' [] f = CHR ''#'' # camel_url_encode t [])"
  using assms by (auto simp: printable_part_def print_opt_def split: option.splits)

lemma parse_print:
  assumes "printable_url u"
  shows "camel_url_new_with_base set_data None (camel_url_to_string u flags) =
    Inr ((visible flags u)\<lparr>url_params := copy_params set_data (url_params (visible flags u)) []\<rparr>)"
proof -
  define v where "v = visible flags u"
  define frag where "frag = print_opt ''#'' [] (url_fragment v)"
  define auth where "auth = (case url_host v of None \<Rightarrow> [] | Some h \<Rightarrow> ''//'' @ print_userinfo v @ print_host v h)"
  have pv: "printable_url v" using visible_printable [OF assms] by (simp add: v_def)
  obtain p where p: "url_protocol v = Some p" "p \<noteq> []" "list_all (\<lambda>c. protocol_char c \<and> \<not> is_upper c) p"
    using pv by (auto simp: printable_url_def printable_protocol_def split: option.splits)
  have auth: "url_authmech u \<noteq> Some []" using assms by (auto simp: printable_url_def printable_part_def)
  have str: "camel_url_to_string u flags = p @ CHR '':'' # auth @ print_rest v @ frag"
    using to_string_parts [OF auth, of flags] p(1) unfolding auth_def frag_def v_def by simp
  have frag: "frag = [] \<and> url_fragment v = None
      \<or> (\<exists>t. url_fragment v = Some t \<and> t \<noteq> [] \<and> CHR 0x00 \<notin> set t \<and> frag = CHR ''#'' # camel_url_encode t [])"
    unfolding frag_def using pv by (intro print_fragment_shape) (simp add: printable_url_def)
  have nohash: "CHR ''#'' \<notin> set (p @ CHR '':'' # auth @ print_rest v)"
    using protocol_no_hash [OF p(3)] by (auto simp: auth_def split: option.splits)
  have hash: "dropWhile (\<lambda>c. c \<noteq> CHR ''#'') (camel_url_to_string u flags) = frag"
  proof -
    have "dropWhile (\<lambda>c. c \<noteq> CHR ''#'') ((p @ CHR '':'' # auth @ print_rest v) @ frag) = dropWhile (\<lambda>c. c \<noteq> CHR ''#'') frag"
      using nohash by (intro dropWhile_append2) metis
    with frag str show ?thesis by auto
  qed
  have rest_empty: "print_rest v @ frag = []" if "url_host v = Some h" "url_path v = None" for h
    using that by (auto simp: v_def visible_def print_rest_def print_opt_def print_params_def frag_def split: if_splits)
  define url where "url = url_new0\<lparr>url_fragment := url_fragment v, url_protocol := Some p\<rparr>"
  have start: "(if frag \<noteq> [] \<and> tl frag \<noteq> [] then url_new0\<lparr>url_fragment := Some (camel_url_decode (tl frag))\<rparr> else url_new0)
      = url_new0\<lparr>url_fragment := url_fragment v\<rparr>"
    using frag by (auto simp: decode_encode url_new0_def)
  have prot: "parse_protocol (camel_url_to_string u flags) (url_new0\<lparr>url_fragment := url_fragment v\<rparr>) = (auth @ print_rest v @ frag, url)"
    unfolding str url_def by (rule parse_protocol_print [OF p(2,3)])
  have authp: "parse_authority (auth @ print_rest v @ frag) url =
      (print_rest v @ frag, url\<lparr>url_passwd := url_passwd v, url_authmech := url_authmech v, url_user := url_user v,
            url_host := url_host v, url_port := url_port v\<rparr>)"
    unfolding auth_def using frag by (intro authority_of_print [OF pv rest_empty]) (auto simp: url_def url_new0_def)
  have body: "take (length (print_rest v @ frag) - length frag) (print_rest v @ frag) = print_rest v" by simp
  show ?thesis unfolding new_without_base Let_def hash start prot prod.case authp v_def [symmetric] body
    using pv p(1) by (subst parse_rest_print [where v = v]) (auto simp: printable_url_def url_def url_new0_def)
qed

text \<open>
  C7. A URL that is printed, with any of its parts hidden, is parsed to exactly the parts that were shown,
  for all URLs without the characters that the code forgets to escape, and whatever the order in which
  the parameters are visited.
\<close>

theorem url_round_trip:
  assumes "printable_url u" "datalist_set set_data" "distinct (map fst (url_params u))"
  shows "\<exists>params. camel_url_new set_data (Some (camel_url_to_string u flags)) = Inr ((visible flags u)\<lparr>url_params := params\<rparr>)
    \<and> map_of params = map_of (url_params (visible flags u))"
proof -
  obtain p where p: "url_protocol u = Some p" "p \<noteq> []"
    using assms(1) by (auto simp: printable_url_def printable_protocol_def split: option.splits)
  have ne: "camel_url_to_string u flags \<noteq> []"
  proof -
    have "url_authmech u \<noteq> Some []" using assms(1) by (auto simp: printable_url_def printable_part_def)
    with to_string_parts [of u flags] p show ?thesis by simp
  qed
  have d: "distinct (map fst (url_params (visible flags u)))" using assms(3) by (simp add: visible_def)
  show ?thesis
    using parse_print [OF assms(1), of set_data flags] copy_params_map [OF assms(2) _ d, of "[]"] ne p
    by (intro exI [of _ "copy_params set_data (url_params (visible flags u)) []"]) (simp add: camel_url_new_def)
qed

definition sample_url :: camel_url where
  "sample_url = \<lparr>url_protocol = Some ''imap'', url_user = Some ''us:er'', url_authmech = Some ''APOP'', url_passwd = Some ''p@ss'',
     url_host = Some ''host'', url_port = 143, url_path = Some ''/a?b'', url_params = [(''k'', ''v=1''), (''use_ssl'', [])],
     url_query = Some ''q #'', url_fragment = None\<rparr>"

definition prepend_data :: "gdata \<Rightarrow> string \<Rightarrow> string \<Rightarrow> gdata" where
  "prepend_data d key data = (key, data) # filter (\<lambda>kv. fst kv \<noteq> key) d"

lemma prepend_datalist: "datalist_set prepend_data"
proof -
  have "map_of (filter (\<lambda>kv. fst kv \<noteq> key) d) x = (if x = key then None else map_of d x)" for d :: gdata and key x
    by (induction d) auto
  then show ?thesis by (auto simp: datalist_set_def prepend_data_def distinct_map_filter fun_eq_iff)
qed

theorem url_round_trip_witness:
  "printable_url sample_url \<and> (\<exists>params. camel_url_new prepend_data (Some (camel_url_to_string sample_url CAMEL_URL_HIDE_PASSWORD))
      = Inr ((visible CAMEL_URL_HIDE_PASSWORD sample_url)\<lparr>url_params := params\<rparr>)
    \<and> map_of params = map_of (url_params (visible CAMEL_URL_HIDE_PASSWORD sample_url)))"
proof -
  have "printable_url sample_url" by code_simp
  moreover have "distinct (map fst (url_params sample_url))" by (simp add: sample_url_def)
  ultimately show ?thesis using url_round_trip [of sample_url prepend_data CAMEL_URL_HIDE_PASSWORD] prepend_datalist by blast
qed

end
