(* ===== verification/Camel_Url_Resolve.thy ===== *)
theory Camel_Url_Resolve
  imports Camel_Url_Laws
begin

text \<open>
  The path of a relative URL. The code edits the merged path in place in four passes; the properties
  relate them to a walk over the segments of the path with a stack of directories.
\<close>

definition segment :: "string \<Rightarrow> bool" where
  "segment s \<longleftrightarrow> s \<noteq> [] \<and> CHR ''/'' \<notin> set s"

text \<open>A path is its directories, each with a slash behind it, and a last segment.\<close>

definition dirs :: "string list \<Rightarrow> string" where
  "dirs ds = concat (map (\<lambda>d. d @ ''/'') ds)"

text \<open>The walk: a \<^verbatim>\<open>..\<close> leaves the directory that was entered last, unless there is none to leave.\<close>

fun climb :: "string list \<Rightarrow> string list \<Rightarrow> string list" where
  "climb st [] = rev st"
| "climb st (d # ds) = (if d = ''..'' \<and> st \<noteq> [] \<and> hd st \<noteq> ''..'' then climb (tl st) ds else climb (d # st) ds)"

definition resolve_segments :: "string list \<Rightarrow> string \<Rightarrow> url_error + string" where
  "resolve_segments ds l =
     (let ds = filter (\<lambda>d. d \<noteq> ''.'') ds; es = climb [] ds
      in if l = ''..'' then
           (if es = [] then Inl OUTSIDE_BUFFER
            else if last es = ''..'' then Inr (CHR ''/'' # dirs es @ l) else Inr (CHR ''/'' # dirs (butlast es)))
         else if l = ''.'' \<and> ds \<noteq> [] then Inr (CHR ''/'' # dirs es)
         else Inr (CHR ''/'' # dirs es @ l))"

lemma dirs_simps [simp]: "dirs [] = []" "dirs (d # ds) = d @ CHR ''/'' # dirs ds" "dirs (ds @ es) = dirs ds @ dirs es"
  by (simp_all add: dirs_def)

lemma climb_append: "climb st (ps @ xs) = climb (rev (climb st ps)) xs"
  by (induction st ps rule: climb.induct) simp_all

section \<open>Single dots\<close>

lemma remove_dots_keep: "prev \<noteq> CHR ''/'' \<or> c \<noteq> CHR ''.'' \<or> s = [] \<or> hd s \<noteq> CHR ''/'' \<Longrightarrow> remove_dots prev (c # s) = c # remove_dots c s"
  by (cases s) auto

lemma remove_dots_inside:
  assumes "CHR ''/'' \<notin> set d" "prev \<noteq> CHR ''/''"
  shows "remove_dots prev (d @ CHR ''/'' # r) = d @ CHR ''/'' # remove_dots CHR ''/'' r"
  using assms
proof (induction d arbitrary: prev)
  case Nil
  then show ?case using remove_dots_keep [of prev "CHR ''/''" r] by simp
next
  case (Cons c d)
  then have "c \<noteq> CHR ''/''" by auto
  then show ?case using Cons remove_dots_keep [of prev c "d @ CHR ''/'' # r"] by simp
qed

lemma remove_dots_segment:
  assumes "CHR ''/'' \<notin> set d" "d \<noteq> ''.''"
  shows "remove_dots CHR ''/'' (d @ CHR ''/'' # r) = d @ CHR ''/'' # remove_dots CHR ''/'' r"
proof (cases d)
  case Nil
  then show ?thesis using remove_dots_keep [of "CHR ''/''" "CHR ''/''" r] by simp
next
  case (Cons c d')
  with assms have "c \<noteq> CHR ''.'' \<or> hd (d' @ CHR ''/'' # r) \<noteq> CHR ''/''" "c \<noteq> CHR ''/''" by (cases d'; auto)+
  then show ?thesis using assms(1) Cons remove_dots_inside [of d' c r] remove_dots_keep [of "CHR ''/''" c "d' @ CHR ''/'' # r"] by simp
qed

lemma remove_dots_last: "CHR ''/'' \<notin> set l \<Longrightarrow> remove_dots prev l = l"
proof (induction l arbitrary: prev)
  case (Cons c l)
  then have "l = [] \<or> hd l \<noteq> CHR ''/''" by (cases l) auto
  then show ?case using Cons remove_dots_keep [of prev c l] by simp
qed simp

lemma remove_dots_dirs:
  assumes "\<forall>d\<in>set ds. segment d" "CHR ''/'' \<notin> set l"
  shows "remove_dots CHR ''/'' (dirs ds @ l) = dirs (filter (\<lambda>d. d \<noteq> ''.'') ds) @ l"
  using assms(1)
proof (induction ds)
  case (Cons d ds)
  then show ?case using remove_dots_segment [of d "dirs ds @ l"] by (auto simp: segment_def)
qed (simp add: remove_dots_last assms(2))

lemma dirs_last: "CHR ''/'' # dirs ds = butlast (CHR ''/'' # dirs ds) @ ''/''"
  by (cases ds rule: rev_cases) (simp_all add: butlast_append)

lemma remove_last_dot_dirs:
  assumes "CHR ''/'' \<notin> set l"
  shows "remove_last_dot (CHR ''/'' # dirs ds @ l) = (if l = ''.'' \<and> dirs ds \<noteq> [] then CHR ''/'' # dirs ds else CHR ''/'' # dirs ds @ l)"
proof (cases l rule: rev_cases)
  case Nil
  have "(CHR ''/'' # dirs ds) ! (length (CHR ''/'' # dirs ds) - 1) = CHR ''/''"
    by (subst (1 2) dirs_last) (simp add: nth_append)
  with Nil show ?thesis by (simp add: remove_last_dot_def)
next
  case (snoc l' c)
  show ?thesis
  proof (cases l' rule: rev_cases)
    case Nil
    have "(CHR ''/'' # dirs ds @ [c]) ! length (dirs ds) = CHR ''/''"
      by (subst append_Cons [symmetric], subst dirs_last) (simp add: nth_append)
    with Nil snoc show ?thesis by (auto simp: remove_last_dot_def nth_append)
  next
    case (snoc l'' e)
    with \<open>l = l' @ [c]\<close> assms show ?thesis by (auto simp: remove_last_dot_def nth_append)
  qed
qed

section \<open>Double dots\<close>

text \<open>One round of the loop, at the start of a segment.\<close>

lemma updirs_skip: "remove_updirs passed (''..'' @ CHR ''/'' # r) = remove_updirs (passed @ ''../'') r"
  by (subst remove_updirs.simps) simp

lemma updirs_segment:
  assumes "segment d" "d \<noteq> ''..''"
  shows "remove_updirs passed (d @ CHR ''/'' # r) =
    (if take 3 r = ''../'' then remove_updirs [] (passed @ drop 3 r) else remove_updirs (passed @ d @ ''/'') r)"
proof -
  obtain a d' where d: "d = a # d'" using assms(1) by (cases d) (auto simp: segment_def)
  have k: "strchr (d' @ CHR ''/'' # r) CHR ''/'' = Some (length d')"
    using assms(1) d by (intro strchr_Some) (simp add: segment_def)
  have "take 3 (d @ CHR ''/'' # r) \<noteq> ''../''"
  proof (cases d')
    case Nil
    with d show ?thesis by simp
  next
    case (Cons b d'')
    with d assms show ?thesis by (cases d'') (auto simp: segment_def)
  qed
  moreover have "drop (length d' + 5) (a # d' @ CHR ''/'' # r) = drop 3 r"
  proof -
    have "length d' + 5 = Suc (length d' + 4)" by simp
    then show ?thesis by (simp only: drop_Suc_Cons) simp
  qed
  ultimately show ?thesis by (subst remove_updirs.simps) (auto simp: k d)
qed

lemma updirs_last: "CHR ''/'' \<notin> set l \<Longrightarrow> remove_updirs passed l = passed @ l"
proof -
  assume l: "CHR ''/'' \<notin> set l"
  then have "take 3 l \<noteq> ''../''" by (metis in_set_takeD list.set_intros(1) list.set_intros(2))
  moreover have "CHR ''/'' \<notin> set (tl l)" using l by (cases l) auto
  ultimately show ?thesis by (subst remove_updirs.simps) simp
qed

lemma next_updir:
  assumes "\<forall>d\<in>set ds. segment d" "CHR ''/'' \<notin> set l"
  shows "take 3 (dirs ds @ l) = ''../'' \<longleftrightarrow> (\<exists>es. ds = ''..'' # es)"
proof (cases ds)
  case Nil
  have "take 3 l \<noteq> ''../''" using assms(2) by (metis in_set_takeD list.set_intros(1) list.set_intros(2))
  with Nil show ?thesis by simp
next
  case (Cons d es)
  then obtain a d' where d: "d = a # d'" "CHR ''/'' \<notin> set d" using assms(1) by (cases d) (auto simp: segment_def)
  then show ?thesis using Cons by (cases d'; cases "tl d'") auto
qed

text \<open>
  The directories before \<^verbatim>\<open>p\<close> cannot be shortened among themselves, nor with the next one: that is what a
  restart of the loop finds again.
\<close>

lemma updirs_climb:
  assumes "\<forall>d\<in>set (ps @ xs). segment d" "CHR ''/'' \<notin> set l"
    and "climb [] ps = ps" "ps \<noteq> [] \<Longrightarrow> last ps \<noteq> ''..'' \<Longrightarrow> (\<nexists>ys. xs = ''..'' # ys)"
  shows "remove_updirs (dirs ps) (dirs xs @ l) = dirs (climb [] (ps @ xs)) @ l"
  using assms(1,3,4)
proof (induction "(ps, xs)" arbitrary: ps xs
    rule: wf_induct_rule [OF wf_measures [of "[\<lambda>(ps, xs). length ps + length xs, \<lambda>(ps, xs). length xs]"]])
  case 1
  note segs = 1(2) and irr = 1(3) and nxt = 1(4)
  show ?case
  proof (cases xs)
    case Nil
    then show ?thesis using irr by (simp add: updirs_last assms(2))
  next
    case (Cons d ys)
    have climb: "climb [] (ps @ zs) = climb (rev ps) zs" for zs by (simp add: climb_append irr)
    have d: "segment d" "\<forall>e\<in>set ys. segment e" using segs Cons by auto
    show ?thesis
    proof (cases "d = ''..''")
      case True
      then have irr': "climb [] (ps @ [d]) = ps @ [d]" using nxt Cons by (auto simp: climb hd_rev)
      have "remove_updirs (dirs (ps @ [d])) (dirs ys @ l) = dirs (climb [] ((ps @ [d]) @ ys)) @ l"
        by (rule 1(1)) (use segs Cons irr' True in \<open>auto\<close>)
      then show ?thesis using True Cons updirs_skip [of "dirs ps" "dirs ys @ l"] by simp
    next
      case False
      note round = updirs_segment [OF d(1) False, of "dirs ps" "dirs ys @ l"]
      show ?thesis
      proof (cases "\<exists>es. ys = ''..'' # es")
        case True
        then obtain es where es: "ys = ''..'' # es" by blast
        have "climb [] (ps @ xs) = climb [] (ps @ es)" using Cons es False by (simp add: climb)
        moreover have "remove_updirs (dirs []) (dirs (ps @ es) @ l) = dirs (climb [] ([] @ ps @ es)) @ l"
          by (rule 1(1)) (use segs Cons es in auto)
        ultimately show ?thesis using round Cons es by simp
      next
        case no: False
        then have "take 3 (dirs ys @ l) \<noteq> ''../''" using next_updir [OF d(2) assms(2)] by simp
        moreover have "remove_updirs (dirs (ps @ [d])) (dirs ys @ l) = dirs (climb [] ((ps @ [d]) @ ys)) @ l"
          by (rule 1(1)) (use segs Cons False no in \<open>auto simp: climb\<close>)
        ultimately show ?thesis using round Cons by simp
      qed
    qed
  qed
qed

lemma climb_segments: "\<forall>d\<in>set st \<union> set ds. segment d \<Longrightarrow> \<forall>d\<in>set (climb st ds). segment d"
proof (induction st ds rule: climb.induct)
  case (2 st d ds)
  have "set (tl st) \<subseteq> set st" by (cases st) auto
  with 2 show ?case by auto
qed auto

section \<open>Double dots at the end\<close>

lemma back_to_slash_segment:
  assumes "CHR ''/'' \<notin> set e"
  shows "back_to_slash (a @ CHR ''/'' # e @ b) (length a + length e) = length a"
  using assms
proof (induction e arbitrary: b rule: rev_induct)
  case Nil
  then show ?case by (cases "length a") (simp_all add: nth_append)
next
  case (snoc c e)
  have "(a @ CHR ''/'' # e @ c # b) ! Suc (length a + length e) = c" by (simp add: nth_append)
  with snoc.prems snoc.IH [of "c # b"] show ?case by auto
qed

lemma remove_last_updir_dirs:
  assumes "\<forall>d\<in>set es. segment d" "CHR ''/'' \<notin> set l"
  shows "remove_last_updir (CHR ''/'' # dirs es @ l) =
    (if l = ''..'' then
       (if es = [] then Inl OUTSIDE_BUFFER
        else if last es = ''..'' then Inr (CHR ''/'' # dirs es @ l) else Inr (CHR ''/'' # dirs (butlast es)))
     else Inr (CHR ''/'' # dirs es @ l))"
proof (cases "l = ''..''")
  case True
  show ?thesis
  proof (cases es rule: rev_cases)
    case Nil
    with True show ?thesis by (simp add: remove_last_updir_def)
  next
    case (snoc fs e)
    define a where "a = butlast (CHR ''/'' # dirs fs)"
    have a: "CHR ''/'' # dirs fs = a @ ''/''" unfolding a_def by (rule dirs_last)
    have e: "segment e" using assms(1) snoc by simp
    have path: "CHR ''/'' # dirs es @ l = a @ CHR ''/'' # e @ ''/..''" using a snoc True by simp
    have "take 4 (CHR ''/'' # e @ ''/..'') = ''/../'' \<longleftrightarrow> e = ''..''"
    proof -
      have "take 3 (e @ ''/..'') = ''../'' \<longleftrightarrow> e = ''..''"
        using next_updir [of "[e]" "''..''"] e by simp
      then show ?thesis by simp
    qed
    moreover have "back_to_slash (a @ CHR ''/'' # e @ ''/..'') (length a + length e) = length a"
      using e by (intro back_to_slash_segment) (simp add: segment_def)
    moreover have "Inr (CHR ''/'' # dirs (butlast es)) = Inr (a @ ''/'')" using snoc a by simp
    ultimately show ?thesis unfolding path using e snoc True path
      by (auto simp: remove_last_updir_def segment_def Let_def)
  qed
next
  case False
  have "\<not> (length (CHR ''/'' # dirs es @ l) \<ge> 3 \<and> drop (length (CHR ''/'' # dirs es @ l) - 3) (CHR ''/'' # dirs es @ l) = ''/..'')"
    (is "\<not> (_ \<and> ?d = _)")
  proof
    assume "length (CHR ''/'' # dirs es @ l) \<ge> 3 \<and> ?d = ''/..''"
    then obtain b where b: "CHR ''/'' # dirs es @ l = b @ ''/..''" by (metis append_take_drop_id)
    have "rev (takeWhile (\<lambda>c. c \<noteq> CHR ''/'') (rev (CHR ''/'' # dirs es @ l))) = l"
    proof -
      have "takeWhile (\<lambda>c. c \<noteq> CHR ''/'') (rev l @ rev (CHR ''/'' # dirs es)) = rev l"
        using assms(2) by (subst dirs_last) (auto simp: takeWhile_append)
      then show ?thesis by simp
    qed
    with b False show False by simp
  qed
  with False show ?thesis by (simp only: remove_last_updir_def if_False)
qed

section \<open>The resolved path\<close>

lemma edit_path:
  assumes "\<forall>d\<in>set ds. segment d" "CHR ''/'' \<notin> set l"
  shows "(let newpath = CHR ''/'' # dirs ds @ l; newpath = hd newpath # remove_dots (hd newpath) (tl newpath);
             newpath = remove_last_dot newpath; newpath = hd newpath # remove_updirs [] (tl newpath)
          in remove_last_updir newpath) = resolve_segments ds l"
proof -
  define fs where "fs = filter (\<lambda>d. d \<noteq> ''.'') ds"
  have fs: "\<forall>d\<in>set fs. segment d" using assms(1) by (simp add: fs_def)
  have nil: "dirs fs = [] \<longleftrightarrow> fs = []" by (cases fs) simp_all
  have up: "remove_updirs [] (dirs fs @ k) = dirs (climb [] fs) @ k" if "CHR ''/'' \<notin> set k" for k
    using updirs_climb [of "[]" fs k] fs that by simp
  have es: "\<forall>d\<in>set (climb [] fs). segment d" using climb_segments [of "[]" fs] fs by simp
  define k where "k = (if l = ''.'' \<and> fs \<noteq> [] then [] else l)"
  have k: "CHR ''/'' \<notin> set k" using assms(2) by (simp add: k_def)
  have "remove_last_dot (CHR ''/'' # dirs fs @ l) = CHR ''/'' # dirs fs @ k"
    using remove_last_dot_dirs [OF assms(2), of fs] nil by (simp add: k_def)
  then have "(let newpath = CHR ''/'' # dirs ds @ l; newpath = hd newpath # remove_dots (hd newpath) (tl newpath);
      newpath = remove_last_dot newpath; newpath = hd newpath # remove_updirs [] (tl newpath)
    in remove_last_updir newpath) = remove_last_updir (CHR ''/'' # dirs (climb [] fs) @ k)"
    using remove_dots_dirs [OF assms] up [OF k] by (simp add: Let_def flip: fs_def)
  also have "\<dots> = resolve_segments ds l"
    unfolding remove_last_updir_dirs [OF es k] unfolding resolve_segments_def Let_def fs_def [symmetric] k_def by auto
  finally show ?thesis .
qed

lemma last_slash: "CHR ''/'' \<notin> set bl \<Longrightarrow> strrchr_slash (CHR ''/'' # dirs bs @ bl) = Some (length (dirs bs))"
proof -
  assume bl: "CHR ''/'' \<notin> set bl"
  have "takeWhile (\<lambda>c. c \<noteq> CHR ''/'') (rev bl @ rev (CHR ''/'' # dirs bs)) = rev bl"
    using bl by (subst dirs_last) (auto simp: takeWhile_append)
  then show ?thesis by (simp add: strrchr_slash_def)
qed

text \<open>
  C8. Merging a path with that of the base is the walk over the directories of the base and those of the
  path: single dots are dropped and each \<^verbatim>\<open>..\<close> leaves the directory before it.
\<close>

theorem merge_path_resolves:
  assumes "\<forall>d\<in>set (bs @ rs). segment d" "CHR ''/'' \<notin> set bl" "CHR ''/'' \<notin> set l"
  shows "merge_path (Some (CHR ''/'' # dirs bs @ bl)) (dirs rs @ l) = resolve_segments (bs @ rs) l
    \<and> merge_path None (dirs rs @ l) = resolve_segments rs l"
proof
  define a where "a = butlast (CHR ''/'' # dirs bs)"
  have a: "CHR ''/'' # dirs bs = a @ ''/''" unfolding a_def by (rule dirs_last)
  have base: "CHR ''/'' # dirs bs @ bl = a @ CHR ''/'' # bl" using a by simp
  have "length a = length (dirs bs)" by (simp add: a_def)
  then have "take (length (dirs bs)) (CHR ''/'' # dirs bs @ bl) = a" unfolding base by simp
  then have merged: "take (length (dirs bs)) (CHR ''/'' # dirs bs @ bl) @ CHR ''/'' # dirs rs @ l = CHR ''/'' # dirs (bs @ rs) @ l"
    using a by simp
  show "merge_path (Some (CHR ''/'' # dirs bs @ bl)) (dirs rs @ l) = resolve_segments (bs @ rs) l"
    unfolding merge_path_def Let_def option.case last_slash [OF assms(2)] option.sel merged
    by (rule edit_path [OF assms(1,3), unfolded Let_def])
  show "merge_path None (dirs rs @ l) = resolve_segments rs l"
    using edit_path [of rs l] assms(1,3) by (simp add: merge_path_def Let_def)
qed

theorem merge_path_resolves_witness:
  "merge_path (Some ''/b/c/d'') ''./x/../../g'' = Inr ''/b/g''
    \<and> merge_path None ''a/../g/.'' = Inr ''/g/''"
proof -
  have "merge_path (Some (CHR ''/'' # dirs [''b'', ''c''] @ ''d'')) (dirs [''.'', ''x'', ''..'', ''..''] @ ''g'')
      = resolve_segments ([''b'', ''c''] @ [''.'', ''x'', ''..'', ''..'']) ''g''"
    by (rule merge_path_resolves [THEN conjunct1]) (simp_all add: segment_def)
  moreover have "resolve_segments ([''b'', ''c''] @ [''.'', ''x'', ''..'', ''..'']) ''g'' = Inr ''/b/g''"
    by (simp add: resolve_segments_def)
  moreover have "merge_path None (dirs [''a'', ''..'', ''g''] @ ''.'') = resolve_segments [''a'', ''..'', ''g''] ''.''"
    by (rule merge_path_resolves [of "[]" "[''a'', ''..'', ''g'']" "[]" "''.''", THEN conjunct2]) (simp_all add: segment_def)
  moreover have "resolve_segments [''a'', ''..'', ''g''] ''.'' = Inr ''/g/''"
    by (simp add: resolve_segments_def)
  ultimately show ?thesis by simp
qed

text \<open>
  C40. The relative URL \<^verbatim>\<open>..\<close> against a base without a directory, such as \<^verbatim>\<open>http://host/file\<close> or
  \<^verbatim>\<open>http://host\<close>: the code reads in front of the path it allocated.
\<close>

theorem updir_reads_before_path:
  assumes "url_path base = None \<or> (\<exists>file. url_path base = Some (CHR ''/'' # file) \<and> CHR ''/'' \<notin> set file)"
  shows "camel_url_new_with_base set_data (Some base) ''..'' = Inl OUTSIDE_BUFFER"
proof -
  have "parse_protocol ''..'' url_new0 = (''..'', url_new0)"
    by (simp add: parse_protocol_def protocol_char_def)
  moreover have "parse_rest set_data ''..'' False url_new0 = url_new0\<lparr>url_path := Some ''..''\<rparr>"
    by (simp add: parse_rest_def camel_url_decode_def)
  ultimately have "camel_url_new_with_base set_data (Some base) ''..'' = apply_base set_data (Some base) (url_new0\<lparr>url_path := Some ''..''\<rparr>)"
    by (simp add: camel_url_new_with_base_def parse_authority_def)
  moreover have "merge_path (url_path base) ''..'' = Inl OUTSIDE_BUFFER"
    using assms edit_path [of "[]" "''..''"] last_slash [of _ "[]"]
    by (auto simp: merge_path_def resolve_segments_def Let_def)
  ultimately show ?thesis by (simp add: apply_base_def url_new0_def)
qed

theorem updir_reads_before_path_witness:
  "camel_url_new_with_base prepend_data (Some (url_new0\<lparr>url_protocol := Some ''http'', url_host := Some ''a'', url_path := Some ''/b''\<rparr>)) ''..''
     = Inl OUTSIDE_BUFFER"
  by (rule updir_reads_before_path) (simp add: url_new0_def)

section \<open>What the code does not escape\<close>

text \<open>A semicolon in a parameter is not escaped, and a host with a port is not decoded.\<close>

lemma semicolon_splits_param:
  "camel_url_new prepend_data (Some (camel_url_to_string
      (url_new0\<lparr>url_protocol := Some ''pop'', url_host := Some ''h'', url_path := Some ''/'', url_params := [(''k'', ''a;b'')]\<rparr>) 0))
    = Inr (url_new0\<lparr>url_protocol := Some ''pop'', url_host := Some ''h'', url_path := Some ''/'',
        url_params := [(''b'', []), (''k'', ''a'')]\<rparr>)"
  by code_simp

lemma host_with_port_not_decoded:
  "camel_url_new prepend_data (Some (camel_url_to_string
      (url_new0\<lparr>url_protocol := Some ''pop'', url_host := Some ''[::1]'', url_port := 110\<rparr>) 0))
    = Inr (url_new0\<lparr>url_protocol := Some ''pop'', url_host := Some ''%5b%3a%3a1%5d'', url_port := 110\<rparr>)"
  by code_simp

text \<open>A single dot against a base without a directory is kept, where a deeper one loses it.\<close>

lemma dot_at_root_kept: "merge_path (Some ''/d'') ''.'' = Inr ''/.''" "merge_path (Some ''/c/d'') ''.'' = Inr ''/c/''"
  by code_simp+

section \<open>Hash tables, copies and decoded paths\<close>

text \<open>URLs that are equal have the same hash value, as a hash table needs it, and a copy is equal.\<close>

lemma check_equal_eq [simp]: "check_equal a b \<longleftrightarrow> a = b"
  by (simp add: check_equal_def split: option.split)

lemma equal_same_hash: "camel_url_equal u1 u2 \<Longrightarrow> camel_url_hash g_str_hash u1 = camel_url_hash g_str_hash u2"
  by (simp add: camel_url_equal_def camel_url_hash_def)

lemma copy_equal:
  assumes "datalist_set set_data" "distinct (map fst (url_params u))"
  shows "camel_url_equal (camel_url_copy set_data u) u
    \<and> camel_url_get_param (camel_url_copy set_data u) name = camel_url_get_param u name"
  using copy_params_map [OF assms(1) _ assms(2), of "[]"]
  by (simp add: camel_url_equal_def camel_url_copy_def camel_url_get_param_def)

lemma equal_ignores_params:
  "camel_url_equal u (camel_url_set_param set_data remove_data u name value)" "camel_url_equal u (camel_url_set_passwd u pw)"
  by (simp_all add: camel_url_equal_def camel_url_set_param_def camel_url_set_passwd_def split: option.split)

text \<open>The empty path, which has no component, is copied to a buffer of no octets.\<close>

lemma empty_path_outside: "camel_url_decode_path (Some []) = Inl OUTSIDE_BUFFER"
  by (simp add: camel_url_decode_path_def)

end
