(* ===== verification/E_Sexp_Parse.thy ===== *)
theory E_Sexp_Parse
  imports E_Sexp_Laws
begin

text \<open>
  The parser of search expressions: the fuel is enough for any input, the tokens of a term are parsed
  back to it, and what the interpreter does with a tree after a parse that fails.
\<close>

section \<open>The fuel is enough\<close>

lemma bind_res_Inr: "bind_res r g = Inr y \<longleftrightarrow> (\<exists>x. r = Inr x \<and> g x = Inr y)"
  by (cases r) auto

lemma close_paren:
  "(case toks of G_TOKEN_RIGHT_PAREN # r \<Rightarrow> Inr (g r) | _ \<Rightarrow> Inl e) = Inr y \<longleftrightarrow> (\<exists>r. toks = G_TOKEN_RIGHT_PAREN # r \<and> y = g r)"
  by (auto split: list.splits token.splits)

lemma parse_consumes_all:
  "(\<forall>t rest. parse_value k toks = Some (Inr (Some t, rest)) \<longrightarrow> length rest < length toks \<and> set rest \<subseteq> set toks)
    \<and> (\<forall>ts rest. parse_values k toks = Some (Inr (ts, rest)) \<longrightarrow> length rest \<le> length toks \<and> set rest \<subseteq> set toks)
    \<and> (\<forall>t rest. parse_list k toks = Some (Inr (t, rest)) \<longrightarrow> length rest < length toks \<and> set rest \<subseteq> set toks)"
proof (induction k arbitrary: toks)
  case (Suc k)
  have v: "length rest < length toks \<and> set rest \<subseteq> set toks" if "parse_value k toks = Some (Inr (Some t, rest))" for toks t rest
    using Suc that by blast
  have vs: "length rest \<le> length toks \<and> set rest \<subseteq> set toks" if "parse_values k toks = Some (Inr (ts, rest))" for toks ts rest
    using Suc that by blast
  have l: "length rest < length toks \<and> set rest \<subseteq> set toks" if "parse_list k toks = Some (Inr (t, rest))" for toks t rest
    using Suc that by blast
  have "length rest < length toks \<and> set rest \<subseteq> set toks" if "parse_value (Suc k) toks = Some (Inr (Some t, rest))" for t rest
    using that
    by (auto simp: bind_res_Inr split: list.splits token.splits if_splits esexp_symbol.splits option.splits dest!: vs l)
  moreover have "length rest \<le> length toks \<and> set rest \<subseteq> set toks" if "parse_values (Suc k) toks = Some (Inr (ts, rest))" for ts rest
    using that
    by (fastforce simp: bind_res_Inr split: if_splits option.splits sum.splits prod.splits dest!: v vs)
  moreover have "length rest < length toks \<and> set rest \<subseteq> set toks" if "parse_list (Suc k) toks = Some (Inr (t, rest))" for t rest
    using that
    by (cases "toks"; cases "hd toks") (auto simp: bind_res_Inr close_paren split: option.splits sum.splits dest!: vs)
  ultimately show ?case by blast
qed simp

lemmas parse_consumes =
  parse_consumes_all [THEN conjunct1, rule_format] parse_consumes_all [THEN conjunct2, THEN conjunct1, rule_format]

lemma parse_fuel_all:
  "(2 * length toks < k \<longrightarrow> parse_value k toks \<noteq> None)
    \<and> (2 * length toks + 1 < k \<longrightarrow> parse_values k toks \<noteq> None)
    \<and> (2 * length toks + 1 < k \<longrightarrow> parse_list k toks \<noteq> None)"
proof (induction k arbitrary: toks)
  case (Suc k)
  have v: "parse_value k toks = None \<Longrightarrow> k \<le> 2 * length toks" for toks
    using Suc [of toks] by fastforce
  have vs: "parse_values k toks = None \<Longrightarrow> k \<le> 2 * length toks + 1" for toks
    using Suc [of toks] by fastforce
  have l: "parse_list k toks = None \<Longrightarrow> k \<le> 2 * length toks + 1" for toks
    using Suc [of toks] by fastforce
  show ?case
  proof (intro conjI impI notI)
    assume "parse_value (Suc k) toks = None" "2 * length toks < Suc k"
    then show False
      by (auto split: list.splits token.splits if_splits esexp_symbol.splits option.splits dest!: vs l)
  next
    assume "parse_values (Suc k) toks = None" "2 * length toks + 1 < Suc k"
    then show False
      by (fastforce split: if_splits option.splits sum.splits prod.splits dest!: v vs parse_consumes)
  next
    assume "parse_list (Suc k) toks = None" "2 * length toks + 1 < Suc k"
    then show False
      by (auto split: list.splits token.splits option.splits sum.splits dest!: vs)
  qed
qed simp

section \<open>The tokens of a term\<close>

fun sym_name :: "esexp_symbol \<Rightarrow> string" where
  "sym_name (Sym_func name fn) = name"
| "sym_name (Sym_ifunc name fn) = name"
| "sym_name (Sym_var name v) = name"

text \<open>How a term is written, before the scanner looks up the names.\<close>

fun term_tokens :: "esexp_term \<Rightarrow> token list" where
  "term_tokens (ESEXP_TERM_INT n) =
     (if n < 0 then [G_TOKEN_CHAR CHR ''-'', G_TOKEN_INT (nat (- n))] else [G_TOKEN_INT (nat n)])"
| "term_tokens (ESEXP_TERM_BOOL b) = [G_TOKEN_CHAR CHR ''#'', G_TOKEN_IDENTIFIER (if b then ''t'' else ''f'')]"
| "term_tokens (ESEXP_TERM_STRING s) = [G_TOKEN_STRING s]"
| "term_tokens (ESEXP_TERM_TIME t) = []"
| "term_tokens (ESEXP_TERM_FUNC s ts) =
     [G_TOKEN_LEFT_PAREN, G_TOKEN_IDENTIFIER (sym_name s)] @ concat (map term_tokens ts) @ [G_TOKEN_RIGHT_PAREN]"
| "term_tokens (ESEXP_TERM_IFUNC s ts) =
     [G_TOKEN_LEFT_PAREN, G_TOKEN_IDENTIFIER (sym_name s)] @ concat (map term_tokens ts) @ [G_TOKEN_RIGHT_PAREN]"
| "term_tokens (ESEXP_TERM_VAR s) = [G_TOKEN_IDENTIFIER (sym_name s)]"
| "term_tokens (ESEXP_TERM_VAR_CALL s ts) = []"

text \<open>
  The terms that can be written: integers of the width of the field, symbols that the interpreter has
  under their name, and booleans as long as their letter is not a symbol. There is no syntax for a time.
\<close>

fun printable :: "(string \<Rightarrow> string) \<Rightarrow> esexp \<Rightarrow> esexp_term \<Rightarrow> bool" where
  "printable key f (ESEXP_TERM_INT n) \<longleftrightarrow> - (2 ^ 31) \<le> n \<and> n < 2 ^ 31"
| "printable key f (ESEXP_TERM_BOOL b) \<longleftrightarrow> sexp_symbols f (key (if b then ''t'' else ''f'')) = None"
| "printable key f (ESEXP_TERM_STRING s) \<longleftrightarrow> True"
| "printable key f (ESEXP_TERM_TIME t) \<longleftrightarrow> False"
| "printable key f (ESEXP_TERM_FUNC s ts) \<longleftrightarrow>
     sexp_symbols f (key (sym_name s)) = Some s \<and> (\<exists>name fn. s = Sym_func name fn) \<and> (\<forall>t\<in>set ts. printable key f t)"
| "printable key f (ESEXP_TERM_IFUNC s ts) \<longleftrightarrow>
     sexp_symbols f (key (sym_name s)) = Some s \<and> (\<exists>name fn. s = Sym_ifunc name fn) \<and> (\<forall>t\<in>set ts. printable key f t)"
| "printable key f (ESEXP_TERM_VAR s) \<longleftrightarrow>
     sexp_symbols f (key (sym_name s)) = Some s \<and> (\<exists>name v. s = Sym_var name v)"
| "printable key f (ESEXP_TERM_VAR_CALL s ts) \<longleftrightarrow> False"

lemma term_tokens_start:
  "printable key f t \<Longrightarrow> \<exists>tok toks. term_tokens t = tok # toks \<and> lookup_token key f tok \<noteq> G_TOKEN_RIGHT_PAREN"
  by (cases t) (auto simp: lookup_token_def)

definition parses_back :: "(string \<Rightarrow> string) \<Rightarrow> esexp \<Rightarrow> esexp_term \<Rightarrow> bool" where
  "parses_back key f t \<longleftrightarrow>
     (\<forall>k rest. 2 * length (term_tokens t) \<le> k \<longrightarrow>
       parse_value k (map (lookup_token key f) (term_tokens t) @ rest) = Some (Inr (Some t, rest)))"

lemma parse_values_back:
  assumes "\<forall>t\<in>set ts. printable key f t \<and> parses_back key f t"
    "2 * length (concat (map term_tokens ts)) < k"
  shows "parse_values k (map (lookup_token key f) (concat (map term_tokens ts)) @ G_TOKEN_RIGHT_PAREN # rest)
    = Some (Inr (ts, G_TOKEN_RIGHT_PAREN # rest))"
  using assms
proof (induction ts arbitrary: k)
  case Nil
  then show ?case by (cases k) simp_all
next
  case (Cons t ts)
  obtain j where k: "k = Suc j" using Cons.prems(2) by (cases k) auto
  obtain tok toks where t: "term_tokens t = tok # toks" "lookup_token key f tok \<noteq> G_TOKEN_RIGHT_PAREN"
    using term_tokens_start [of key f t] Cons.prems(1) by auto
  have "parse_value j (map (lookup_token key f) (term_tokens t) @ r) = Some (Inr (Some t, r))" for r
    using Cons.prems k by (simp add: parses_back_def)
  moreover have "parse_values j (map (lookup_token key f) (concat (map term_tokens ts)) @ G_TOKEN_RIGHT_PAREN # rest)
      = Some (Inr (ts, G_TOKEN_RIGHT_PAREN # rest))"
    using Cons.prems k t(1) by (intro Cons.IH) auto
  ultimately show ?case using k t by simp
qed

lemma parse_call_back:
  assumes "sexp_symbols f (key (sym_name s)) = Some s" "var_base s = Inr s"
    "\<forall>t\<in>set ts. printable key f t \<and> parses_back key f t"
    "2 * length (concat (map term_tokens ts)) + 6 \<le> k"
  shows "parse_value k (map (lookup_token key f)
      ([G_TOKEN_LEFT_PAREN, G_TOKEN_IDENTIFIER (sym_name s)] @ concat (map term_tokens ts) @ [G_TOKEN_RIGHT_PAREN]) @ rest)
    = Some (Inr (Some (term_call s s ts), rest))"
proof -
  obtain j where k: "k = Suc (Suc j)" using assms(4) by (cases k; cases "k - 1") auto
  show ?thesis using parse_values_back [OF assms(3), of j rest] assms(1,2,4) k by (simp add: lookup_token_def)
qed

lemma parses_back_leaf:
  assumes "term_tokens t \<noteq> []"
    "\<And>k rest. parse_value (Suc k) (map (lookup_token key f) (term_tokens t) @ rest) = Some (Inr (Some t, rest))"
  shows "parses_back key f t"
  unfolding parses_back_def
proof (intro allI impI)
  fix k rest
  assume "2 * length (term_tokens t) \<le> k"
  moreover have "0 < length (term_tokens t)" using assms(1) by simp
  ultimately have "k = Suc (k - 1)" by linarith
  then show "parse_value k (map (lookup_token key f) (term_tokens t) @ rest) = Some (Inr (Some t, rest))"
    using assms(2) [of "k - 1" rest] by metis
qed

lemma s32_negated: "- 2147483648 \<le> n \<Longrightarrow> n < 2147483648 \<Longrightarrow> s32 (- s32 (- n)) = n"
  by (cases "n = - 2147483648") (simp_all add: s32_def)

lemma printable_parses_back: "printable key f t \<Longrightarrow> parses_back key f t"
proof (induction t)
  case (ESEXP_TERM_INT n)
  then show ?case by (intro parses_back_leaf) (auto simp: lookup_token_def s32_negated)
next
  case (ESEXP_TERM_FUNC s ts)
  then show ?case using parse_call_back [of f key s ts] by (auto simp: parses_back_def)
next
  case (ESEXP_TERM_IFUNC s ts)
  then show ?case using parse_call_back [of f key s ts] by (auto simp: parses_back_def)
next
  case (ESEXP_TERM_BOOL b)
  then show ?case by (intro parses_back_leaf) (auto simp: lookup_token_def)
next
  case (ESEXP_TERM_STRING s)
  then show ?case by (intro parses_back_leaf) (auto simp: lookup_token_def)
next
  case (ESEXP_TERM_VAR s)
  then show ?case by (intro parses_back_leaf) (auto simp: lookup_token_def)
qed simp_all

lemma parse_back:
  assumes "printable key f t" "sexp_tree f \<noteq> Freed_tree"
  shows "e_sexp_parse key f (term_tokens t) = Inr (0, f\<lparr>sexp_tree := Tree t\<rparr>)"
  using printable_parses_back [OF assms(1)] assms(2)
  by (auto simp: parses_back_def e_sexp_parse_def dest!: spec [where x = "[]"] spec [where x = "2 * length (term_tokens t) + 1"])

text \<open>
  C19. A term that can be written is parsed back from its tokens, whatever the interpreter held before.
\<close>

theorem sexp_parse_print:
  assumes "printable key f t" "sexp_tree f \<noteq> Freed_tree"
  shows "e_sexp_parse key f (term_tokens t) = Inr (0, f\<lparr>sexp_tree := Tree t\<rparr>)"
  using assms by (rule parse_back)

definition sample_sexp :: esexp where
  "sample_sexp = e_sexp_add_function (\<lambda>name. name) (e_sexp_new (\<lambda>name. name)) ''contains'' (F_user ''contains'')"

lemmas sample_sexp_defs =
  sample_sexp_def sample_query_def e_sexp_new_def e_sexp_init_def symbols_def e_sexp_add_function_def
  e_sexp_add_ifunction_def e_sexp_remove_symbol_def

theorem sexp_parse_print_witness:
  "e_sexp_parse (\<lambda>name. name) sample_sexp (term_tokens sample_query) = Inr (0, sample_sexp\<lparr>sexp_tree := Tree sample_query\<rparr>)"
  by (rule sexp_parse_print) (simp_all add: sample_sexp_defs)

section \<open>Every parse returns\<close>

definition callable :: "token list \<Rightarrow> bool" where
  "callable toks \<longleftrightarrow> (\<forall>s. G_TOKEN_SYMBOL s \<in> set toks \<longrightarrow> (\<exists>b. var_base s = Inr b))"

lemma parse_list_term: "parse_list k toks \<noteq> Some (Inr (None, rest))"
  by (cases k; cases toks; cases "hd toks") (auto simp: bind_res_Inr close_paren split: option.splits sum.splits)

lemma parse_value_term: "parse_value k toks = Some (Inr (None, rest)) \<Longrightarrow> toks = []"
  by (cases k; cases toks; cases "hd toks")
    (auto simp: bind_res_Inr parse_list_term split: option.splits sum.splits list.splits token.splits esexp_symbol.splits if_splits)

lemma bind_res_Inl: "bind_res r g = Inl e \<longleftrightarrow> r = Inl e \<or> (\<exists>x. r = Inr x \<and> g x = Inl e)"
  by (cases r) auto

lemma close_paren_fatal:
  "(case toks of G_TOKEN_RIGHT_PAREN # r \<Rightarrow> Inr (g r) | _ \<Rightarrow> Inl (Fatal e)) \<noteq> Inl Wild_pointer"
  by (auto split: list.splits token.splits)

lemma parse_not_wild:
  "callable toks \<Longrightarrow> parse_value k toks \<noteq> Some (Inl Wild_pointer) \<and> parse_values k toks \<noteq> Some (Inl Wild_pointer)
    \<and> parse_list k toks \<noteq> Some (Inl Wild_pointer)"
proof (induction k arbitrary: toks)
  case (Suc k)
  have sub: "callable rest" if "set rest \<subseteq> set toks" for rest using Suc.prems that unfolding callable_def by blast
  have v: "parse_value k toks \<noteq> Some (Inl Wild_pointer)" and vs: "parse_values k rest \<noteq> Some (Inl Wild_pointer)"
      and l: "parse_list k rest \<noteq> Some (Inl Wild_pointer)" if "set rest \<subseteq> set toks" for rest
    using Suc.IH [OF sub [OF that]] Suc.IH [OF Suc.prems] by blast+
  have "parse_value (Suc k) toks \<noteq> Some (Inl Wild_pointer)"
  proof (cases toks)
    case (Cons tok rest)
    then have "set rest \<subseteq> set toks" by auto
    then show ?thesis using Cons vs l
      by (cases tok) (auto simp: bind_res_Inl split: option.splits list.splits token.splits esexp_symbol.splits)
  qed simp
  moreover have "parse_values (Suc k) toks \<noteq> Some (Inl Wild_pointer)"
    using v [of "[]"] vs
    by (auto simp: bind_res_Inl split: option.splits sum.splits dest: parse_value_term parse_consumes)
  moreover have "parse_list (Suc k) toks \<noteq> Some (Inl Wild_pointer)"
  proof (cases toks)
    case (Cons tok rest)
    then have "set rest \<subseteq> set toks" by auto
    then show ?thesis using Cons vs Suc.prems
      by (cases tok) (auto simp: bind_res_Inl close_paren_fatal callable_def split: option.splits sum.splits)
  qed simp
  ultimately show ?case by blast
qed simp

text \<open>
  C36. Whatever the tokens are, the parser returns: with a tree or none and 0, or with an error, -1 and
  no new tree, where the tree was not freed before and every symbol leads to a function.
\<close>

theorem sexp_parse_returns:
  assumes "sexp_tree f \<noteq> Freed_tree" "\<forall>s\<in>ran (sexp_symbols f). \<exists>b. var_base s = Inr b"
    "\<forall>s. G_TOKEN_SYMBOL s \<notin> set toks"
  shows "(\<exists>tree. e_sexp_parse key f toks = Inr (0, f\<lparr>sexp_tree := tree\<rparr>) \<and> tree \<noteq> Freed_tree)
    \<or> (\<exists>e. e_sexp_parse key f toks
        = Inr (-1, f\<lparr>sexp_error := Some e, sexp_tree := (if sexp_tree f = No_tree then No_tree else Freed_tree)\<rparr>))"
proof -
  let ?toks = "map (lookup_token key f) toks"
  have "callable ?toks"
    using assms(2,3) by (force simp: callable_def lookup_token_def ran_def split: token.splits option.splits)
  then have "parse_value (2 * length toks + 1) ?toks \<noteq> Some (Inl Wild_pointer)" using parse_not_wild by blast
  moreover obtain r where "parse_value (2 * length toks + 1) ?toks = Some r"
    using parse_fuel_all [of ?toks "2 * length toks + 1"] by auto
  ultimately show ?thesis using assms(1)
    by (cases r) (auto simp: e_sexp_parse_def split: sexp_error.splits option.splits)
qed

definition calls_functions :: "esexp \<Rightarrow> bool" where
  "calls_functions f \<longleftrightarrow> (\<forall>s\<in>ran (sexp_symbols f). \<exists>b. var_base s = Inr b)"

lemma calls_functions_add:
  "calls_functions f \<Longrightarrow> calls_functions (e_sexp_add_function key f name fn)"
  "calls_functions f \<Longrightarrow> calls_functions (e_sexp_add_ifunction key f name fn)"
  "calls_functions f \<Longrightarrow> calls_functions (e_sexp_remove_symbol key f name)"
  by (auto simp: calls_functions_def e_sexp_add_function_def e_sexp_add_ifunction_def e_sexp_remove_symbol_def ran_def split: if_splits)

lemma calls_functions_new: "calls_functions (e_sexp_new key)"
proof -
  have "calls_functions f \<Longrightarrow> calls_functions
      (fold (\<lambda>(name, fn, imm) f. if imm then e_sexp_add_ifunction key f name fn else e_sexp_add_function key f name fn) tab f)" for tab f
    by (induction tab arbitrary: f) (auto simp: calls_functions_add split: prod.splits)
  moreover have "calls_functions \<lparr>sexp_tree = No_tree, sexp_error = None, sexp_symbols = Map.empty\<rparr>" by (simp add: calls_functions_def)
  ultimately show ?thesis unfolding e_sexp_new_def e_sexp_init_def by blast
qed

theorem sexp_parse_returns_witness:
  "(\<exists>tree. e_sexp_parse (\<lambda>name. name) sample_sexp [G_TOKEN_LEFT_PAREN, G_TOKEN_IDENTIFIER ''and''] = Inr (0, sample_sexp\<lparr>sexp_tree := tree\<rparr>)
      \<and> tree \<noteq> Freed_tree)
    \<or> (\<exists>e. e_sexp_parse (\<lambda>name. name) sample_sexp [G_TOKEN_LEFT_PAREN, G_TOKEN_IDENTIFIER ''and'']
        = Inr (-1, sample_sexp\<lparr>sexp_error := Some e, sexp_tree := (if sexp_tree sample_sexp = No_tree then No_tree else Freed_tree)\<rparr>))"
proof (rule sexp_parse_returns)
  have "calls_functions sample_sexp" unfolding sample_sexp_def by (intro calls_functions_add calls_functions_new)
  then show "\<forall>s\<in>ran (sexp_symbols sample_sexp). \<exists>b. var_base s = Inr b" by (simp add: calls_functions_def)
qed (simp_all add: sample_sexp_defs)

text \<open>
  C38. A parse that fails after one that succeeded leaves the interpreter with a tree that was freed:
  to evaluate it, to parse again and to destroy the interpreter all use freed memory.
\<close>

theorem failed_parse_dangles:
  assumes "sexp_tree f = Tree t" "e_sexp_parse key f toks = Inr (-1, f')"
  shows "e_sexp_eval env f' = Inl Wild_pointer \<and> e_sexp_parse key f' toks' = Inl Wild_pointer
    \<and> e_sexp_finalise f' = Inl Wild_pointer"
proof -
  have "sexp_tree f' = Freed_tree"
    using assms by (auto simp: e_sexp_parse_def split: option.splits sum.splits sexp_error.splits)
  then show ?thesis by (simp add: e_sexp_eval_def e_sexp_parse_def e_sexp_finalise_def)
qed

theorem failed_parse_dangles_witness:
  "let f' = sample_sexp\<lparr>sexp_tree := Freed_tree, sexp_error := Some ''Unexpected token encountered''\<rparr>
   in e_sexp_eval sample_env f' = Inl Wild_pointer \<and> e_sexp_parse (\<lambda>name. name) f' [G_TOKEN_STRING ''x''] = Inl Wild_pointer
     \<and> e_sexp_finalise f' = Inl Wild_pointer"
  unfolding Let_def
  by (rule failed_parse_dangles [where f = "sample_sexp\<lparr>sexp_tree := Tree (ESEXP_TERM_INT 1)\<rparr>" and t = "ESEXP_TERM_INT 1"
        and toks = "[G_TOKEN_RIGHT_PAREN]"])
    (simp_all add: sample_sexp_def e_sexp_new_def e_sexp_parse_def lookup_token_def numeral_3_eq_3)

section \<open>Queries\<close>

text \<open>
  A well-typed query that can be written is parsed from its tokens and evaluated, without an error,
  to a result of its type, if the functions of the client respect their types.
\<close>

theorem query_answered:
  assumes "printable key f t" "sexp_tree f \<noteq> Freed_tree" "sexp_typed G t ty" "env_respects G env"
  shows "\<exists>f' r. e_sexp_parse key f (term_tokens t) = Inr (0, f') \<and> e_sexp_eval env f' = Inr (Some r, f') \<and> result_type_of r = ty"
  using parse_back [OF assms(1,2)] well_typed_gives [OF assms(3,4)] by (auto simp: gives_def e_sexp_eval_def)

theorem query_answered_witness:
  "\<exists>f' r. e_sexp_parse (\<lambda>name. name) sample_sexp (term_tokens sample_query) = Inr (0, f') \<and> e_sexp_eval sample_env f' = Inr (Some r, f')
    \<and> result_type_of r = RT_bool"
  using query_answered [OF _ _ sample_query_typed] by (auto simp: sample_sexp_defs)

end
