(* ===== verification/E_Trie.thy ===== *)
theory E_Trie
  imports Camel_Bytes "HOL-Library.Sublist"
begin

text \<open>
  The search for several patterns at once: \<^verbatim>\<open>libedataserver/e-trie.c\<close>, an automaton of Aho and Corasick over
  the characters of UTF-8 strings. A state is known by its address; the addresses are the positions in the
  list of all the states that were allocated, and the root is the first. The chains of \<^verbatim>\<open>fail_states\<close>, which are
  linked through the field \<^verbatim>\<open>next\<close> of the states, are lists of addresses. \<^verbatim>\<open>g_unichar_tolower\<close> is a parameter.
\<close>

section \<open>Characters\<close>

text \<open>
  The octets from the pointer on, and the distance of \<^verbatim>\<open>inend\<close>. The length -1, which stands for no limit,
  gives the octet before the pointer as the end, since the addition wraps around.
\<close>

fun trie_getc_loop :: "byte list \<Rightarrow> guint32 \<Rightarrow> guint32 \<Rightarrow> byte \<Rightarrow> int \<Rightarrow> int \<Rightarrow> byte list \<Rightarrow> (guint32 \<times> byte list) option" where
  "trie_getc_loop start u m r k inend p =
     (if k \<ge> inend then Some (0, start)
      else (case p of
              [] \<Rightarrow> None
            | c # p \<Rightarrow>
                (if c AND 0xc0 \<noteq> 0x80 then Some (0xfffe, tl start)
                 else (let u = push_bit 6 u OR ucast (c AND 0x3f); r = push_bit 1 r; m = push_bit 5 m
                       in if r AND 0x40 \<noteq> 0 then trie_getc_loop start u m r (k + 1) inend p
                          else Some (u AND NOT m, p)))))"

declare trie_getc_loop.simps [simp del]

definition trie_utf8_getc :: "byte list \<Rightarrow> int \<Rightarrow> (guint32 \<times> byte list) option" where
  "trie_utf8_getc p inlen =
     (if inlen = 0 then Some (0, p)
      else (case p of
              [] \<Rightarrow> None
            | r # p' \<Rightarrow>
                (if r < 0x80 then Some (ucast r, p')
                 else if r < 0xfe then trie_getc_loop p (ucast r) 0x7f80 r 1 inlen p'
                 else Some (0xfffe, p'))))"

lemma trie_getc_loop_shorter:
  "trie_getc_loop start u m r k inend p = Some (c, rest) \<Longrightarrow> c \<noteq> 0 \<Longrightarrow> length p < length start \<Longrightarrow> length rest < length start"
  by (induction start u m r k inend p rule: trie_getc_loop.induct)
    (subst (asm) (2) trie_getc_loop.simps, auto simp: Let_def split: if_splits list.splits)

lemma trie_utf8_getc_shorter: "trie_utf8_getc p inlen = Some (c, rest) \<Longrightarrow> c \<noteq> 0 \<Longrightarrow> length rest < length p"
  by (auto simp: trie_utf8_getc_def split: if_splits list.splits dest: trie_getc_loop_shorter)

section \<open>States\<close>

record trie_state =
  trie_fail :: "nat option"
  trie_match :: "(guint32 \<times> nat) list"
  trie_final :: nat
  trie_id :: int

record etrie =
  trie_states :: "trie_state list"
  fail_states :: "nat list list"
  trie_icase :: bool

definition e_trie_new :: "bool \<Rightarrow> etrie" where
  "e_trie_new icase =
     \<lparr>trie_states = [\<lparr>trie_fail = None, trie_match = [], trie_final = 0, trie_id = 0\<rparr>], fail_states = [], trie_icase = icase\<rparr>"

definition g :: "etrie \<Rightarrow> nat \<Rightarrow> guint32 \<Rightarrow> nat option" where
  "g trie s c = map_of (trie_match (trie_states trie ! s)) c"

definition set_state :: "nat \<Rightarrow> (trie_state \<Rightarrow> trie_state) \<Rightarrow> etrie \<Rightarrow> etrie" where
  "set_state q f trie = trie\<lparr>trie_states := (trie_states trie)[q := f (trie_states trie ! q)]\<rparr>"

definition trie_insert :: "etrie \<Rightarrow> nat \<Rightarrow> nat \<Rightarrow> guint32 \<Rightarrow> etrie \<times> nat" where
  "trie_insert trie depth q c =
     (let new = length (trie_states trie);
          trie = set_state q (\<lambda>s. s\<lparr>trie_match := (c, new) # trie_match s\<rparr>) trie;
          trie = trie\<lparr>trie_states := trie_states trie @ [\<lparr>trie_fail = Some 0, trie_match = [], trie_final = 0, trie_id = -1\<rparr>]\<rparr>;
          len = length (fail_states trie);
          fs = (if len < depth + 1 then fail_states trie @ replicate (max (len + 64) (depth + 1) - len) [] else fail_states trie)
      in (trie\<lparr>fail_states := fs[depth := new # fs ! depth]\<rparr>, new))"

text \<open>
  The loops along the failure links; \<^const>\<open>None\<close> is that the loop does not end. The result is the state that has
  a match and the state of the match, or none for \<^verbatim>\<open>NULL\<close>.
\<close>

partial_function (option) trie_follow :: "etrie \<Rightarrow> nat option \<Rightarrow> guint32 \<Rightarrow> (nat \<times> nat) option option" where
  "trie_follow trie r c =
     (case r of
        None \<Rightarrow> Some None
      | Some q \<Rightarrow>
          (case g trie q c of
             None \<Rightarrow> trie_follow trie (trie_fail (trie_states trie ! q)) c
           | Some n \<Rightarrow> Some (Some (q, n))))"

declare trie_follow.simps [code]

fun opt_fold :: "('a \<Rightarrow> 's \<Rightarrow> 's option) \<Rightarrow> 'a list \<Rightarrow> 's \<Rightarrow> 's option" where
  "opt_fold f [] s = Some s"
| "opt_fold f (x # xs) s = (case f x s of None \<Rightarrow> None | Some s \<Rightarrow> opt_fold f xs s)"

section \<open>Adding a pattern\<close>

text \<open>The first step walks down the trie; the pattern is a string with its NUL.\<close>

function trie_add_loop :: "(guint32 \<Rightarrow> guint32) \<Rightarrow> etrie \<Rightarrow> nat \<Rightarrow> nat \<Rightarrow> byte list \<Rightarrow> (etrie \<times> nat \<times> nat) option" where
  "trie_add_loop lower trie depth q p =
     (case trie_utf8_getc p (-1) of
        None \<Rightarrow> None
      | Some (c, p') \<Rightarrow>
          (if c = 0 then Some (trie, depth, q)
           else (let c = (if trie_icase trie then lower c else c)
                 in case g trie q c of
                      None \<Rightarrow> (let (trie, q) = trie_insert trie depth q c in trie_add_loop lower trie (depth + 1) q p')
                    | Some q \<Rightarrow> trie_add_loop lower trie (depth + 1) q p')))"
  by pat_completeness auto
termination
  by (relation "measure (\<lambda>(lower, trie, depth, q, p). length p)") (auto dest: trie_utf8_getc_shorter)

declare trie_add_loop.simps [simp del]

text \<open>The second step computes the failure link of a match \<^verbatim>\<open>m\<close> of the state \<^verbatim>\<open>q\<close>.\<close>

definition trie_fail_match :: "nat \<Rightarrow> guint32 \<times> nat \<Rightarrow> etrie \<Rightarrow> etrie option" where
  "trie_fail_match q m trie =
     (let (c, q1) = m
      in case trie_follow trie (trie_fail (trie_states trie ! q)) c of
           None \<Rightarrow> None
         | Some (Some (r, n)) \<Rightarrow>
             (let trie = set_state q1 (\<lambda>s. s\<lparr>trie_fail := Some n\<rparr>) trie;
                  final = trie_final (trie_states trie ! n)
              in Some (if final > trie_final (trie_states trie ! q1) then set_state q1 (\<lambda>s. s\<lparr>trie_final := final\<rparr>) trie else trie))
         | Some None \<Rightarrow>
             (case g trie 0 c of
                Some n \<Rightarrow> Some (set_state q1 (\<lambda>s. s\<lparr>trie_fail := Some n\<rparr>) trie)
              | None \<Rightarrow> Some (set_state q1 (\<lambda>s. s\<lparr>trie_fail := Some 0\<rparr>) trie)))"

definition trie_fail_state :: "nat \<Rightarrow> etrie \<Rightarrow> etrie option" where
  "trie_fail_state q trie = opt_fold (trie_fail_match q) (trie_match (trie_states trie ! q)) trie"

definition e_trie_add :: "(guint32 \<Rightarrow> guint32) \<Rightarrow> byte list \<Rightarrow> int \<Rightarrow> etrie \<Rightarrow> etrie option" where
  "e_trie_add lower pattern pattern_id trie =
     (case trie_add_loop lower trie 0 0 (pattern @ [0]) of
        None \<Rightarrow> None
      | Some (trie, depth, q) \<Rightarrow>
          (let trie = set_state q (\<lambda>s. s\<lparr>trie_final := depth, trie_id := pattern_id\<rparr>) trie
           in opt_fold trie_fail_state (concat (fail_states trie)) trie))"

section \<open>Searching\<close>

text \<open>Pointers into the buffer are what is left of it. The result is \<^verbatim>\<open>NULL\<close>, or the match and its identifier.\<close>

function trie_search_loop ::
    "(guint32 \<Rightarrow> guint32) \<Rightarrow> etrie \<Rightarrow> nat \<Rightarrow> byte list \<Rightarrow> byte list \<Rightarrow> byte list \<Rightarrow> (byte list \<times> int) option option" where
  "trie_search_loop lower trie q pat prev inptr =
     (case trie_utf8_getc inptr (int (length inptr)) of
        None \<Rightarrow> None
      | Some (c, inptr') \<Rightarrow>
          (if c = 0 then Some None
           else if c \<noteq> 0xfffe then
             (let c = (if trie_icase trie then lower c else c)
              in case trie_follow trie (Some q) c of
                   None \<Rightarrow> None
                 | Some None \<Rightarrow> trie_search_loop lower trie 0 inptr' inptr' inptr'
                 | Some (Some (q, n)) \<Rightarrow>
                     (let pat = (if q = 0 then prev else pat)
                      in if trie_final (trie_states trie ! n) \<noteq> 0 then Some (Some (pat, trie_id (trie_states trie ! n)))
                         else trie_search_loop lower trie n pat inptr' inptr'))
           else trie_search_loop lower trie q pat inptr' inptr'))"
  by pat_completeness auto
termination
  by (relation "measure (\<lambda>(lower, trie, q, pat, prev, p). length p)") (auto dest: trie_utf8_getc_shorter)

declare trie_search_loop.simps [simp del]

definition e_trie_search :: "(guint32 \<Rightarrow> guint32) \<Rightarrow> etrie \<Rightarrow> byte list \<Rightarrow> (byte list \<times> int) option option" where
  "e_trie_search lower trie buffer = trie_search_loop lower trie 0 buffer buffer buffer"

end
