(* ===== verification/E_Trie_Laws.thy ===== *)
theory E_Trie_Laws
  imports E_Trie
begin

text \<open>
  The trie finds a pattern exactly if there is one. The state that the search is in stands for the longest
  end of the text that is the start of a pattern; the failure link of a state leads to the longest
  proper end of its path that is a path, and a state is final exactly if a pattern is an end of its path.
\<close>

section \<open>Paths\<close>

text \<open>The list of the paths from the root to the states, by address.\<close>

definition trie_wf :: "etrie \<Rightarrow> guint32 list list \<Rightarrow> bool" where
  "trie_wf t ps \<longleftrightarrow>
     length ps = length (trie_states t) \<and> ps \<noteq> [] \<and> ps ! 0 = [] \<and> distinct ps
     \<and> (\<forall>w c. w @ [c] \<in> set ps \<longrightarrow> w \<in> set ps)
     \<and> (\<forall>q < length ps. \<forall>c q'. (c, q') \<in> set (trie_match (trie_states t ! q)) \<longleftrightarrow> q' < length ps \<and> ps ! q' = ps ! q @ [c])
     \<and> (\<forall>q < length ps. length (ps ! q) \<le> length (fail_states t))
     \<and> (\<forall>d < length (fail_states t). set (fail_states t ! d) = {q. q < length ps \<and> length (ps ! q) = d + 1})"

lemma trie_wf_root [simp]: "trie_wf t ps \<Longrightarrow> [] \<in> set ps"
  unfolding trie_wf_def by (metis length_greater_0_conv nth_mem)

lemma trie_wf_zero: "trie_wf t ps \<Longrightarrow> 0 < length ps \<and> ps ! 0 = []"
  unfolding trie_wf_def by blast

lemma trie_wf_nonroot: "trie_wf t ps \<Longrightarrow> ps ! q \<noteq> [] \<Longrightarrow> q \<noteq> 0"
  unfolding trie_wf_def by metis

lemma trie_wf_up: "trie_wf t ps \<Longrightarrow> w @ [c] \<in> set ps \<Longrightarrow> w \<in> set ps"
  unfolding trie_wf_def by blast

lemma trie_wf_path_eq: "trie_wf t ps \<Longrightarrow> q < length ps \<Longrightarrow> q' < length ps \<Longrightarrow> ps ! q = ps ! q' \<longleftrightarrow> q = q'"
  unfolding trie_wf_def by (simp add: nth_eq_iff_index_eq)

lemma g_Some:
  assumes "trie_wf t ps" "q < length ps"
  shows "g t q c = Some n \<longleftrightarrow> n < length ps \<and> ps ! n = ps ! q @ [c]"
proof
  assume "g t q c = Some n"
  then show "n < length ps \<and> ps ! n = ps ! q @ [c]"
    using assms map_of_SomeD [of "trie_match (trie_states t ! q)" c n] unfolding g_def trie_wf_def by blast
next
  assume n: "n < length ps \<and> ps ! n = ps ! q @ [c]"
  then have "(c, n) \<in> set (trie_match (trie_states t ! q))" using assms unfolding trie_wf_def by blast
  then obtain n' where n': "g t q c = Some n'" unfolding g_def by (metis weak_map_of_SomeI)
  then have "(c, n') \<in> set (trie_match (trie_states t ! q))" unfolding g_def by (rule map_of_SomeD)
  then have "n' < length ps \<and> ps ! n' = ps ! q @ [c]" using assms unfolding trie_wf_def by blast
  then show "g t q c = Some n" using n n' trie_wf_path_eq [OF assms(1)] by metis
qed

lemma g_None:
  assumes "trie_wf t ps" "q < length ps"
  shows "g t q c = None \<longleftrightarrow> ps ! q @ [c] \<notin> set ps"
  using g_Some [OF assms, of c] by (metis in_set_conv_nth not_None_eq)

section \<open>Failure links\<close>

definition is_fail :: "guint32 list list \<Rightarrow> guint32 list \<Rightarrow> guint32 list \<Rightarrow> bool" where
  "is_fail ps w f \<longleftrightarrow> f \<in> set ps \<and> strict_suffix f w \<and> (\<forall>v\<in>set ps. strict_suffix v w \<longrightarrow> suffix v f)"

definition fail_ok :: "guint32 list list \<Rightarrow> etrie \<Rightarrow> nat \<Rightarrow> bool" where
  "fail_ok ps t q \<longleftrightarrow>
     (if q = 0 then trie_fail (trie_states t ! q) = None
      else \<exists>f < length ps. trie_fail (trie_states t ! q) = Some f \<and> is_fail ps (ps ! q) (ps ! f))"

definition follows :: "guint32 list list \<Rightarrow> guint32 list \<Rightarrow> guint32 \<Rightarrow> (nat \<times> nat) option \<Rightarrow> bool" where
  "follows ps w c r \<longleftrightarrow>
     (case r of
        None \<Rightarrow> \<forall>v. suffix v w \<longrightarrow> v @ [c] \<notin> set ps
      | Some (q, n) \<Rightarrow> q < length ps \<and> n < length ps \<and> ps ! n = ps ! q @ [c] \<and> suffix (ps ! q) w
          \<and> (\<forall>v. suffix v w \<and> v @ [c] \<in> set ps \<longrightarrow> suffix v (ps ! q)))"

lemma trie_follow_correct:
  assumes "trie_wf t ps" "q < length ps" "\<forall>q' < length ps. length (ps ! q') \<le> length (ps ! q) \<longrightarrow> fail_ok ps t q'"
  shows "\<exists>r. trie_follow t (Some q) c = Some r \<and> follows ps (ps ! q) c r"
  using assms(2,3)
proof (induction "length (ps ! q)" arbitrary: q rule: less_induct)
  case less
  show ?case
  proof (cases "g t q c")
    case (Some n)
    then have "trie_follow t (Some q) c = Some (Some (q, n))" by (subst trie_follow.simps) simp
    moreover have "n < length ps" "ps ! n = ps ! q @ [c]" using Some g_Some [OF assms(1) less.prems(1)] by auto
    ultimately show ?thesis using less.prems(1) by (simp add: follows_def)
  next
    case None
    then have no: "ps ! q @ [c] \<notin> set ps" using g_None [OF assms(1) less.prems(1)] by blast
    have step: "trie_follow t (Some q) c = trie_follow t (trie_fail (trie_states t ! q)) c"
      using None by (subst trie_follow.simps) simp
    show ?thesis
    proof (cases "q = 0")
      case True
      then have "trie_fail (trie_states t ! q) = None" "ps ! q = []"
        using less.prems trie_wf_zero [OF assms(1)] unfolding fail_ok_def by (metis order_refl, simp)
      then show ?thesis using step no by (subst (asm) (2) trie_follow.simps) (simp add: follows_def)
    next
      case False
      then obtain f where f: "f < length ps" "trie_fail (trie_states t ! q) = Some f" "is_fail ps (ps ! q) (ps ! f)"
        using less.prems unfolding fail_ok_def by (metis order_refl)
      then have "strict_suffix (ps ! f) (ps ! q)" by (simp add: is_fail_def)
      then have "length (ps ! f) < length (ps ! q)" by (rule suffix_length_less)
      then obtain r where r: "trie_follow t (Some f) c = Some r" "follows ps (ps ! f) c r"
        using less.hyps [of f] f(1) less.prems(2) by auto
      have "suffix v (ps ! q) \<longleftrightarrow> suffix v (ps ! f)" if v: "v @ [c] \<in> set ps" for v
      proof -
        have "v \<in> set ps" "v \<noteq> ps ! q" using v no trie_wf_up [OF assms(1)] by auto
        then show ?thesis using f(3) unfolding is_fail_def
          by (meson suffix_order.le_neq_trans suffix_order.less_imp_le suffix_order.order_trans)
      qed
      then have "follows ps (ps ! q) c r"
        using r(2) \<open>strict_suffix (ps ! f) (ps ! q)\<close> unfolding follows_def
        by (auto split: option.splits)
      then show ?thesis using step f(2) r(1) by simp
    qed
  qed
qed

lemma strict_suffix_snoc: "strict_suffix v (w @ [c]) \<longleftrightarrow> v = [] \<or> (\<exists>z. v = z @ [c] \<and> strict_suffix z w)"
  by (auto simp: suffix_order.less_le)

lemma is_fail_step:
  assumes "trie_wf t ps" "is_fail ps w f" "follows ps f c r"
  shows "is_fail ps (w @ [c]) (case r of None \<Rightarrow> [] | Some (q, n) \<Rightarrow> ps ! n)"
proof -
  have up: "suffix z f" if "strict_suffix z w" "z @ [c] \<in> set ps" for z
    using that assms(2) trie_wf_up [OF assms(1)] by (auto simp: is_fail_def)
  have f: "strict_suffix f w" using assms(2) by (simp add: is_fail_def)
  show ?thesis
  proof (cases r)
    case None
    then show ?thesis using assms(1,3) up by (auto simp: is_fail_def follows_def strict_suffix_snoc)
  next
    case (Some a)
    obtain q n where "a = (q, n)" by force
    then have n: "ps ! n = ps ! q @ [c]" "n < length ps" "suffix (ps ! q) f" "\<forall>v. suffix v f \<and> v @ [c] \<in> set ps \<longrightarrow> suffix v (ps ! q)"
      and r: "r = Some (q, n)" using assms(3) Some by (auto simp: follows_def)
    have "strict_suffix (ps ! q) w" using n(3) f by (meson suffix_order.le_less_trans)
    moreover have "ps ! n \<in> set ps" using n(2) by simp
    ultimately show ?thesis using n(1,4) r up by (auto simp: is_fail_def strict_suffix_snoc)
  qed
qed

section \<open>The failure graph\<close>

definition finals_sound :: "guint32 list list \<Rightarrow> guint32 list list \<Rightarrow> etrie \<Rightarrow> bool" where
  "finals_sound ps P t \<longleftrightarrow>
     (\<forall>q < length ps. trie_final (trie_states t ! q) \<noteq> 0 \<longrightarrow> (\<exists>p\<in>set P. p \<noteq> [] \<and> suffix p (ps ! q)))
     \<and> (\<forall>q < length ps. ps ! q \<in> set P \<longrightarrow> ps ! q \<noteq> [] \<longrightarrow> trie_final (trie_states t ! q) \<noteq> 0)"

definition trie_inv :: "guint32 list list \<Rightarrow> guint32 list list \<Rightarrow> etrie \<Rightarrow> bool" where
  "trie_inv ps P t \<longleftrightarrow> trie_wf t ps \<and> set P \<subseteq> set ps \<and> finals_sound ps P t \<and> (\<forall>q < length ps. length (ps ! q) \<le> 1 \<longrightarrow> fail_ok ps t q)"

definition trie_good :: "guint32 list list \<Rightarrow> guint32 list list \<Rightarrow> etrie \<Rightarrow> nat \<Rightarrow> bool" where
  "trie_good ps P t q \<longleftrightarrow> fail_ok ps t q \<and> (\<forall>p\<in>set P. p \<noteq> [] \<and> suffix p (ps ! q) \<longrightarrow> trie_final (trie_states t ! q) \<noteq> 0)"

definition trie_ok :: "guint32 list list \<Rightarrow> guint32 list list \<Rightarrow> etrie \<Rightarrow> bool" where
  "trie_ok ps P t \<longleftrightarrow> trie_inv ps P t \<and> (\<forall>q < length ps. trie_good ps P t q)"

lemma set_state_sel [simp]:
  "fail_states (set_state q f t) = fail_states t" "trie_icase (set_state q f t) = trie_icase t"
  "length (trie_states (set_state q f t)) = length (trie_states t)"
  by (simp_all add: set_state_def)

lemma set_state_nth: "q < length (trie_states t) \<Longrightarrow>
    trie_states (set_state q f t) ! x = (if x = q then f (trie_states t ! q) else trie_states t ! x)"
  by (simp add: set_state_def)

lemma set_state_match: "(\<And>s. trie_match (f s) = trie_match s) \<Longrightarrow> trie_match (trie_states (set_state q f t) ! x) = trie_match (trie_states t ! x)"
  by (cases "q < length (trie_states t)"; cases "x = q") (auto simp: set_state_def list_update_beyond)

lemma set_state_wf: "(\<And>s. trie_match (f s) = trie_match s) \<Longrightarrow> trie_wf (set_state q f t) ps = trie_wf t ps"
  by (simp add: trie_wf_def set_state_match)

lemma trie_wf_length: "trie_wf t ps \<Longrightarrow> length (trie_states t) = length ps"
  by (simp add: trie_wf_def)

lemma root_not_final: "trie_inv ps P t \<Longrightarrow> trie_final (trie_states t ! 0) = 0"
  using trie_wf_zero [of t ps] unfolding trie_inv_def finals_sound_def by (metis suffix_Nil)

lemma shallow_good:
  assumes "trie_inv ps P t" "q < length ps" "length (ps ! q) \<le> 1"
  shows "trie_good ps P t q"
proof -
  have "p = ps ! q" if "p \<noteq> []" "suffix p (ps ! q)" for p
    using that assms(3) by (cases "ps ! q") (auto simp: suffix_Cons)
  then show ?thesis using assms unfolding trie_inv_def trie_good_def finals_sound_def by blast
qed

text \<open>One step of the second loop writes the correct link and the flag that goes with it.\<close>

lemma trie_fail_match_writes:
  assumes "trie_inv ps P t" "q < length ps" "q \<noteq> 0" "\<forall>q' < length ps. length (ps ! q') \<le> length (ps ! q) \<longrightarrow> trie_good ps P t q'"
    "q1 < length ps" "ps ! q1 = ps ! q @ [c]"
  shows "\<exists>n F. trie_fail_match q (c, q1) t = Some (set_state q1 (\<lambda>s. s\<lparr>trie_fail := Some n, trie_final := F\<rparr>) t)
    \<and> n < length ps \<and> is_fail ps (ps ! q1) (ps ! n) \<and> (F \<noteq> 0 \<longleftrightarrow> trie_final (trie_states t ! q1) \<noteq> 0 \<or> trie_final (trie_states t ! n) \<noteq> 0)"
proof -
  have wf: "trie_wf t ps" using assms(1) by (simp add: trie_inv_def)
  obtain f where f: "f < length ps" "trie_fail (trie_states t ! q) = Some f" "is_fail ps (ps ! q) (ps ! f)"
    using assms(2,3,4) unfolding trie_good_def fail_ok_def by (metis order_refl)
  then have "length (ps ! f) < length (ps ! q)" using suffix_length_less by (auto simp: is_fail_def)
  then obtain r where r: "trie_follow t (Some f) c = Some r" "follows ps (ps ! f) c r"
    using trie_follow_correct [OF wf f(1), of c] assms(4) by (auto simp: trie_good_def)
  have link: "is_fail ps (ps ! q1) (case r of None \<Rightarrow> [] | Some (q, n) \<Rightarrow> ps ! n)"
    unfolding assms(6) using wf f(3) r(2) by (rule is_fail_step)
  have q1: "q1 < length (trie_states t)" using assms(5) wf by (simp add: trie_wf_length)
  show ?thesis
  proof (cases r)
    case None
    have "[] @ [c] \<notin> set ps" using r(2) None by (simp add: follows_def) (metis append_Nil suffix_bot.bot_least)
    then have "g t 0 c = None" using g_None [OF wf] trie_wf_zero [OF wf] by auto
    then have "trie_fail_match q (c, q1) t = Some (set_state q1 (\<lambda>s. s\<lparr>trie_fail := Some 0, trie_final := trie_final (trie_states t ! q1)\<rparr>) t)"
      using f(2) r(1) None q1 by (simp add: trie_fail_match_def set_state_def)
    then show ?thesis using link None root_not_final [OF assms(1)] trie_wf_zero [OF wf] by fastforce
  next
    case (Some a)
    obtain q' n where a: "a = (q', n)" by force
    then have n: "n < length ps" using r(2) Some by (simp add: follows_def)
    have "strict_suffix (ps ! n) (ps ! q1)" using link Some a by (simp add: is_fail_def)
    then have "n \<noteq> q1" by auto
    then have "trie_fail_match q (c, q1) t = Some (set_state q1 (\<lambda>s. s\<lparr>trie_fail := Some n,
        trie_final := max (trie_final (trie_states t ! q1)) (trie_final (trie_states t ! n))\<rparr>) t)"
      using f(2) r(1) Some a q1 by (simp add: trie_fail_match_def set_state_def Let_def max_def)
    then show ?thesis using link Some a n by (intro exI [of _ n] exI [of _ "max (trie_final (trie_states t ! q1)) (trie_final (trie_states t ! n))"]) (auto simp: max_def)
  qed
qed

text \<open>What the loops of the second step keep.\<close>

definition keeps :: "guint32 list list \<Rightarrow> guint32 list list \<Rightarrow> etrie \<Rightarrow> etrie \<Rightarrow> bool" where
  "keeps ps P t t' \<longleftrightarrow> trie_inv ps P t' \<and> (\<forall>x. trie_match (trie_states t' ! x) = trie_match (trie_states t ! x))
     \<and> (\<forall>x < length ps. trie_good ps P t x \<longrightarrow> trie_good ps P t' x) \<and> fail_states t' = fail_states t \<and> trie_icase t' = trie_icase t"

lemma keeps_refl: "trie_inv ps P t \<Longrightarrow> keeps ps P t t"
  by (simp add: keeps_def)

lemma keeps_trans: "keeps ps P t t' \<Longrightarrow> keeps ps P t' t'' \<Longrightarrow> keeps ps P t t''"
  by (simp add: keeps_def)

lemma fail_ok_other: "q \<noteq> x \<Longrightarrow> x < length (trie_states t) \<Longrightarrow> fail_ok ps (set_state x f t) q = fail_ok ps t q"
  by (simp add: fail_ok_def set_state_nth)

lemma trie_fail_match_keeps:
  assumes "trie_inv ps P t" "q < length ps" "q \<noteq> 0" "\<forall>q' < length ps. length (ps ! q') \<le> length (ps ! q) \<longrightarrow> trie_good ps P t q'"
    "q1 < length ps" "ps ! q1 = ps ! q @ [c]"
  shows "\<exists>t'. trie_fail_match q (c, q1) t = Some t' \<and> keeps ps P t t' \<and> trie_good ps P t' q1"
proof -
  have wf: "trie_wf t ps" and P: "set P \<subseteq> set ps" and sound: "finals_sound ps P t" using assms(1) by (simp_all add: trie_inv_def)
  obtain n F where n: "trie_fail_match q (c, q1) t = Some (set_state q1 (\<lambda>s. s\<lparr>trie_fail := Some n, trie_final := F\<rparr>) t)"
    "n < length ps" "is_fail ps (ps ! q1) (ps ! n)" "F \<noteq> 0 \<longleftrightarrow> trie_final (trie_states t ! q1) \<noteq> 0 \<or> trie_final (trie_states t ! n) \<noteq> 0"
    using trie_fail_match_writes [OF assms] by blast
  let ?t = "set_state q1 (\<lambda>s. s\<lparr>trie_fail := Some n, trie_final := F\<rparr>) t"
  have nth: "trie_states ?t ! x = (if x = q1 then (trie_states t ! q1)\<lparr>trie_fail := Some n, trie_final := F\<rparr> else trie_states t ! x)" for x
    using assms(5) wf by (simp add: set_state_nth trie_wf_length)
  have q1: "q1 \<noteq> 0" using assms(6) trie_wf_nonroot [OF wf] by simp
  have deep: "\<not> length (ps ! q1) \<le> 1"
    using assms(2,3,6) trie_wf_zero [OF wf] trie_wf_path_eq [OF wf, of q 0] by (cases "ps ! q") auto
  have n_suf: "suffix (ps ! n) (ps ! q1)" "strict_suffix (ps ! n) (ps ! q1)" using n(3) by (auto simp: is_fail_def)
  then have "length (ps ! n) \<le> length (ps ! q)" using suffix_length_less [of "ps ! n" "ps ! q1"] assms(6) by simp
  then have good_n: "trie_good ps P t n" using assms(4) n(2) by blast
  have inv: "trie_inv ps P ?t"
    unfolding trie_inv_def
  proof (intro conjI)
    show "trie_wf ?t ps" using wf by (subst set_state_wf) simp_all
    show "finals_sound ps P ?t"
      using sound n_suf(1) n(2,4) assms(5) unfolding finals_sound_def nth
      by (auto split: if_splits) (meson suffix_order.order_trans)+
    show "\<forall>q<length ps. length (ps ! q) \<le> 1 \<longrightarrow> fail_ok ps ?t q"
      using assms(1) deep nth unfolding trie_inv_def fail_ok_def by auto
  qed (rule P)
  have "fail_ok ps ?t q1" using n(2,3) q1 nth by (simp add: fail_ok_def)
  moreover have "F \<noteq> 0" if p: "p \<in> set P" "p \<noteq> []" "suffix p (ps ! q1)" for p
  proof (cases "p = ps ! q1")
    case True
    then have "trie_final (trie_states t ! q1) \<noteq> 0" using sound p assms(5) unfolding finals_sound_def by blast
    then show ?thesis using n(4) by blast
  next
    case False
    then have "suffix p (ps ! n)" using p n(3) P unfolding is_fail_def by (auto simp: suffix_order.less_le)
    then have "trie_final (trie_states t ! n) \<noteq> 0" using good_n p unfolding trie_good_def by blast
    then show ?thesis using n(4) by blast
  qed
  ultimately have good: "trie_good ps P ?t q1" using nth by (simp add: trie_good_def)
  have "trie_good ps P ?t x" if "trie_good ps P t x" for x
    using that good nth by (cases "x = q1") (auto simp: trie_good_def fail_ok_def)
  then have "keeps ps P t ?t" using inv by (simp add: keeps_def set_state_match)
  then show ?thesis using n(1) good by blast
qed

lemma trie_fail_matches_keep:
  assumes "trie_inv ps P t" "q < length ps" "q \<noteq> 0" "\<forall>q' < length ps. length (ps ! q') \<le> length (ps ! q) \<longrightarrow> trie_good ps P t q'"
    "\<forall>(c, q1) \<in> set ms. q1 < length ps \<and> ps ! q1 = ps ! q @ [c]"
  shows "\<exists>t'. opt_fold (trie_fail_match q) ms t = Some t' \<and> keeps ps P t t' \<and> (\<forall>(c, q1) \<in> set ms. trie_good ps P t' q1)"
  using assms(1,4,5)
proof (induction ms arbitrary: t)
  case Nil
  then show ?case by (simp add: keeps_refl)
next
  case (Cons m ms)
  obtain c q1 where m: "m = (c, q1)" by force
  obtain t1 where t1: "trie_fail_match q m t = Some t1" "keeps ps P t t1" "trie_good ps P t1 q1"
    using trie_fail_match_keeps [OF Cons.prems(1) assms(2,3) Cons.prems(2), of q1 c] Cons.prems(3) m by auto
  obtain t2 where t2: "opt_fold (trie_fail_match q) ms t1 = Some t2" "keeps ps P t1 t2" "\<forall>(c, q1) \<in> set ms. trie_good ps P t2 q1"
    using Cons.IH [of t1] Cons.prems t1(2) by (auto simp: keeps_def)
  have "q1 < length ps" using Cons.prems(3) m by auto
  then have "trie_good ps P t2 q1" using t1(3) t2(2) by (simp add: keeps_def)
  then show ?case using t1(1) t2 keeps_trans [OF t1(2) t2(2)] m by auto
qed

lemma trie_level_keeps:
  assumes "trie_inv ps P t" "0 < d" "\<forall>q < length ps. length (ps ! q) \<le> d \<longrightarrow> trie_good ps P t q"
    "\<forall>q\<in>set qs. q < length ps \<and> length (ps ! q) = d"
  shows "\<exists>t'. opt_fold trie_fail_state qs t = Some t' \<and> keeps ps P t t'
    \<and> (\<forall>q\<in>set qs. \<forall>n < length ps. \<forall>c. ps ! n = ps ! q @ [c] \<longrightarrow> trie_good ps P t' n)"
  using assms(1,3,4)
proof (induction qs arbitrary: t)
  case Nil
  then show ?case by (simp add: keeps_refl)
next
  case (Cons q qs)
  have wf: "trie_wf t ps" using Cons.prems(1) by (simp add: trie_inv_def)
  have q: "q < length ps" "length (ps ! q) = d" using Cons.prems(3) by auto
  then have q0: "q \<noteq> 0" using assms(2) trie_wf_nonroot [OF wf, of q] by auto
  have ms: "\<forall>(c, q1) \<in> set (trie_match (trie_states t ! q)). q1 < length ps \<and> ps ! q1 = ps ! q @ [c]"
    using wf q(1) unfolding trie_wf_def by blast
  obtain t1 where t1: "trie_fail_state q t = Some t1" "keeps ps P t t1" "\<forall>(c, q1) \<in> set (trie_match (trie_states t ! q)). trie_good ps P t1 q1"
    using trie_fail_matches_keep [OF Cons.prems(1) q(1) q0 _ ms] Cons.prems(2) q(2) by (auto simp: trie_fail_state_def)
  obtain t2 where t2: "opt_fold trie_fail_state qs t1 = Some t2" "keeps ps P t1 t2"
    "\<forall>q\<in>set qs. \<forall>n < length ps. \<forall>c. ps ! n = ps ! q @ [c] \<longrightarrow> trie_good ps P t2 n"
    using Cons.IH [of t1] Cons.prems t1(2) by (auto simp: keeps_def)
  have "trie_good ps P t2 n" if "n < length ps" "ps ! n = ps ! q @ [c]" for n c
  proof -
    have "(c, n) \<in> set (trie_match (trie_states t ! q))" using wf q(1) that unfolding trie_wf_def by blast
    then show ?thesis using t1(3) t2(2) that(1) by (auto simp: keeps_def)
  qed
  then show ?case using t1(1) t2 keeps_trans [OF t1(2) t2(2)] by auto
qed

lemma opt_fold_append: "opt_fold f (xs @ ys) s = (case opt_fold f xs s of None \<Rightarrow> None | Some s \<Rightarrow> opt_fold f ys s)"
  by (induction xs arbitrary: s) (auto split: option.splits)

lemma trie_levels_good:
  assumes "trie_inv ps P t" "d \<le> length (fail_states t)"
  shows "\<exists>t'. opt_fold trie_fail_state (concat (take d (fail_states t))) t = Some t' \<and> keeps ps P t t'
    \<and> (\<forall>q < length ps. length (ps ! q) \<le> d + 1 \<longrightarrow> trie_good ps P t' q)"
  using assms(2)
proof (induction d)
  case 0
  then show ?case using assms(1) shallow_good by (auto simp: keeps_refl)
next
  case (Suc d)
  have wf: "trie_wf t ps" using assms(1) by (simp add: trie_inv_def)
  obtain t1 where t1: "opt_fold trie_fail_state (concat (take d (fail_states t))) t = Some t1" "keeps ps P t t1"
    "\<forall>q < length ps. length (ps ! q) \<le> d + 1 \<longrightarrow> trie_good ps P t1 q"
    using Suc by auto
  have level: "set (fail_states t ! d) = {q. q < length ps \<and> length (ps ! q) = d + 1}" using wf Suc.prems by (simp add: trie_wf_def)
  have inv1: "trie_inv ps P t1" using t1(2) by (simp add: keeps_def)
  have lv: "\<forall>q\<in>set (fail_states t ! d). q < length ps \<and> length (ps ! q) = d + 1" and pos: "0 < d + 1" using level by auto
  obtain t2 where t2: "opt_fold trie_fail_state (fail_states t ! d) t1 = Some t2" "keeps ps P t1 t2"
    "\<forall>q\<in>set (fail_states t ! d). \<forall>n < length ps. \<forall>c. ps ! n = ps ! q @ [c] \<longrightarrow> trie_good ps P t2 n"
    using trie_level_keeps [OF inv1 pos t1(3) lv] by blast
  have "trie_good ps P t2 q" if q: "q < length ps" "length (ps ! q) = d + 2" for q
  proof -
    obtain w c where w: "ps ! q = w @ [c]" using q(2) by (cases "ps ! q" rule: rev_cases) auto
    then have "w \<in> set ps" using trie_wf_up [OF wf] q(1) by (metis nth_mem)
    then obtain q0 where "q0 < length ps" "ps ! q0 = w" by (metis in_set_conv_nth)
    then show ?thesis using t2(3) level w q by auto
  qed
  moreover have "trie_good ps P t2 q" if "q < length ps" "length (ps ! q) \<le> d + 1" for q
    using that t1(3) t2(2) by (simp add: keeps_def)
  ultimately have "\<forall>q < length ps. length (ps ! q) \<le> Suc d + 1 \<longrightarrow> trie_good ps P t2 q"
    by (metis Suc_eq_plus1 add_2_eq_Suc' le_Suc_eq)
  then show ?case using t1(1) t2(1) keeps_trans [OF t1(2) t2(2)] Suc.prems
    by (simp add: take_Suc_conv_app_nth opt_fold_append)
qed

lemma failure_graph_ok:
  assumes "trie_inv ps P t"
  shows "\<exists>t'. opt_fold trie_fail_state (concat (fail_states t)) t = Some t' \<and> trie_ok ps P t' \<and> trie_icase t' = trie_icase t"
proof -
  obtain t' where t': "opt_fold trie_fail_state (concat (fail_states t)) t = Some t'" "keeps ps P t t'"
    "\<forall>q < length ps. length (ps ! q) \<le> length (fail_states t) + 1 \<longrightarrow> trie_good ps P t' q"
    using trie_levels_good [OF assms, of "length (fail_states t)"] by auto
  moreover have "\<forall>q < length ps. length (ps ! q) \<le> length (fail_states t)" using assms by (simp add: trie_inv_def trie_wf_def)
  ultimately show ?thesis by (auto simp: trie_ok_def keeps_def)
qed

section \<open>Adding a pattern\<close>

lemma trie_new_ok: "trie_ok [[]] [] (e_trie_new icase)"
  by (simp add: trie_ok_def trie_inv_def trie_wf_def trie_good_def finals_sound_def fail_ok_def e_trie_new_def)
    (metis gr0I list.distinct(1) nth_Cons_0)

text \<open>The states after an insertion: a new one at the end.\<close>

lemma trie_insert_states:
  assumes "q < length (trie_states t)" "trie_insert t depth q c = (t', new)"
  shows "new = length (trie_states t)" "trie_icase t' = trie_icase t"
    "trie_states t' = (trie_states t)[q := (trie_states t ! q)\<lparr>trie_match := (c, new) # trie_match (trie_states t ! q)\<rparr>]
       @ [\<lparr>trie_fail = Some 0, trie_match = [], trie_final = 0, trie_id = -1\<rparr>]"
  using assms by (auto simp: trie_insert_def set_state_def Let_def)

lemma trie_insert_fail_states:
  assumes "trie_insert t depth q c = (t', new)"
  shows "\<exists>k. depth < length (fail_states t @ replicate k [])
    \<and> fail_states t' = (fail_states t @ replicate k [])[depth := new # (fail_states t @ replicate k []) ! depth]"
proof -
  let ?len = "length (fail_states t)"
  have "fail_states t' = (let fs = (if ?len < depth + 1 then fail_states t @ replicate (max (?len + 64) (depth + 1) - ?len) [] else fail_states t)
      in fs[depth := length (trie_states t) # fs ! depth])" "new = length (trie_states t)"
    using assms by (auto simp: trie_insert_def set_state_def Let_def)
  then show ?thesis
    by (intro exI [of _ "if ?len < depth + 1 then max (?len + 64) (depth + 1) - ?len else 0"]) (auto simp: Let_def)
qed

lemma chains_extended:
  assumes "\<forall>d < length fs. set (fs ! d) = {q. q < length ps \<and> length (ps ! q) = d + 1}"
    "\<forall>q < length ps. length (ps ! q) \<le> length fs" "d < length (fs @ replicate k [])"
  shows "set ((fs @ replicate k []) ! d) = {q. q < length ps \<and> length (ps ! q) = d + 1}"
  using assms by (cases "d < length fs") (force simp: nth_append)+

lemma trie_insert_wf:
  assumes "trie_wf t ps" "q < length ps" "length (ps ! q) = depth" "ps ! q @ [c] \<notin> set ps" "trie_insert t depth q c = (t', new)"
  shows "trie_wf t' (ps @ [ps ! q @ [c]])" and "new = length ps"
proof -
  have len: "length (trie_states t) = length ps" using assms(1) by (simp add: trie_wf_def)
  note st = trie_insert_states [OF _ assms(5), unfolded len, OF assms(2)]
  show new: "new = length ps" by (fact st(1))
  obtain k where k: "depth < length (fail_states t @ replicate k [])"
    "fail_states t' = (fail_states t @ replicate k [])[depth := new # (fail_states t @ replicate k []) ! depth]"
    using trie_insert_fail_states [OF assms(5)] by blast
  let ?ps = "ps @ [ps ! q @ [c]]"
  have nth: "?ps ! x = (if x = length ps then ps ! q @ [c] else ps ! x)" if "x < length ?ps" for x
    using that by (auto simp: nth_append)
  have old: "\<forall>q < length ps. \<forall>c q'. (c, q') \<in> set (trie_match (trie_states t ! q)) \<longleftrightarrow> q' < length ps \<and> ps ! q' = ps ! q @ [c]"
    using assms(1) unfolding trie_wf_def by blast
  have "(d, q') \<in> set (trie_match (trie_states t' ! x)) \<longleftrightarrow> q' < length ?ps \<and> ?ps ! q' = ?ps ! x @ [d]" if "x < length ?ps" for x d q'
  proof (cases "x = length ps")
    case True
    have "ps ! q @ [c] @ [d] \<notin> set ps" using trie_wf_up [OF assms(1), of "ps ! q @ [c]" d] assms(4) by auto
    then have "ps ! q' \<noteq> ps ! q @ [c] @ [d]" if "q' < length ps" for q' using that by (metis nth_mem)
    moreover have "trie_match (trie_states t' ! x) = []" using True st(3) len by (simp add: nth_append)
    ultimately show ?thesis using True nth [of x] nth [of q'] that by (cases "q' < length ?ps") (auto split: if_splits)
  next
    case False
    then have x: "x < length ps" using that by simp
    have "trie_match (trie_states t' ! x) = (if x = q then [(c, length ps)] else []) @ trie_match (trie_states t ! x)"
      using st(3) new len x assms(2) by (auto simp: nth_append)
    moreover have "ps ! x = ps ! q \<longleftrightarrow> x = q" using x assms(2) trie_wf_path_eq [OF assms(1)] by blast
    moreover have "?ps ! x = ps ! x" using x by (simp add: nth_append)
    moreover have "ps ! q @ [c] = ps ! x @ [d] \<longleftrightarrow> ps ! x = ps ! q \<and> c = d" by auto
    ultimately show ?thesis using x old nth [of q'] by (cases "q' = length ps") (auto simp: less_Suc_eq)
  qed
  moreover have "set (fail_states t' ! d) = {q. q < length ?ps \<and> length (?ps ! q) = d + 1}" if "d < length (fail_states t')" for d
  proof -
    have d: "d < length (fail_states t @ replicate k [])" using that k by simp
    have "set ((fail_states t @ replicate k []) ! d) = {q. q < length ps \<and> length (ps ! q) = d + 1}"
      using chains_extended [OF _ _ d] assms(1) unfolding trie_wf_def by blast
    moreover have "set (fail_states t' ! d) = set ((fail_states t @ replicate k []) ! d) \<union> (if d = depth then {length ps} else {})"
      unfolding k(2) new using k(1) by (cases "d = depth") simp_all
    moreover have "{q. q < length ?ps \<and> length (?ps ! q) = d + 1}
        = {q. q < length ps \<and> length (ps ! q) = d + 1} \<union> (if d = depth then {length ps} else {})"
      using assms(3) by (cases "d = depth") (auto simp: nth_append less_Suc_eq)
    ultimately show ?thesis by simp
  qed
  moreover have "length (?ps ! x) \<le> length (fail_states t')" if "x < length ?ps" for x
  proof (cases "x = length ps")
    case False
    then have "length (ps ! x) \<le> length (fail_states t)" using that assms(1) unfolding trie_wf_def by auto
    then show ?thesis using that False k(2) by (simp add: nth_append)
  qed (use k assms(3) in simp)
  moreover have "w \<in> set ?ps" if "w @ [d] \<in> set ?ps" for w d
    using that assms(1,2) unfolding trie_wf_def by auto
  moreover have "length ?ps = length (trie_states t')" "?ps \<noteq> []" using st(3) len by auto
  moreover have "?ps ! 0 = []" "distinct ?ps"
    using assms(1,4) trie_wf_zero [OF assms(1)] by (auto simp: trie_wf_def nth_append)
  ultimately show "trie_wf t' ?ps" unfolding trie_wf_def by blast
qed

lemma shallow_fail_ok:
  assumes "trie_wf t ps" "q < length ps" "length (ps ! q) = 1"
  shows "fail_ok ps t q \<longleftrightarrow> trie_fail (trie_states t ! q) = Some 0"
proof -
  obtain x where x: "ps ! q = [x]" using assms(3) by (cases "ps ! q") auto
  have "strict_suffix v [x] \<longleftrightarrow> v = []" for v using strict_suffix_snoc [of v "[]" x] by simp
  then have "is_fail ps (ps ! q) (ps ! f) \<longleftrightarrow> f = 0" if "f < length ps" for f
    using that x assms(1) trie_wf_zero [OF assms(1)] trie_wf_path_eq [OF assms(1), of f 0] by (auto simp: is_fail_def)
  then show ?thesis using x trie_wf_nonroot [OF assms(1), of q] trie_wf_zero [OF assms(1)] by (auto simp: fail_ok_def)
qed

lemma trie_inv_shallow:
  "trie_inv ps P t \<longleftrightarrow> trie_wf t ps \<and> set P \<subseteq> set ps \<and> finals_sound ps P t \<and> trie_fail (trie_states t ! 0) = None
     \<and> (\<forall>q < length ps. length (ps ! q) = 1 \<longrightarrow> trie_fail (trie_states t ! q) = Some 0)"
proof (cases "trie_wf t ps")
  case True
  have "length (ps ! q) \<le> 1 \<longleftrightarrow> q = 0 \<or> length (ps ! q) = 1" if "q < length ps" for q
    using that trie_wf_zero [OF True] trie_wf_path_eq [OF True, of q 0] by (auto simp: le_Suc_eq)
  then show ?thesis using True trie_wf_zero [OF True] shallow_fail_ok [OF True]
    unfolding trie_inv_def by (metis fail_ok_def)
qed (simp add: trie_inv_def)

lemma trie_insert_inv:
  assumes "trie_inv ps P t" "q < length ps" "length (ps ! q) = depth" "ps ! q @ [c] \<notin> set ps" "trie_insert t depth q c = (t', new)"
  shows "trie_inv (ps @ [ps ! q @ [c]]) P t'" "new = length ps" "trie_icase t' = trie_icase t"
proof -
  have wf: "trie_wf t ps" using assms(1) by (simp add: trie_inv_def)
  note st = trie_insert_states [OF _ assms(5), unfolded trie_wf_length [OF wf], OF assms(2)]
  have nth: "trie_states t' ! x = (if x = length ps then \<lparr>trie_fail = Some 0, trie_match = [], trie_final = 0, trie_id = -1\<rparr>
      else if x = q then (trie_states t ! q)\<lparr>trie_match := (c, new) # trie_match (trie_states t ! q)\<rparr> else trie_states t ! x)"
    if "x < length ps + 1" for x
    using that st(3) trie_wf_length [OF wf] assms(2) by (auto simp: nth_append)
  have same: "trie_fail (trie_states t' ! x) = trie_fail (trie_states t ! x)" "trie_final (trie_states t' ! x) = trie_final (trie_states t ! x)"
    if "x < length ps" for x using that nth [of x] by auto
  have "trie_fail (trie_states t' ! 0) = None" using assms(1) same(1) trie_wf_zero [OF wf] by (simp add: trie_inv_shallow)
  moreover have "finals_sound (ps @ [ps ! q @ [c]]) P t'"
    using assms(1,4) same(2) nth unfolding trie_inv_def finals_sound_def by (auto simp: nth_append less_Suc_eq)
  moreover have "set P \<subseteq> set (ps @ [ps ! q @ [c]])" using assms(1) by (auto simp: trie_inv_def)
  moreover have "\<forall>x < length (ps @ [ps ! q @ [c]]). length ((ps @ [ps ! q @ [c]]) ! x) = 1 \<longrightarrow> trie_fail (trie_states t' ! x) = Some 0"
    using assms(1) same(1) nth by (auto simp: trie_inv_shallow nth_append less_Suc_eq)
  ultimately show "trie_inv (ps @ [ps ! q @ [c]]) P t'"
    using trie_insert_wf(1) [OF wf assms(2-5)] by (simp add: trie_inv_shallow)
qed (use trie_insert_wf(2) [OF _ assms(2-5)] trie_insert_states(2) [OF _ assms(5)] assms(1,2) in \<open>auto simp: trie_inv_def trie_wf_length\<close>)

text \<open>
  What is taken from a pattern: its octets up to the first character of several octets, since the
  length of the pattern is given as -1; the octets that start no character become the one for errors.
\<close>

fun trie_pattern :: "byte list \<Rightarrow> guint32 list" where
  "trie_pattern [] = []"
| "trie_pattern (b # p) =
     (if b = 0 then [] else if b < 0x80 then ucast b # trie_pattern p
      else if b < 0xfe then [] else 0xfffe # trie_pattern p)"

definition fold_case :: "(guint32 \<Rightarrow> guint32) \<Rightarrow> bool \<Rightarrow> guint32 \<Rightarrow> guint32" where
  "fold_case lower icase c = (if icase then lower c else c)"

lemma trie_getc_unlimited:
  "trie_utf8_getc ((b # p) @ [0]) (-1) =
     Some (if b < 0x80 then (ucast b, p @ [0]) else if b < 0xfe then (0, (b # p) @ [0]) else (0xfffe, p @ [0]))"
  by (simp add: trie_utf8_getc_def trie_getc_loop.simps)

lemma ucast_byte_zero: "(ucast (b :: byte) :: guint32) = 0 \<longleftrightarrow> b = 0"
proof
  assume "(ucast b :: guint32) = 0"
  then have "\<not> bit (ucast b :: guint32) n" for n by simp
  then show "b = 0" by (intro bit_eqI) (auto simp: bit_simps)
qed simp

lemma trie_add_loop_ok:
  assumes "trie_inv ps P t" "q < length ps" "length (ps ! q) = depth"
  shows "\<exists>t' q' ps'. trie_add_loop lower t depth q (p @ [0]) = Some (t', depth + length (trie_pattern p), q')
    \<and> trie_inv ps' P t' \<and> q' < length ps' \<and> ps' ! q' = ps ! q @ map (fold_case lower (trie_icase t)) (trie_pattern p)
    \<and> trie_icase t' = trie_icase t"
  using assms
proof (induction p arbitrary: ps t q depth)
  case Nil
  then show ?case by (subst trie_add_loop.simps) (auto simp: trie_utf8_getc_def)
next
  case (Cons b p)
  have wf: "trie_wf t ps" using Cons.prems(1) by (simp add: trie_inv_def)
  show ?case
  proof (cases "trie_pattern (b # p)")
    case Nil
    then have "trie_add_loop lower t depth q ((b # p) @ [0]) = Some (t, depth, q)"
      by (subst trie_add_loop.simps, subst trie_getc_unlimited) (auto split: if_splits)
    then show ?thesis using Nil Cons.prems by auto
  next
    case (Cons c w)
    then have getc: "trie_utf8_getc ((b # p) @ [0]) (-1) = Some (c, p @ [0])" "c \<noteq> 0" "w = trie_pattern p"
      unfolding trie_getc_unlimited by (auto simp: ucast_byte_zero split: if_splits)
    let ?c = "fold_case lower (trie_icase t) c"
    have loop: "trie_add_loop lower t depth q ((b # p) @ [0]) =
        (case g t q ?c of None \<Rightarrow> (let (t, q) = trie_insert t depth q ?c in trie_add_loop lower t (depth + 1) q (p @ [0]))
         | Some q \<Rightarrow> trie_add_loop lower t (depth + 1) q (p @ [0]))"
      unfolding fold_case_def using getc by (subst trie_add_loop.simps) (simp add: Let_def split: option.splits)
    show ?thesis
    proof (cases "g t q ?c")
      case None
      obtain t1 new where ins: "trie_insert t depth q ?c = (t1, new)" by force
      have no: "ps ! q @ [?c] \<notin> set ps" using None g_None [OF wf Cons.prems(2)] by blast
      note inv = trie_insert_inv [OF Cons.prems no ins]
      have "(ps @ [ps ! q @ [?c]]) ! new = ps ! q @ [?c]" "length (ps ! q @ [?c]) = depth + 1" using inv(2) Cons.prems(3) by (simp_all add: nth_append)
      then show ?thesis using Cons.IH [OF inv(1), of new "depth + 1"] inv(2,3) None loop ins getc(3) Cons by auto
    next
      case (Some n)
      then have "n < length ps" "ps ! n = ps ! q @ [?c]" using g_Some [OF wf Cons.prems(2)] by auto
      then show ?thesis using Cons.IH [OF Cons.prems(1), of n "depth + 1"] Cons.prems(3) Some loop getc(3) Cons by auto
    qed
  qed
qed

lemma set_final_inv:
  assumes "trie_inv ps P t" "q < length ps"
  shows "trie_inv ps (ps ! q # P) (set_state q (\<lambda>s. s\<lparr>trie_final := length (ps ! q), trie_id := i\<rparr>) t)"
proof -
  have wf: "trie_wf t ps" using assms(1) by (simp add: trie_inv_def)
  let ?t = "set_state q (\<lambda>s. s\<lparr>trie_final := length (ps ! q), trie_id := i\<rparr>) t"
  have nth: "trie_states ?t ! x = (if x = q then (trie_states t ! q)\<lparr>trie_final := length (ps ! q), trie_id := i\<rparr> else trie_states t ! x)" for x
    using assms(2) trie_wf_length [OF wf] by (simp add: set_state_nth)
  have "trie_wf ?t ps" using wf by (subst set_state_wf) simp_all
  moreover have "finals_sound ps (ps ! q # P) ?t"
    using assms trie_wf_path_eq [OF wf] unfolding trie_inv_def finals_sound_def nth by auto
  ultimately show ?thesis using assms by (auto simp: trie_inv_shallow nth)
qed

lemma e_trie_add_ok:
  assumes "trie_ok ps P t"
  shows "\<exists>t' ps'. e_trie_add lower p i t = Some t' \<and> trie_ok ps' (map (fold_case lower (trie_icase t)) (trie_pattern p) # P) t'
    \<and> trie_icase t' = trie_icase t"
proof -
  have inv: "trie_inv ps P t" using assms by (simp add: trie_ok_def)
  then have zero: "0 < length ps" "ps ! 0 = []" using trie_wf_zero by (auto simp: trie_inv_def)
  let ?w = "map (fold_case lower (trie_icase t)) (trie_pattern p)"
  obtain t1 q1 ps1 where t1: "trie_add_loop lower t 0 0 (p @ [0]) = Some (t1, length ?w, q1)" "trie_inv ps1 P t1" "q1 < length ps1"
    "ps1 ! q1 = ?w" "trie_icase t1 = trie_icase t"
    using trie_add_loop_ok [OF inv zero(1), of 0 lower p] zero(2) by auto
  let ?t = "set_state q1 (\<lambda>s. s\<lparr>trie_final := length ?w, trie_id := i\<rparr>) t1"
  have "trie_inv ps1 (?w # P) ?t" using set_final_inv [OF t1(2,3)] t1(4) by simp
  from failure_graph_ok [OF this] show ?thesis using t1(1,5) by (auto simp: e_trie_add_def Let_def)
qed

section \<open>Searching\<close>

text \<open>The characters that the search looks at: those that are not errors, up to a NUL or a character that is cut off.\<close>

function trie_text :: "byte list \<Rightarrow> guint32 list" where
  "trie_text p =
     (case trie_utf8_getc p (int (length p)) of
        None \<Rightarrow> []
      | Some (c, p') \<Rightarrow> (if c = 0 then [] else if c \<noteq> 0xfffe then c # trie_text p' else trie_text p'))"
  by pat_completeness auto
termination
  by (relation "measure length") (auto dest: trie_utf8_getc_shorter)

declare trie_text.simps [simp del]

lemma trie_getc_loop_returns: "int (length p) = inend - k \<Longrightarrow> trie_getc_loop start u m r k inend p \<noteq> None"
proof (induction start u m r k inend p rule: trie_getc_loop.induct)
  case (1 start u m r k inend p)
  show ?case
  proof (cases p)
    case Nil
    then show ?thesis using 1 by (subst trie_getc_loop.simps) simp
  next
    case (Cons c p')
    have IH: "trie_getc_loop start u' m' r' (k + 1) inend p' \<noteq> None"
      if "c AND 0xc0 = 0x80" "u' = push_bit 6 u OR ucast (c AND 0x3f)" "r' = push_bit 1 r" "m' = push_bit 5 m" "r' AND 0x40 \<noteq> 0" for u' m' r'
      using 1(1) [of c p' u' r' m'] 1(2) that Cons by auto
    then show ?thesis using Cons by (subst trie_getc_loop.simps) (simp add: Let_def)
  qed
qed

lemma trie_getc_returns: "\<exists>c p'. trie_utf8_getc p (int (length p)) = Some (c, p')"
  using trie_getc_loop_returns [of "tl p" "int (length p)" 1] by (auto simp: trie_utf8_getc_def split: list.splits)

text \<open>The longest end of the text that is a path.\<close>

definition longest :: "guint32 list list \<Rightarrow> guint32 list \<Rightarrow> guint32 list \<Rightarrow> bool" where
  "longest ps x w \<longleftrightarrow> suffix w x \<and> (\<forall>v\<in>set ps. suffix v x \<longrightarrow> suffix v w)"

lemma longest_step:
  assumes "trie_wf t ps" "longest ps x w" "follows ps w c r"
  shows "longest ps (x @ [c]) (case r of None \<Rightarrow> [] | Some (q, n) \<Rightarrow> ps ! n)"
proof -
  have up: "suffix z w" if "suffix z x" "z @ [c] \<in> set ps" for z
    using that assms(2) trie_wf_up [OF assms(1)] by (auto simp: longest_def)
  have w: "suffix w x" using assms(2) by (simp add: longest_def)
  show ?thesis
  proof (cases r)
    case None
    then show ?thesis using assms(3) up by (auto simp: longest_def follows_def)
  next
    case (Some a)
    obtain q n where a: "a = (q, n)" by force
    then have "ps ! n = ps ! q @ [c]" "suffix (ps ! q) w" "\<forall>v. suffix v w \<and> v @ [c] \<in> set ps \<longrightarrow> suffix v (ps ! q)"
      using assms(3) Some by (auto simp: follows_def)
    then show ?thesis using Some a w up by (auto simp: longest_def intro: suffix_order.order_trans)
  qed
qed

definition found :: "guint32 list list \<Rightarrow> guint32 list \<Rightarrow> bool" where
  "found P x \<longleftrightarrow> (\<exists>p\<in>set P. p \<noteq> [] \<and> sublist p x)"

lemma final_found:
  assumes "trie_ok ps P t" "q < length ps" "longest ps (x @ [c]) (ps ! q)" "\<not> found P x"
  shows "trie_final (trie_states t ! q) \<noteq> 0 \<longleftrightarrow> found P (x @ [c])"
proof -
  have "suffix p (ps ! q) \<longleftrightarrow> suffix p (x @ [c])" if "p \<in> set P" for p
    using that assms(1,3) unfolding longest_def trie_ok_def trie_inv_def by (meson subsetD suffix_order.order_trans)
  moreover have "trie_final (trie_states t ! q) \<noteq> 0 \<longleftrightarrow> (\<exists>p\<in>set P. p \<noteq> [] \<and> suffix p (ps ! q))"
    using assms(1,2) unfolding trie_ok_def trie_inv_def finals_sound_def trie_good_def by blast
  ultimately show ?thesis using assms(4) by (auto simp: found_def sublist_snoc)
qed

lemma found_append: "found P x \<Longrightarrow> found P (x @ y)"
  unfolding found_def by (meson sublist_append_rightI sublist_order.order_trans)

lemma trie_follow_ok:
  "trie_ok ps P t \<Longrightarrow> q < length ps \<Longrightarrow> \<exists>r. trie_follow t (Some q) c = Some r \<and> follows ps (ps ! q) c r"
  by (rule trie_follow_correct) (auto simp: trie_ok_def trie_inv_def trie_good_def)

lemma trie_search_loop_ok:
  assumes "trie_ok ps P t" "q < length ps" "longest ps x (ps ! q)" "\<not> found P x"
  shows "\<exists>r. trie_search_loop lower t q pat prev inptr = Some r
    \<and> (r \<noteq> None \<longleftrightarrow> found P (x @ map (fold_case lower (trie_icase t)) (trie_text inptr)))"
  using assms(2-4)
proof (induction "length inptr" arbitrary: inptr q x pat prev rule: less_induct)
  case less
  have wf: "trie_wf t ps" using assms(1) by (simp add: trie_ok_def trie_inv_def)
  obtain c p' where getc: "trie_utf8_getc inptr (int (length inptr)) = Some (c, p')" using trie_getc_returns by blast
  let ?c = "fold_case lower (trie_icase t) c"
  show ?case
  proof (cases "c = 0 \<or> c = 0xfffe")
    case True
    show ?thesis
    proof (cases "c = 0")
      case True
      then show ?thesis using getc less.prems
        by (subst trie_search_loop.simps, subst trie_text.simps) simp
    next
      case False
      then have "length p' < length inptr" using trie_utf8_getc_shorter [OF getc] by blast
      from less.hyps [OF this less.prems] show ?thesis using getc True False
        by (subst trie_search_loop.simps, subst trie_text.simps) simp
    qed
  next
    case False
    have shorter: "length p' < length inptr" using trie_utf8_getc_shorter [OF getc] False by blast
    have chars: "trie_text inptr = c # trie_text p'" using getc False by (subst trie_text.simps) simp
    obtain r where r: "trie_follow t (Some q) ?c = Some r" "follows ps (ps ! q) ?c r" using trie_follow_ok [OF assms(1) less.prems(1)] by blast
    note step = longest_step [OF wf less.prems(2) r(2)]
    have loop: "trie_search_loop lower t q pat prev inptr =
        (case r of
           None \<Rightarrow> trie_search_loop lower t 0 p' p' p'
         | Some (q, n) \<Rightarrow>
             (if trie_final (trie_states t ! n) \<noteq> 0 then Some (Some (if q = 0 then prev else pat, trie_id (trie_states t ! n)))
              else trie_search_loop lower t n (if q = 0 then prev else pat) p' p'))"
      using getc False r(1) by (subst trie_search_loop.simps) (simp add: fold_case_def Let_def split: option.splits prod.splits)
    show ?thesis
    proof (cases r)
      case None
      have zero: "0 < length ps" "ps ! 0 = []" using trie_wf_zero [OF wf] by auto
      have l: "longest ps (x @ [?c]) (ps ! 0)" using step None zero by simp
      have "\<not> found P (x @ [?c])"
        using final_found [OF assms(1) zero(1) l less.prems(3)] root_not_final assms(1) by (auto simp: trie_ok_def)
      then show ?thesis using less.hyps [OF shorter zero(1) l] loop None chars by simp
    next
      case (Some a)
      obtain q' n where a: "a = (q', n)" by force
      then have n: "n < length ps" using r(2) Some by (simp add: follows_def)
      have l: "longest ps (x @ [?c]) (ps ! n)" using step Some a by simp
      note fin = final_found [OF assms(1) n l less.prems(3)]
      show ?thesis
      proof (cases "trie_final (trie_states t ! n) = 0")
        case True
        then show ?thesis using less.hyps [OF shorter n l] fin loop Some a chars by simp
      next
        case False
        then show ?thesis using fin found_append [of P "x @ [?c]"] loop Some a chars by simp
      qed
    qed
  qed
qed

lemma trie_adds_ok:
  assumes "trie_ok ps P t"
  shows "\<exists>t' ps'. opt_fold (\<lambda>(p, i). e_trie_add lower p i) pats t = Some t'
    \<and> trie_ok ps' (rev (map (\<lambda>(p, i). map (fold_case lower (trie_icase t)) (trie_pattern p)) pats) @ P) t' \<and> trie_icase t' = trie_icase t"
  using assms
proof (induction pats arbitrary: ps P t)
  case (Cons a pats)
  obtain p i where a: "a = (p, i)" by force
  obtain t1 ps1 where t1: "e_trie_add lower p i t = Some t1" "trie_icase t1 = trie_icase t"
    "trie_ok ps1 (map (fold_case lower (trie_icase t)) (trie_pattern p) # P) t1"
    using e_trie_add_ok [OF Cons.prems] by blast
  from Cons.IH [OF t1(3)] show ?case using a t1(1,2) by auto
qed auto

text \<open>
  C3. Patterns can be added to a new trie in any number and order, and the search of a buffer returns, with
  a match exactly if one of the patterns, as far as it was taken into the trie, occurs among the
  characters of the buffer.
\<close>

theorem trie_search_correct:
  "\<exists>t r. opt_fold (\<lambda>(p, i). e_trie_add lower p i) pats (e_trie_new icase) = Some t \<and> e_trie_search lower t buffer = Some r
    \<and> (r \<noteq> None \<longleftrightarrow> (\<exists>(p, i)\<in>set pats. trie_pattern p \<noteq> []
        \<and> sublist (map (fold_case lower icase) (trie_pattern p)) (map (fold_case lower icase) (trie_text buffer))))"
proof -
  let ?P = "rev (map (\<lambda>(p, i). map (fold_case lower icase) (trie_pattern p)) pats)"
  obtain t ps where t: "opt_fold (\<lambda>(p, i). e_trie_add lower p i) pats (e_trie_new icase) = Some t" "trie_ok ps ?P t" "trie_icase t = icase"
    using trie_adds_ok [OF trie_new_ok, of lower pats icase] by (auto simp: e_trie_new_def)
  have zero: "0 < length ps" "ps ! 0 = []" using t(2) trie_wf_zero by (auto simp: trie_ok_def trie_inv_def)
  have start: "longest ps [] (ps ! 0)" and none: "\<not> found ?P []" using zero(2) by (auto simp: longest_def found_def)
  obtain r where "e_trie_search lower t buffer = Some r" "r \<noteq> None \<longleftrightarrow> found ?P (map (fold_case lower icase) (trie_text buffer))"
    using trie_search_loop_ok [OF t(2) zero(1) start, of lower buffer buffer buffer] none t(3)
    unfolding e_trie_search_def by auto
  moreover have "found ?P y \<longleftrightarrow> (\<exists>(p, i)\<in>set pats. trie_pattern p \<noteq> [] \<and> sublist (map (fold_case lower icase) (trie_pattern p)) y)" for y
    by (auto simp: found_def case_prod_unfold)
  ultimately show ?thesis using t(1) by blast
qed

text \<open>
  On strings of ASCII characters, the ones that the trie sees are those that are there.
\<close>

lemma trie_pattern_ascii: "\<forall>b\<in>set p. b \<noteq> 0 \<and> b < 0x80 \<Longrightarrow> trie_pattern p = map ucast p"
  by (induction p) auto

lemma trie_text_ascii: "\<forall>b\<in>set p. b \<noteq> 0 \<and> b < 0x80 \<Longrightarrow> trie_text p = map ucast p"
proof (induction p)
  case (Cons b p)
  have "\<not> bit (ucast b :: guint32) 15" by (auto simp: bit_simps dest: bit_imp_le_length)
  moreover have "bit (0xfffe :: guint32) 15" by simp
  ultimately have "(ucast b :: guint32) \<noteq> 0xfffe" by metis
  then show ?case using Cons by (subst trie_text.simps) (simp add: trie_utf8_getc_def ucast_byte_zero)
qed (simp add: trie_text.simps trie_utf8_getc_def)

text \<open>
  A pattern is cut at its first character of several octets: only the ASCII characters in front of it
  are taken into the trie, so that a pattern that starts with one matches nothing.
\<close>

theorem trie_pattern_cut:
  assumes "\<forall>b\<in>set p. b < 0x80" "0x80 \<le> b" "b < 0xfe"
  shows "e_trie_add lower (p @ b # rest) i t = e_trie_add lower p i t"
proof -
  have "trie_add_loop lower t depth q ((p @ b # rest) @ [0]) = trie_add_loop lower t depth q (p @ [0])" for t depth q
    using assms(1)
  proof (induction p arbitrary: t depth q)
    case Nil
    have "trie_utf8_getc ((b # rest) @ [0]) (-1) = Some (0, (b # rest) @ [0])" "trie_utf8_getc [0] (-1) = Some (0, [])"
      using assms(2,3) by (simp_all only: trie_getc_unlimited) (auto simp: trie_utf8_getc_def)
    then show ?case by (simp add: trie_add_loop.simps [of lower t depth q])
  next
    case (Cons a p)
    then have "trie_utf8_getc ((a # p @ b # rest) @ [0]) (-1) = Some (ucast a, (p @ b # rest) @ [0])"
      "trie_utf8_getc ((a # p) @ [0]) (-1) = Some (ucast a, p @ [0])"
      by (simp_all only: trie_getc_unlimited) simp_all
    then show ?case using Cons by (simp add: trie_add_loop.simps [of lower t depth q] Let_def split: option.splits prod.splits)
  qed
  then show ?thesis by (simp add: e_trie_add_def)
qed

theorem trie_pattern_cut_witness:
  "e_trie_add (\<lambda>c. c) (octets ''caf'' @ 0xc3 # [0xa9]) 1 (e_trie_new True) = e_trie_add (\<lambda>c. c) (octets ''caf'') 1 (e_trie_new True)"
  by (rule trie_pattern_cut) (simp_all add: octets_def)

definition two_patterns :: "etrie option" where
  "two_patterns = opt_fold (\<lambda>(p, i). e_trie_add (\<lambda>c. c) p i) [(octets ''abcd'', 2), (octets ''bc'', 1)] (e_trie_new False)"

text \<open>
  A match that a state has through its failure link is reported with the identifier of the state, not that
  of the pattern, and from the start of the path, not of the pattern.
\<close>

lemma inherited_match_unnamed:
  "map_option (\<lambda>t. e_trie_search (\<lambda>c. c) t (octets ''xabc'')) two_patterns = Some (Some (Some (octets ''abc'', -1)))"
  by code_simp

end
