(* ===== verification/Spec2Isabelle.thy ===== *)
theory Spec2Isabelle
  imports Recur_Instance_Laws Camel_Utf8 Camel_File_Utils Camel_List_Utils Camel_Stream_Filter Camel_Yenc Camel_Object_Bag Camel_Url_Resolve E_Sexp_Parse E_Trie_Laws
begin

text \<open>
  \<^bold>\<open>Verification of Evolution Data Server.\<close>

  The program is the calendar and address book server of Evolution with its client libraries and the
  Camel mail library. Most of its source is glue: object boilerplate, CORBA stubs, network back ends,
  a bundled Berkeley DB. The development models the parts that carry algorithms of the program's own:
  the recurrence engine of the calendar library (\<^verbatim>\<open>src/calendar/libecal/e-cal-recur.c\<close>, the largest
  part of the development) and the codecs and containers that all of Camel is built on.

  \<^bold>\<open>The recurrence engine.\<close> A client asks for the instances of an event in an interval
  (\<^verbatim>\<open>e_cal_recur_generate_instances\<close>). The interval is cut into chunks of a year. For every chunk each
  RRULE and EXRULE is expanded: the first period at or after the start of the interval is found, the
  period is expanded and filtered by the BYxxx modifiers, BYSETPOS is applied, and the next period is
  reached by adding the interval, until the end. The sets are sorted, freed of duplicates, merged
  with the RDATEs, the exceptions are taken out, and a callback receives the instances in order.

  \<^item> \<^verbatim>\<open>EDS_Prelude\<close>: lemmas on lists, sorted insertion and words that the other theories share.
  \<^item> \<^verbatim>\<open>Cal_Time\<close>: the record of \<^verbatim>\<open>CalObjTime\<close>, its comparison functions and the functions that add
    months, days, hours, minutes and seconds, with the octets of the struct wrapping as in the code.
    They are proved to move a valid time by exactly the given number of units on the proleptic
    Gregorian calendar.
  \<^item> \<^verbatim>\<open>GDate_Interface\<close>: the calendar functions of GLib that the code calls, as a locale; the
    functions of \<^verbatim>\<open>e-cal-time-util.c\<close> and the duration of an event; the locale is interpreted on
    the day count of \<^verbatim>\<open>Cal_Time\<close>.
  \<^item> \<^verbatim>\<open>Recur_Data\<close>: \<^verbatim>\<open>ECalRecurrence\<close>, \<^verbatim>\<open>RecurData\<close> and its lookup tables, the conversion from the rule of
    libical. \<open>recur_ok\<close> says what values a rule may have; a BYSECOND of 60 (a leap second) is
    outside it, since the table has 62 entries but the time of such an occurrence is not valid.
  \<^item> \<^verbatim>\<open>Recur_Modifiers\<close>, \<^verbatim>\<open>Recur_ByDay\<close>, \<^verbatim>\<open>Recur_Modifier_Laws\<close>: the expansion and filter functions of all
    the BYxxx modifiers. Each is proved to keep valid times valid, within the period; the BYDAY ones
    are characterised by the set of weekdays they select.
  \<^item> \<^verbatim>\<open>Recur_Sets\<close>: sorting, duplicates, exceptions, BYSETPOS on the arrays of occurrences.
  \<^item> \<^verbatim>\<open>Recur_Positions\<close>, \<^verbatim>\<open>Recur_Position_Laws\<close>, \<^verbatim>\<open>Recur_Start_Laws\<close>: for each frequency the start of the
    first period and the step to the next one, with the period number each position has.
  \<^item> \<^verbatim>\<open>Recur_Expand\<close>, \<^verbatim>\<open>Recur_Expand_Laws\<close>: the tables of the modifiers per frequency, the sets of a period and
    the loop of \<^verbatim>\<open>cal_obj_expand_recurrence\<close>; it returns and visits exactly the due periods.
  \<^item> \<^verbatim>\<open>Recur_Instances\<close>, \<^verbatim>\<open>Recur_Driver\<close>, \<^verbatim>\<open>Recur_Instance_Laws\<close>: chunks, the callback, the loop over the years, and
    the end date of COUNT rules with its \<^verbatim>\<open>X-EVOLUTION-ENDDATE\<close> parameter.

  \<^bold>\<open>Camel.\<close> Octets are 8-bit words and a string is the list of its octets (\<^verbatim>\<open>Camel_Bytes\<close>).

  \<^item> \<^verbatim>\<open>Camel_Utf8\<close> (\<^verbatim>\<open>camel-utf8.c\<close>): UTF-8 characters, modified UTF-7 and UCS-2. Round trips, and that the
    converters never read behind the terminating NUL.
  \<^item> \<^verbatim>\<open>Camel_File_Utils\<close> (\<^verbatim>\<open>camel-file-utils.c\<close>): the numbers and strings of the summary files, over a stream
    with the octets to come and the room that is left. What was written is read back; errors are
    reported exactly if the stream fails, with the exceptions that are stated.
  \<^item> \<^verbatim>\<open>Camel_List_Utils\<close> (\<^verbatim>\<open>camel-list-utils.c\<close>): the two kinds of intrusive lists on a memory of pointers,
    with the header of a list cast to its end nodes as in the code. Any sequence of operations refines
    the same operations on a list of nodes.
  \<^item> \<^verbatim>\<open>Camel_Quoted\<close>, \<^verbatim>\<open>Camel_Uu\<close> (\<^verbatim>\<open>camel-mime-utils.c\<close>): quoted-printable, the Q encoding and uuencoding, with
    the state that is carried from chunk to chunk. Decoding what was encoded in any chunks gives the
    data; the outputs fit the buffers that \<^verbatim>\<open>camel-mime-filter-basic.c\<close> allocates.
  \<^item> \<^verbatim>\<open>Camel_Mime_Filter\<close> (\<^verbatim>\<open>camel-mime-filter.c\<close>, \<^verbatim>\<open>camel-mime-filter-crlf.c\<close>): the base class of filters as a record that
    the subclasses extend, the backup of undecided input, and the locale \<open>chunked_filter\<close>: filtering
    a prefix and completing with the rest is completing with everything. Its consequence, that the
    chunks do not matter, is proved once and used for every filter.
  \<^item> \<^verbatim>\<open>Camel_Line_Filters\<close> (\<^verbatim>\<open>camel-mime-filter-canon.c\<close>, \<^verbatim>\<open>camel-mime-filter-from.c\<close>), \<^verbatim>\<open>Camel_Basic_Filter\<close>
    (\<^verbatim>\<open>camel-mime-filter-basic.c\<close>): the filters on lines and those around the transfer encodings. The From filter
    is proved against its specification when it is completed without new input; the decoders of
    dots and of uuencoded data depend on the chunks and are outside the contract.
  \<^item> \<^verbatim>\<open>Camel_Yenc\<close> (\<^verbatim>\<open>camel-mime-filter-yenc.c\<close>): the yEnc encoding, its checksum and its filter. Data encoded and decoded in any
    chunks is the data; the table is that of CRC-32; the output fits its buffer for inputs up to a size
    that is given, and not beyond.
  \<^item> \<^verbatim>\<open>Camel_Object_Bag\<close> (\<^verbatim>\<open>camel-object.c\<close>): object bags, the tables that threads update by reserving a key. The calls are the
    steps of a transition system, a call that waits being two of them; an invariant of the reachable
    states gives mutual exclusion, that no assertion fails and that no wake-up is lost.
  \<^item> \<^verbatim>\<open>Camel_Url\<close> (\<^verbatim>\<open>camel-url.c\<close>): URLs as records, their parser, the resolution of a relative URL with the passes that
    edit the path in place, the printer with its hidden parts, and the functions for hash tables. The
    definitions give the results that \<^verbatim>\<open>tests/misc/url.c\<close> lists. \<^verbatim>\<open>Camel_Url_Laws\<close>: what is printed is parsed back.
    \<^verbatim>\<open>Camel_Url_Resolve\<close>: a resolved path is the result of a walk over its segments, for paths without empty
    directories; the one base for which the code reads outside of the path.
  \<^item> \<^verbatim>\<open>Camel_Stream\<close> (\<^verbatim>\<open>camel-stream.c\<close>), \<^verbatim>\<open>Camel_Stream_Mem\<close> (\<^verbatim>\<open>camel-stream-mem.c\<close>, \<^verbatim>\<open>camel-seekable-stream.c\<close>): the
    methods of a stream, the copy of a stream, and memory streams with bounds and unsigned sizes. The
    locales \<open>byte_sink\<close>, \<open>byte_source\<close>, \<open>quiet_source\<close> and \<open>stream_copy\<close> state what a client needs;
    the memory stream provides it.
  \<^item> \<^verbatim>\<open>Camel_Stream_Filter\<close> (\<^verbatim>\<open>camel-stream-filter.c\<close>): filter objects with the dispatch to their class, chains of
    filters and the stream around them. A chain of filters obeys the contract of a filter, and a
    filtering stream that of a source, so that writing, reading and copying through a chain give the
    output of the chain on the whole data.

  \<^bold>\<open>The common library\<close> (\<^verbatim>\<open>src/libedataserver\<close>).

  \<^item> \<^verbatim>\<open>E_Sexp\<close> (\<^verbatim>\<open>e-sexp.c\<close>): the expressions that the calendar, the address book and the folders are
    searched with: terms, results, the builtin functions, evaluation, the parser over the tokens of
    \<^verbatim>\<open>GScanner\<close> and the interpreter. The jump out of an evaluation is an error value; the parser has fuel of
    twice the number of tokens and one. \<^verbatim>\<open>E_Sexp_Laws\<close>: a type system for the expressions and its soundness,
    intersection and union, casts. \<^verbatim>\<open>E_Sexp_Parse\<close>: the fuel is enough, what is written is parsed back, and
    the tree after a parse that fails.
  \<^item> \<^verbatim>\<open>E_Trie\<close>, \<^verbatim>\<open>E_Trie_Laws\<close> (\<^verbatim>\<open>e-trie.c\<close>): the search for several patterns with the automaton of Aho and Corasick. The
    states are addresses with a list of matches; the proof carries the list of their paths. The failure
    graph that is computed after each pattern is correct, and the search finds a pattern exactly if there is one.

  \<^bold>\<open>Parameters.\<close> The lexical analysis of \<^verbatim>\<open>GScanner\<close>, the functions a client registers and the order in
  which a hash table is walked are parameters, as are the data lists and the string hash of GLib that URLs use. GDate and the date functions of libical are parameters with the laws of their
  documentation (\<^verbatim>\<open>g_unichar_tolower\<close> too; the records \<open>gdate_lib\<close> and \<open>ical_lib\<close>), instantiated in the witnesses.
  \<^verbatim>\<open>camel_mime_special_table\<close> is generated by the build and is a parameter too, as are the base64 functions
  of GLib (\<open>basic_lib\<close>) and the octets of memory that was not initialised. \<^verbatim>\<open>qsort\<close> is a stable
  sort in the model; the properties of the sets do not depend on the order of equal elements. The default
  timezone of a component is taken to be given, and \<^verbatim>\<open>time_t\<close>, \<^verbatim>\<open>off_t\<close> and \<^verbatim>\<open>size_t\<close> to have 64 bits.

  \<^bold>\<open>Loops.\<close> Loops that the code bounds by its data are recursive functions with a measure. Loops that
  may run forever (the expansion of a rule, the search for its first period, the chunks of the years,
  the encoders) are partial functions, for which \<^const>\<open>None\<close> is not returning, and the theorems show
  that they return under the stated bounds: days are added at most 20000 at a time, years are at most
  60000, the number of occurrences of a period is finite by construction. The week loop of the yearly
  position has fuel of 54 steps and of 6 in a month, which is proved to be enough.

  \<^bold>\<open>Not modelled.\<close> Berkeley DB is vendored; the CORBA stubs, the object and type registration of GObject
  and CamelObject, the network back ends (LDAP, Groupwise, Exchange, IMAP, POP, SMTP, HTTP), the user
  interface widgets and the file and thread primitives are I/O or glue; the condition variables of the object
  bags wake a thread only after a signal. Within the modelled files the
  conversion of components to and from text is libical's, and the cancellable reads and writes of
  \<^verbatim>\<open>camel-file-utils.c\<close> are system calls. The filters keep no buffers: the octets that are backed up and the
  output are lists, and that the output fits the size a filter asks for is proved separately. Left for an extension: the header parser and the rest of
  \<^verbatim>\<open>camel-mime-utils.c\<close>, the other stream filters, message threading and the index files.
\<close>

end
